(* ===== verification/Xv6_Prelude.thy ===== *)
theory Xv6_Prelude
  imports Main "HOL-Library.Word"
begin

unbundle bit_operations_syntax

text \<open>
  The machine types of the kernel (src/types.h), the compile-time constants of
  src/param.h and src/fs.h, byte-addressed memory with its little-endian loads and
  stores, buffers as byte lists, and the state monad with panics in which the stateful
  components are written.
\<close>

section \<open>Machine types and constants\<close>

type_synonym byte = "8 word"
type_synonym ushort = "16 word"
type_synonym uint32 = "32 word"
type_synonym uint64 = "64 word"
type_synonym addr = "64 word"

abbreviation (input) NPROC :: nat where "NPROC \<equiv> 64"
abbreviation (input) KSTACKSIZE :: nat where "KSTACKSIZE \<equiv> 4096"
abbreviation (input) NOFILE :: nat where "NOFILE \<equiv> 16"
abbreviation (input) NFILE :: nat where "NFILE \<equiv> 100"
abbreviation (input) NINODE :: nat where "NINODE \<equiv> 50"
abbreviation (input) NDEV :: nat where "NDEV \<equiv> 10"
abbreviation (input) MAXOPBLOCKS :: nat where "MAXOPBLOCKS \<equiv> 10"
abbreviation (input) LOGSIZE :: nat where "LOGSIZE \<equiv> 30"
abbreviation (input) NBUF :: nat where "NBUF \<equiv> 30"
abbreviation (input) FSSIZE :: nat where "FSSIZE \<equiv> 1000"
abbreviation (input) BSIZE :: nat where "BSIZE \<equiv> 512"

section \<open>The collections of the library\<close>

named_theorems kop_simps \<open>how the kernel monad computes\<close>
named_theorems mem_simps \<open>loads after stores\<close>
named_theorems buf_simps \<open>reading and writing slices of a buffer\<close>

lemma unat_byte_less: "unat (b::byte) < 256"
  using unsigned_less [of b, where ?'a = nat] by simp

lemma unat_uint32_less: "unat (w::uint32) < 4294967296"
  using unsigned_less [of w, where ?'a = nat] by simp

lemma unat_addr_less: "unat (a::addr) < 18446744073709551616"
  using unsigned_less [of a, where ?'a = nat] by simp

lemma find_set: "find P xs = Some x \<Longrightarrow> x \<in> set xs \<and> P x"
  by (induction xs) (auto split: if_splits)

lemma and_split: "(a AND m) + (a AND NOT m) = (a :: 'w::len word)"
proof -
  have "(a AND m) AND (a AND NOT m) = 0"
    by (rule bit_word_eqI) (auto simp: bit_simps)
  then have "(a AND m) + (a AND NOT m) = (a AND m) OR (a AND NOT m)"
    by (rule disjunctive_add_eq_or)
  also have "\<dots> = a"
    by (rule bit_word_eqI) (auto simp: bit_simps)
  finally show ?thesis .
qed

section \<open>Little-endian numbers\<close>

fun le_val :: "byte list \<Rightarrow> nat" where
  "le_val [] = 0"
| "le_val (b # bs) = unat b + 256 * le_val bs"

fun le_bytes :: "nat \<Rightarrow> nat \<Rightarrow> byte list" where
  "le_bytes 0 v = []"
| "le_bytes (Suc k) v = of_nat v # le_bytes k (v div 256)"

lemma length_le_bytes [simp]: "length (le_bytes k v) = k"
  by (induction k arbitrary: v) auto

lemma le_val_le_bytes: "le_val (le_bytes k v) = v mod 256 ^ k"
proof (induction k arbitrary: v)
  case (Suc k)
  have "le_val (le_bytes (Suc k) v) = v mod 256 + 256 * (v div 256 mod 256 ^ k)"
    by (simp add: Suc unat_of_nat)
  also have "\<dots> = v mod 256 ^ Suc k"
    by (simp add: mod_mult2_eq)
  finally show ?case .
qed simp

lemma le_val_bound: "le_val bs < 256 ^ length bs"
proof (induction bs)
  case (Cons b bs)
  with unat_byte_less [of b] show ?case by simp
qed simp

lemma le_bytes_le_val: "le_bytes (length bs) (le_val bs) = bs"
proof (induction bs)
  case (Cons b bs)
  have "(unat b + 256 * le_val bs) div 256 = le_val bs"
    using unat_byte_less [of b] by simp
  moreover have "(of_nat (unat b + 256 * le_val bs) :: byte) = b"
    by (simp add: word_unat_eq_iff unat_word_ariths unat_of_nat mod_mult_left_eq
      unat_byte_less)
  ultimately show ?case using Cons by simp
qed simp

lemma le_val_replicate_0 [simp]: "le_val (replicate n 0) = 0"
  by (induction n) auto

section \<open>Memory\<close>

text \<open>
  Memory is a function from 64-bit addresses to bytes; address arithmetic wraps as it
  does on the machine. Two regions are apart when each starts at least the other's
  length after its start, going round the address space.
\<close>

type_synonym mem = "addr \<Rightarrow> byte"

definition mread :: "mem \<Rightarrow> addr \<Rightarrow> nat \<Rightarrow> byte list" where
  "mread m a n = map (\<lambda>i. m (a + of_nat i)) [0..<n]"

definition mwrite :: "addr \<Rightarrow> byte list \<Rightarrow> mem \<Rightarrow> mem" where
  "mwrite a bs m = (\<lambda>x. if unat (x - a) < length bs then bs ! unat (x - a) else m x)"

definition apart :: "addr \<Rightarrow> nat \<Rightarrow> addr \<Rightarrow> nat \<Rightarrow> bool" where
  "apart a n b k \<longleftrightarrow> n \<le> unat (b - a) \<and> k \<le> unat (a - b)"

definition load32 :: "mem \<Rightarrow> addr \<Rightarrow> uint32" where
  "load32 m a = of_nat (le_val (mread m a 4))"

definition store32 :: "addr \<Rightarrow> uint32 \<Rightarrow> mem \<Rightarrow> mem" where
  "store32 a w = mwrite a (le_bytes 4 (unat w))"

definition load64 :: "mem \<Rightarrow> addr \<Rightarrow> uint64" where
  "load64 m a = of_nat (le_val (mread m a 8))"

definition store64 :: "addr \<Rightarrow> uint64 \<Rightarrow> mem \<Rightarrow> mem" where
  "store64 a w = mwrite a (le_bytes 8 (unat w))"

lemma length_mread [simp]: "length (mread m a n) = n"
  by (simp add: mread_def)

lemma nth_mread [simp]: "i < n \<Longrightarrow> mread m a n ! i = m (a + of_nat i)"
  by (simp add: mread_def)

lemma mread_mwrite_same [mem_simps]:
  assumes "length bs \<le> 2 ^ 64"
  shows "mread (mwrite a bs m) a (length bs) = bs"
  using assms by (intro nth_equalityI) (auto simp: mwrite_def unat_of_nat)

lemma apart_sym: "apart a n b k = apart b k a n"
  by (auto simp: apart_def)

lemma apart_outside:
  assumes "apart a n b k" and "i < k"
  shows "\<not> unat (b + of_nat i - a) < n"
proof -
  have "i < 2 ^ 64"
    using assms unat_addr_less [of "a - b"] by (simp add: apart_def)
  then have i: "unat (of_nat i :: addr) = i" by (simp add: unat_of_nat)
  have "unat (b - a) + unat (a - b) = 2 ^ 64 \<or> a = b"
    using unat_addr_less [of a] unat_addr_less [of b]
    by (auto simp: unat_sub_if_size word_size word_unat_eq_iff)
  then have "unat (b - a) + i < 2 ^ 64"
    using assms by (auto simp: apart_def)
  then have sum: "unat (b - a + of_nat i) = unat (b - a) + i"
    using i by (subst unat_add_lem [THEN iffD1]) auto
  have comm: "b + of_nat i - a = b - a + of_nat i" by simp
  show ?thesis
    unfolding comm sum using assms by (simp add: apart_def)
qed

lemma mread_mwrite_apart [mem_simps]:
  assumes "apart a (length bs) b k"
  shows "mread (mwrite a bs m) b k = mread m b k"
  using apart_outside [OF assms] by (intro nth_equalityI) (auto simp: mwrite_def)

lemma mread_add: "mread m a (n + k) = mread m a n @ mread m (a + of_nat n) k"
  by (intro nth_equalityI) (auto simp: nth_append algebra_simps)

lemma mread_mwrite_prefix:
  assumes "length bs \<le> n" and "n < 2 ^ 64"
  shows "\<exists>rest. mread (mwrite a bs m) a n = bs @ rest"
proof -
  have "mread (mwrite a bs m) a n
      = bs @ mread (mwrite a bs m) (a + of_nat (length bs)) (n - length bs)"
    using assms mread_add [of "mwrite a bs m" a "length bs" "n - length bs"]
    by (simp add: mread_mwrite_same)
  then show ?thesis by blast
qed

lemma mwrite_outside: "\<not> unat (x - a) < length bs \<Longrightarrow> mwrite a bs m x = m x"
  by (simp add: mwrite_def)

lemma load32_store32_same [mem_simps]: "load32 (store32 a w m) a = w"
proof -
  have "mread (store32 a w m) a 4 = le_bytes 4 (unat w)"
    using mread_mwrite_same [of "le_bytes 4 (unat w)" a m]
    by (simp add: store32_def)
  then show ?thesis
    using unat_uint32_less [of w]
    by (simp add: load32_def le_val_le_bytes)
qed

lemma load64_store64_same [mem_simps]: "load64 (store64 a w m) a = w"
proof -
  have "mread (store64 a w m) a 8 = le_bytes 8 (unat w)"
    using mread_mwrite_same [of "le_bytes 8 (unat w)" a m]
    by (simp add: store64_def)
  then show ?thesis
    using unat_addr_less [of w]
    by (simp add: load64_def le_val_le_bytes)
qed

lemma load64_store64_apart [mem_simps]:
  "apart a 8 b 8 \<Longrightarrow> load64 (store64 a w m) b = load64 m b"
  by (simp add: load64_def store64_def mread_mwrite_apart)

lemma unat_diff_Suc:
  fixes a d :: addr
  assumes "Suc n < 2 ^ 64"
  shows "unat (a - d) < Suc n \<longleftrightarrow> a = d \<or> unat (a - (d + 1)) < n"
proof (cases "a = d")
  case False
  have eq: "a - (d + 1) = (a - d) - 1" by simp
  have "unat (a - (d + 1)) = unat (a - d) - 1" "unat (a - d) \<noteq> 0"
    using False unfolding eq by (simp_all only: unat_minus_one unat_eq_zero right_minus_eq not_False_eq_True)
  with False show ?thesis by auto
qed simp

lemma unat_diff_same: "unat ((d::addr) - (d + 1)) = 2 ^ 64 - 1"
proof -
  have eq: "d - (d + 1) = 18446744073709551615" by simp
  show ?thesis unfolding eq by simp
qed

lemma mread_Suc: "mread m p (Suc n) = m p # mread m (p + 1) n"
  by (simp add: mread_def upt_conv_Cons map_Suc_upt [symmetric] add.assoc del: upt_Suc)

lemma mwrite_Cons:
  assumes "Suc (length bs) < 2 ^ 64"
  shows "mwrite (d + 1) bs (m(d := c)) = mwrite d (c # bs) m"
proof (rule ext)
  fix a
  show "mwrite (d + 1) bs (m(d := c)) a = mwrite d (c # bs) m a"
  proof (cases "a = d")
    case True
    then show ?thesis
      using assms unfolding mwrite_def by (simp only: unat_diff_same) simp
  next
    case False
    have eq: "a - (d + 1) = (a - d) - 1" by simp
    have "unat (a - (d + 1)) = unat (a - d) - 1" "unat (a - d) \<noteq> 0"
      using False unfolding eq by (simp_all only: unat_minus_one unat_eq_zero right_minus_eq not_False_eq_True)
    with False show ?thesis
      unfolding mwrite_def by (auto simp: nth_Cons')
  qed
qed

lemma mwrite_single: "mwrite d [c] m = m(d := c)"
  by (rule ext) (auto simp: mwrite_def unat_eq_zero)

lemma apart_Suc: "apart s (Suc n) t (Suc k) \<Longrightarrow> apart (s + 1) n (t + 1) k"
  by (auto simp: apart_def)

lemma mread_upd_apart:
  assumes "apart s (Suc n) t (Suc n)"
  shows "mread (m(s := c)) (t + 1) n = mread m (t + 1) n"
proof -
  have "mread (mwrite s [c] m) t (Suc n) = mread m t (Suc n)"
    using assms by (intro mread_mwrite_apart) (auto simp: apart_def)
  then show ?thesis
    by (simp add: mwrite_single mread_Suc)
qed

section \<open>Buffers\<close>

text \<open>
  A disk block or a user buffer is a byte list. \<open>slice\<close> reads \<open>n\<close> bytes at an offset
  and \<open>put_at\<close> copies bytes into it at an offset, as a \<open>memmove\<close> into the
  buffer does when the bytes fit.
\<close>

definition slice :: "nat \<Rightarrow> nat \<Rightarrow> 'a list \<Rightarrow> 'a list" where
  "slice off n xs = take n (drop off xs)"

definition put_at :: "nat \<Rightarrow> 'a list \<Rightarrow> 'a list \<Rightarrow> 'a list" where
  "put_at off ys xs = take off xs @ ys @ drop (off + length ys) xs"

lemma length_slice [simp]: "off + n \<le> length xs \<Longrightarrow> length (slice off n xs) = n"
  by (simp add: slice_def)

lemma length_put_at [simp]:
  "off + length ys \<le> length xs \<Longrightarrow> length (put_at off ys xs) = length xs"
  by (simp add: put_at_def)

lemma nth_slice [simp]: "off + n \<le> length xs \<Longrightarrow> i < n \<Longrightarrow> slice off n xs ! i = xs ! (off + i)"
  by (simp add: slice_def)

lemma nth_put_at:
  "off + length ys \<le> length xs \<Longrightarrow> i < length xs \<Longrightarrow>
   put_at off ys xs ! i = (if off \<le> i \<and> i < off + length ys then ys ! (i - off) else xs ! i)"
  by (auto simp: put_at_def nth_append)

lemma slice_put_at_same [buf_simps]:
  "off + length ys \<le> length xs \<Longrightarrow> n = length ys \<Longrightarrow> slice off n (put_at off ys xs) = ys"
  by (simp add: slice_def put_at_def)

lemma slice_put_at_apart [buf_simps]:
  assumes "off + length ys \<le> length xs" and "off' + n \<le> length xs"
    and "off + length ys \<le> off' \<or> off' + n \<le> off"
  shows "slice off' n (put_at off ys xs) = slice off' n xs"
  using assms by (intro nth_equalityI) (auto simp: nth_put_at)

lemma put_at_slice_same [buf_simps]:
  "off + n \<le> length xs \<Longrightarrow> put_at off (slice off n xs) xs = xs"
  by (intro nth_equalityI) (auto simp: nth_put_at)

section \<open>The kernel monad\<close>

text \<open>
  A kernel operation runs to completion (\<open>Done\<close>, with its value and the new state),
  panics with the message of the source, or switches to the scheduler (\<open>Switched\<close>,
  with the state in which the scheduler takes over), because it sleeps, yields or exits.
  Channels are the addresses the source sleeps on.
\<close>

datatype chan =
    ChLog | ChBuf nat | ChBufLock nat | ChInodeLock nat
  | ChPipeRead addr | ChPipeWrite addr | ChTicks | ChInput | ChProc nat

datatype ('s, 'a) outcome = Done 'a 's | Panicked string | Switched 's

type_synonym ('s, 'a) kop = "'s \<Rightarrow> ('s, 'a) outcome"

definition ret :: "'a \<Rightarrow> ('s, 'a) kop" where
  "ret x s = Done x s"

definition bnd :: "('s, 'a) kop \<Rightarrow> ('a \<Rightarrow> ('s, 'b) kop) \<Rightarrow> ('s, 'b) kop" where
  "bnd m k s = (case m s of Done x s' \<Rightarrow> k x s' | Panicked e \<Rightarrow> Panicked e | Switched s' \<Rightarrow> Switched s')"

definition thn :: "('s, 'a) kop \<Rightarrow> ('s, 'b) kop \<Rightarrow> ('s, 'b) kop" where
  "thn m k = bnd m (\<lambda>_. k)"

definition panic :: "string \<Rightarrow> ('s, 'a) kop" where
  "panic msg s = Panicked msg"

definition gets :: "('s \<Rightarrow> 'a) \<Rightarrow> ('s, 'a) kop" where
  "gets f s = Done (f s) s"

definition modify :: "('s \<Rightarrow> 's) \<Rightarrow> ('s, unit) kop" where
  "modify f s = Done () (f s)"

definition panic_if :: "bool \<Rightarrow> string \<Rightarrow> ('s, unit) kop" where
  "panic_if c msg = (if c then panic msg else ret ())"

definition only_if :: "bool \<Rightarrow> ('s, unit) kop \<Rightarrow> ('s, unit) kop" where
  "only_if c m = (if c then m else ret ())"

text \<open>Statements in sequence, and a loop over the elements of a list.\<close>

fun steps :: "('s, unit) kop list \<Rightarrow> ('s, unit) kop" where
  "steps [] = ret ()"
| "steps (m # ms) = thn m (steps ms)"

fun for_each :: "'x list \<Rightarrow> ('x \<Rightarrow> ('s, unit) kop) \<Rightarrow> ('s, unit) kop" where
  "for_each [] f = ret ()"
| "for_each (x # xs) f = thn (f x) (for_each xs f)"

lemma ret_run [kop_simps]: "ret x s = Done x s"
  by (simp add: ret_def)

lemma panic_run [kop_simps]: "panic msg s = Panicked msg"
  by (simp add: panic_def)

lemma gets_run [kop_simps]: "gets f s = Done (f s) s"
  by (simp add: gets_def)

lemma modify_run [kop_simps]: "modify f s = Done () (f s)"
  by (simp add: modify_def)

lemma panic_if_run [kop_simps]: "panic_if c msg s = (if c then Panicked msg else Done () s)"
  by (simp add: panic_if_def panic_def ret_def)

lemma only_if_run [kop_simps]: "only_if c m s = (if c then m s else Done () s)"
  by (simp add: only_if_def ret_def)

lemma steps_run [kop_simps]:
  "steps [] s = Done () s"
  "steps (m # ms) s = thn m (steps ms) s"
  by (simp_all add: ret_def)

lemma bnd_ret [kop_simps]: "bnd (ret x) k s = k x s"
  by (simp add: thn_def bnd_def ret_def gets_def modify_def panic_def panic_if_def only_if_def)

lemma bnd_value [kop_simps]: "bnd (Done x) k s = k x s"
  by (simp add: thn_def bnd_def ret_def gets_def modify_def panic_def panic_if_def only_if_def)

lemma bnd_gets [kop_simps]: "bnd (gets f) k s = k (f s) s"
  by (simp add: thn_def bnd_def ret_def gets_def modify_def panic_def panic_if_def only_if_def)

lemma bnd_modify [kop_simps]: "bnd (modify g) k s = k () (g s)"
  by (simp add: thn_def bnd_def ret_def gets_def modify_def panic_def panic_if_def only_if_def)

lemma bnd_panic [kop_simps]: "bnd (panic msg) k s = Panicked msg"
  by (simp add: thn_def bnd_def ret_def gets_def modify_def panic_def panic_if_def only_if_def)

lemma bnd_panic_if [kop_simps]: "bnd (panic_if c msg) k s = (if c then Panicked msg else k () s)"
  by (simp add: thn_def bnd_def ret_def gets_def modify_def panic_def panic_if_def only_if_def)

lemma thn_ret [kop_simps]: "thn (ret x) m s = m s"
  by (simp add: thn_def bnd_def ret_def gets_def modify_def panic_def panic_if_def only_if_def)

lemma thn_value [kop_simps]: "thn (Done x) m s = m s"
  by (simp add: thn_def bnd_def ret_def gets_def modify_def panic_def panic_if_def only_if_def)

lemma thn_gets [kop_simps]: "thn (gets f) m s = m s"
  by (simp add: thn_def bnd_def ret_def gets_def modify_def panic_def panic_if_def only_if_def)

lemma thn_modify [kop_simps]: "thn (modify g) m s = m (g s)"
  by (simp add: thn_def bnd_def ret_def gets_def modify_def panic_def panic_if_def only_if_def)

lemma thn_panic [kop_simps]: "thn (panic msg) m s = Panicked msg"
  by (simp add: thn_def bnd_def ret_def gets_def modify_def panic_def panic_if_def only_if_def)

lemma thn_panic_if [kop_simps]: "thn (panic_if c msg) m s = (if c then Panicked msg else m s)"
  by (simp add: thn_def bnd_def ret_def gets_def modify_def panic_def panic_if_def only_if_def)

lemma thn_only_if [kop_simps]: "thn (only_if c m) k s = (if c then thn m k s else k s)"
  by (simp add: thn_def bnd_def ret_def gets_def modify_def panic_def panic_if_def only_if_def)

lemma thn_steps [kop_simps]:
  "thn (steps []) k s = k s"
  "thn (steps (m # ms)) k s = thn m (thn (steps ms) k) s"
  by (simp_all add: thn_def bnd_def ret_def split: outcome.splits)

lemma thn_assoc [kop_simps]: "thn (thn m k) h s = thn m (thn k h) s"
  by (simp add: thn_def bnd_def split: outcome.splits)

lemma thn_bnd_assoc [kop_simps]: "thn (bnd m k) h s = bnd m (\<lambda>x. thn (k x) h) s"
  by (simp add: thn_def bnd_def split: outcome.splits)

lemma bnd_thn_assoc [kop_simps]: "bnd (thn m k) h s = thn m (bnd k h) s"
  by (simp add: thn_def bnd_def split: outcome.splits)

lemma bnd_bnd_assoc [kop_simps]: "bnd (bnd m k) h s = bnd m (\<lambda>x. bnd (k x) h) s"
  by (simp add: bnd_def split: outcome.splits)

lemma bnd_if [kop_simps]: "bnd (if c then m else m') k s = (if c then bnd m k s else bnd m' k s)"
  by simp

lemma thn_if [kop_simps]: "thn (if c then m else m') k s = (if c then thn m k s else thn m' k s)"
  by simp

lemma bnd_pure [kop_simps]: "bnd (\<lambda>s. Done (g s) (f s)) k s = k (g s) (f s)"
  by (simp add: bnd_def)

lemma thn_pure [kop_simps]: "thn (\<lambda>s. Done (g s) (f s)) k s = k (f s)"
  by (simp add: thn_def bnd_def)

lemma bnd_Done_iff:
  "bnd m k s = Done y t \<longleftrightarrow> (\<exists>x s'. m s = Done x s' \<and> k x s' = Done y t)"
  by (auto simp: bnd_def split: outcome.splits)

lemma thn_Done_iff:
  "thn m k s = Done y t \<longleftrightarrow> (\<exists>x s'. m s = Done x s' \<and> k s' = Done y t)"
  by (simp add: thn_def bnd_Done_iff)

lemma bnd_Done: "m s = Done x s' \<Longrightarrow> bnd m k s = k x s'"
  by (simp add: bnd_def)

lemma thn_Done: "m s = Done x s' \<Longrightarrow> thn m k s = k s'"
  by (simp add: thn_def bnd_def)

lemma bnd_stop:
  "m s = Panicked e \<Longrightarrow> bnd m k s = Panicked e"
  "m s = Switched s' \<Longrightarrow> bnd m k s = Switched s'"
  by (simp_all add: bnd_def)

lemma thn_stop:
  "m s = Panicked e \<Longrightarrow> thn m k s = Panicked e"
  "m s = Switched s' \<Longrightarrow> thn m k s = Switched s'"
  by (simp_all add: thn_def bnd_def)

text \<open>Congruences with which a loop may recurse after an operation that has returned.\<close>

lemma bnd_cong [fundef_cong]:
  "m s = m' s' \<Longrightarrow> (\<And>x t. m' s' = Done x t \<Longrightarrow> k x t = k' x t) \<Longrightarrow> bnd m k s = bnd m' k' s'"
  by (simp add: bnd_def split: outcome.splits)

lemma thn_cong [fundef_cong]:
  "m s = m' s' \<Longrightarrow> (\<And>x t. m' s' = Done x t \<Longrightarrow> k t = k' t) \<Longrightarrow> thn m k s = thn m' k' s'"
  by (simp add: thn_def bnd_def split: outcome.splits)

lemma if_run [kop_simps]: "(if c then m else m') s = (if c then m s else m' s)"
  by simp

lemma thn_bnd: "thn m k s = bnd m (\<lambda>_. k) s"
  by (simp add: thn_def)

lemma for_each_append:
  "for_each (xs @ ys) f = thn (for_each xs f) (for_each ys f)"
proof (induction xs)
  case Nil
  show ?case by (rule ext) (simp add: kop_simps)
next
  case (Cons x xs)
  show ?case by (rule ext) (simp add: Cons.IH thn_assoc)
qed

text \<open>
  \<open>hoare P m Q\<close>: from a state satisfying \<open>P\<close>, wherever the operation returns, its value
  and the new state satisfy \<open>Q\<close>; \<open>hoare_total\<close> states in addition that it does return.
  \<open>keeps I m\<close> is the preservation of an invariant.
\<close>

definition hoare :: "('s \<Rightarrow> bool) \<Rightarrow> ('s, 'a) kop \<Rightarrow> ('a \<Rightarrow> 's \<Rightarrow> bool) \<Rightarrow> bool" where
  "hoare P m Q \<longleftrightarrow> (\<forall>s x s'. P s \<longrightarrow> m s = Done x s' \<longrightarrow> Q x s')"

definition hoare_total :: "('s \<Rightarrow> bool) \<Rightarrow> ('s, 'a) kop \<Rightarrow> ('a \<Rightarrow> 's \<Rightarrow> bool) \<Rightarrow> bool" where
  "hoare_total P m Q \<longleftrightarrow> (\<forall>s. P s \<longrightarrow> (\<exists>x s'. m s = Done x s' \<and> Q x s'))"

abbreviation keeps :: "('s \<Rightarrow> bool) \<Rightarrow> ('s, 'a) kop \<Rightarrow> bool" where
  "keeps I m \<equiv> hoare I m (\<lambda>_. I)"

lemma hoareI: "(\<And>s x s'. P s \<Longrightarrow> m s = Done x s' \<Longrightarrow> Q x s') \<Longrightarrow> hoare P m Q"
  by (auto simp: hoare_def)

lemma hoareD: "hoare P m Q \<Longrightarrow> P s \<Longrightarrow> m s = Done x s' \<Longrightarrow> Q x s'"
  by (auto simp: hoare_def)

lemma hoare_totalD: "hoare_total P m Q \<Longrightarrow> P s \<Longrightarrow> \<exists>x s'. m s = Done x s' \<and> Q x s'"
  by (auto simp: hoare_total_def)

lemma hoare_totalI: "(\<And>s. P s \<Longrightarrow> \<exists>x s'. m s = Done x s' \<and> Q x s') \<Longrightarrow> hoare_total P m Q"
  by (auto simp: hoare_total_def)

lemma hoare_bnd: "hoare P m R \<Longrightarrow> (\<And>x. hoare (R x) (k x) Q) \<Longrightarrow> hoare P (bnd m k) Q"
  by (fastforce simp: hoare_def bnd_Done_iff)

lemma hoare_thn: "hoare P m (\<lambda>_. R) \<Longrightarrow> hoare R k Q \<Longrightarrow> hoare P (thn m k) Q"
  by (fastforce simp: hoare_def thn_Done_iff)

lemma hoare_ret: "(\<And>s. P s \<Longrightarrow> Q x s) \<Longrightarrow> hoare P (ret x) Q"
  by (auto simp: hoare_def ret_def)

lemma hoare_gets: "(\<And>s. P s \<Longrightarrow> Q (f s) s) \<Longrightarrow> hoare P (gets f) Q"
  by (auto simp: hoare_def gets_def)

lemma hoare_modify: "(\<And>s. P s \<Longrightarrow> Q () (f s)) \<Longrightarrow> hoare P (modify f) Q"
  by (auto simp: hoare_def modify_def)

lemma hoare_panic [simp]: "hoare P (panic msg) Q"
  by (auto simp: hoare_def panic_def)

lemma hoare_panic_if: "(\<And>s. P s \<Longrightarrow> \<not> c \<Longrightarrow> Q () s) \<Longrightarrow> hoare P (panic_if c msg) Q"
  by (auto simp: hoare_def kop_simps split: if_splits)

lemma hoare_if: "(c \<Longrightarrow> hoare P m Q) \<Longrightarrow> (\<not> c \<Longrightarrow> hoare P m' Q) \<Longrightarrow> hoare P (if c then m else m') Q"
  by simp

lemma hoare_total_bnd:
  "hoare_total P m R \<Longrightarrow> (\<And>x. hoare_total (R x) (k x) Q) \<Longrightarrow> hoare_total P (bnd m k) Q"
  by (fastforce simp: hoare_total_def bnd_Done_iff)

lemma hoare_total_imp: "hoare_total P m Q \<Longrightarrow> hoare P m Q"
  by (fastforce simp: hoare_total_def hoare_def)

lemma keeps_for_each: "(\<And>x. x \<in> set xs \<Longrightarrow> keeps I (f x)) \<Longrightarrow> keeps I (for_each xs f)"
  by (induction xs) (auto intro: hoare_ret hoare_thn)

end
