(* ===== verification/Ptable.thy ===== *)
theory Ptable
  imports Xv6_Prelude
begin

text \<open>
  The bottom of the kernel state: the locks the running code holds, and the process table
  (struct proc of src/proc.h) with the part of src/proc.c every other component calls:
  \<open>sleep\<close>, \<open>wakeup\<close>, \<open>sched\<close>, \<open>yield\<close> and \<open>kill\<close>.

  The kernel's locks are the set \<open>held\<close> of those the running code has acquired:
  \<open>acquire\<close> and \<open>release\<close> make the two checks of src/spinlock.c, and the depth of
  \<open>pushcli\<close> nesting that \<open>sched\<close> checks is the number of locks held. (The spin on a lock
  another CPU holds does not change the state; theory \<open>Spinlock\<close> models it.)
\<close>

section \<open>Locks held\<close>

datatype lockid =
    LkPtable | LkKmem | LkBcache | LkIde | LkLog | LkIcache | LkFtable | LkTicks | LkCons | LkInput
  | LkPipe addr | LkBuf nat | LkInode nat

record lk_st =
  held :: "lockid set"

definition acquire :: "lockid \<Rightarrow> ('z lk_st_scheme, unit) kop" where
  "acquire l = bnd (gets held) (\<lambda>h.
     if l \<in> h then panic ''acquire'' else modify (held_update (insert l)))"

definition release :: "lockid \<Rightarrow> ('z lk_st_scheme, unit) kop" where
  "release l = bnd (gets held) (\<lambda>h.
     if l \<notin> h then panic ''release'' else modify (held_update (\<lambda>h. h - {l})))"

lemma acquire_run [kop_simps]:
  "l \<notin> held s \<Longrightarrow> acquire l s = Done () (s\<lparr>held := insert l (held s)\<rparr>)"
  "l \<in> held s \<Longrightarrow> acquire l s = Panicked ''acquire''"
  by (simp_all add: acquire_def kop_simps)

lemma release_run [kop_simps]:
  "l \<in> held s \<Longrightarrow> release l s = Done () (s\<lparr>held := held s - {l}\<rparr>)"
  "l \<notin> held s \<Longrightarrow> release l s = Panicked ''release''"
  by (simp_all add: release_def kop_simps)

lemma acquire_then [kop_simps]:
  "l \<notin> held s \<Longrightarrow> thn (acquire l) m s = m (s\<lparr>held := insert l (held s)\<rparr>)"
  "l \<in> held s \<Longrightarrow> thn (acquire l) m s = Panicked ''acquire''"
  by (simp_all add: thn_Done thn_stop acquire_run)

lemma release_then [kop_simps]:
  "l \<in> held s \<Longrightarrow> thn (release l) m s = m (s\<lparr>held := held s - {l}\<rparr>)"
  "l \<notin> held s \<Longrightarrow> thn (release l) m s = Panicked ''release''"
  by (simp_all add: thn_Done thn_stop release_run)

lemma held_restore [simp]: "l \<notin> held s \<Longrightarrow> s\<lparr>held := held s - {l}\<rparr> = s"
  by simp

section \<open>The process table\<close>

datatype procstate = UNUSED | EMBRYO | SLEEPING | RUNNABLE | RUNNING | ZOMBIE

record proc =
  p_sz :: uint64
  p_pgdir :: addr
  p_kstack :: addr
  p_state :: procstate
  p_pid :: int
  p_parent :: "nat option"
  p_tf :: addr
  p_context :: addr
  p_chan :: "chan option"
  p_killed :: bool
  p_ofile :: "nat option list"
  p_cwd :: "nat option"
  p_name :: "byte list"

record pt_st = lk_st +
  procs :: "proc list"
  curp :: "nat option"
  nextpid :: int
  initproc :: nat

text \<open>The static tables at boot: zeroed storage, and \<open>nextpid\<close> initialised to 1.\<close>

definition proc0 :: proc where
  "proc0 = \<lparr>p_sz = 0, p_pgdir = 0, p_kstack = 0, p_state = UNUSED, p_pid = 0, p_parent = None,
     p_tf = 0, p_context = 0, p_chan = None, p_killed = False, p_ofile = replicate NOFILE None,
     p_cwd = None, p_name = replicate 16 0\<rparr>"

definition pt0 :: pt_st where
  "pt0 = \<lparr>held = {}, procs = replicate NPROC proc0, curp = None, nextpid = 1, initproc = 0\<rparr>"

definition upd_proc :: "nat \<Rightarrow> (proc \<Rightarrow> proc) \<Rightarrow> ('z pt_st_scheme, unit) kop" where
  "upd_proc i f = modify (procs_update (\<lambda>ps. ps[i := f (ps ! i)]))"

text \<open>A dereference of the null \<open>proc\<close> faults in the kernel, which \<open>trap\<close> turns into a panic.\<close>

definition myproc :: "('z pt_st_scheme, nat) kop" where
  "myproc = bnd (gets curp) (\<lambda>c. case c of None \<Rightarrow> panic ''trap'' | Some p \<Rightarrow> ret p)"

definition killed :: "('z pt_st_scheme, bool) kop" where
  "killed = bnd myproc (\<lambda>p. gets (\<lambda>s. p_killed (procs s ! p)))"

definition wake_one :: "chan \<Rightarrow> proc \<Rightarrow> proc" where
  "wake_one c p = (if p_state p = SLEEPING \<and> p_chan p = Some c then p\<lparr>p_state := RUNNABLE\<rparr> else p)"

definition wakeup1 :: "chan \<Rightarrow> ('z pt_st_scheme, unit) kop" where
  "wakeup1 c = modify (procs_update (map (wake_one c)))"

definition wakeup :: "chan \<Rightarrow> ('z pt_st_scheme, unit) kop" where
  "wakeup c = steps [acquire LkPtable, wakeup1 c, release LkPtable]"

text \<open>
  \<open>sched\<close> up to its \<open>swtch\<close>: the four checks. (Interrupts are off whenever a lock is held,
  so the last check, \<open>sched interruptible\<close>, cannot fail after the second.)
\<close>

definition sched_checks :: "('z pt_st_scheme, unit) kop" where
  "sched_checks = bnd (gets held) (\<lambda>h. bnd myproc (\<lambda>p. bnd (gets procs) (\<lambda>ps.
     steps [panic_if (LkPtable \<notin> h) ''sched ptable.lock'',
            panic_if (card h \<noteq> 1) ''sched locks'',
            panic_if (p_state (ps ! p) = RUNNING) ''sched running''])))"

definition swtch :: "('z pt_st_scheme, unit) kop" where
  "swtch s = Switched s"

definition sched :: "('z pt_st_scheme, unit) kop" where
  "sched = thn sched_checks swtch"

text \<open>
  \<open>sleep\<close>: the code up to \<open>sched\<close>, and the code after it, which runs when the scheduler
  comes back to the process with \<open>ptable.lock\<close> held.
\<close>

definition sleep_enter :: "chan \<Rightarrow> lockid \<Rightarrow> ('z pt_st_scheme, unit) kop" where
  "sleep_enter c lk = bnd (gets curp) (\<lambda>cp. case cp of
     None \<Rightarrow> panic ''sleep''
   | Some p \<Rightarrow> steps
      [only_if (lk \<noteq> LkPtable) (steps [acquire LkPtable, release lk]),
       upd_proc p (\<lambda>q. q\<lparr>p_chan := Some c, p_state := SLEEPING\<rparr>)])"

definition sleep :: "chan \<Rightarrow> lockid \<Rightarrow> ('z pt_st_scheme, unit) kop" where
  "sleep c lk = thn (sleep_enter c lk) sched"

definition sleep_exit :: "lockid \<Rightarrow> ('z pt_st_scheme, unit) kop" where
  "sleep_exit lk = bnd myproc (\<lambda>p. steps
     [upd_proc p (\<lambda>q. q\<lparr>p_chan := None\<rparr>),
      only_if (lk \<noteq> LkPtable) (steps [release LkPtable, acquire lk])])"

text \<open>The body of the scheduler's loop for the process it chose, up to its \<open>swtch\<close>.\<close>

definition dispatch :: "nat \<Rightarrow> ('z pt_st_scheme, unit) kop" where
  "dispatch p = thn (modify (curp_update (\<lambda>_. Some p))) (upd_proc p (\<lambda>q. q\<lparr>p_state := RUNNING\<rparr>))"

text \<open>
  A \<open>sleep\<close> that an interrupt ends: the scheduler takes over, releases \<open>ptable.lock\<close> and
  idles, the handler \<open>intr\<close> runs, and if it has woken the process the scheduler dispatches
  it again; otherwise the process stays asleep.
\<close>

definition sleep_for :: "chan \<Rightarrow> lockid \<Rightarrow> ('z pt_st_scheme, unit) kop \<Rightarrow> ('z pt_st_scheme, unit) kop" where
  "sleep_for c lk intr = bnd (gets curp) (\<lambda>cp. thn (sleep_enter c lk) (thn sched_checks
     (thn (modify (curp_update (\<lambda>_. None))) (thn (release LkPtable) (thn intr (thn (acquire LkPtable)
     (bnd (gets procs) (\<lambda>ps. if p_state (ps ! the cp) = RUNNABLE
        then thn (dispatch (the cp)) (sleep_exit lk)
        else swtch))))))))"

definition yield :: "('z pt_st_scheme, unit) kop" where
  "yield = bnd myproc (\<lambda>p. steps
     [acquire LkPtable, upd_proc p (\<lambda>q. q\<lparr>p_state := RUNNABLE\<rparr>), sched, release LkPtable])"

text \<open>\<open>kill\<close> changes the first process of the table with that pid.\<close>

fun find_index :: "('a \<Rightarrow> bool) \<Rightarrow> 'a list \<Rightarrow> nat option" where
  "find_index P [] = None"
| "find_index P (x # xs) = (if P x then Some 0 else map_option Suc (find_index P xs))"

definition kill :: "int \<Rightarrow> ('z pt_st_scheme, int) kop" where
  "kill pid = thn (acquire LkPtable) (bnd (gets procs) (\<lambda>ps.
     case find_index (\<lambda>p. p_pid p = pid) ps of
       Some i \<Rightarrow> thn (upd_proc i (\<lambda>q. q\<lparr>p_killed := True,
                    p_state := if p_state q = SLEEPING then RUNNABLE else p_state q\<rparr>))
                 (thn (release LkPtable) (ret 0))
     | None \<Rightarrow> thn (release LkPtable) (ret (- 1))))"

section \<open>How these operations run\<close>

lemma upd_proc_run [kop_simps]: "upd_proc i f s = Done () (s\<lparr>procs := (procs s)[i := f (procs s ! i)]\<rparr>)"
  by (simp add: upd_proc_def kop_simps)

lemma thn_upd_proc [kop_simps]:
  "thn (upd_proc i f) m s = m (s\<lparr>procs := (procs s)[i := f (procs s ! i)]\<rparr>)"
  by (simp add: thn_Done [OF upd_proc_run])

lemma myproc_run [kop_simps]:
  "curp s = Some p \<Longrightarrow> myproc s = Done p s"
  "curp s = None \<Longrightarrow> myproc s = Panicked ''trap''"
  by (simp_all add: myproc_def kop_simps)

lemma bnd_myproc [kop_simps]:
  "curp s = Some p \<Longrightarrow> bnd myproc k s = k p s"
  "curp s = None \<Longrightarrow> bnd myproc k s = Panicked ''trap''"
  by (simp_all add: bnd_def myproc_run)

lemma bnd_killed [kop_simps]:
  "curp s = Some p \<Longrightarrow> bnd killed k s = k (p_killed (procs s ! p)) s"
  by (simp add: killed_def kop_simps)

lemma wake_one_simps [simp]:
  "p_pid (wake_one c p) = p_pid p" "p_chan (wake_one c p) = p_chan p" "p_killed (wake_one c p) = p_killed p"
  "p_parent (wake_one c p) = p_parent p" "p_pgdir (wake_one c p) = p_pgdir p" "p_sz (wake_one c p) = p_sz p"
  "p_kstack (wake_one c p) = p_kstack p" "p_ofile (wake_one c p) = p_ofile p" "p_cwd (wake_one c p) = p_cwd p"
  by (simp_all add: wake_one_def)

lemma wake_one_awake [simp]: "p_state p \<noteq> SLEEPING \<Longrightarrow> wake_one c p = p"
  by (simp add: wake_one_def)

lemma wakeup_run [kop_simps]:
  "LkPtable \<notin> held s \<Longrightarrow> wakeup c s = Done () (s\<lparr>procs := map (wake_one c) (procs s)\<rparr>)"
  by (simp add: wakeup_def wakeup1_def kop_simps)

lemma thn_wakeup [kop_simps]:
  "LkPtable \<notin> held s \<Longrightarrow> thn (wakeup c) m s = m (s\<lparr>procs := map (wake_one c) (procs s)\<rparr>)"
  by (simp add: thn_Done [OF wakeup_run])

lemma sched_checks_pass:
  assumes "curp s = Some p" and "held s = {LkPtable}" and "p_state (procs s ! p) \<noteq> RUNNING"
  shows "sched_checks s = Done () s"
  using assms by (simp add: sched_checks_def kop_simps)

lemma sleep_enter_run:
  assumes "curp s = Some p" and "lk \<in> held s" and "lk \<noteq> LkPtable" and "LkPtable \<notin> held s"
  shows "sleep_enter c lk s = Done () (s\<lparr>held := insert LkPtable (held s) - {lk},
    procs := (procs s)[p := (procs s ! p)\<lparr>p_chan := Some c, p_state := SLEEPING\<rparr>]\<rparr>)"
  using assms by (simp add: sleep_enter_def kop_simps)

lemma sleep_run:
  assumes "curp s = Some p" "p < length (procs s)" "held s = {lk}" "lk \<noteq> LkPtable"
  shows "sleep c lk s = Switched (s\<lparr>held := {LkPtable},
    procs := (procs s)[p := (procs s ! p)\<lparr>p_chan := Some c, p_state := SLEEPING\<rparr>]\<rparr>)"
proof -
  have "insert LkPtable {lk} - {lk} = {LkPtable}" using assms by auto
  with assms show ?thesis
    by (simp add: sleep_def thn_Done [OF sleep_enter_run] sched_def thn_Done [OF sched_checks_pass]
        swtch_def)
qed

text \<open>The state in which the scheduler finds process \<open>p\<close> after it went to sleep on \<open>c\<close>.\<close>

definition asleep :: "nat \<Rightarrow> chan \<Rightarrow> 'z pt_st_scheme \<Rightarrow> 'z pt_st_scheme" where
  "asleep p c s = s\<lparr>held := {LkPtable},
     procs := (procs s)[p := (procs s ! p)\<lparr>p_chan := Some c, p_state := SLEEPING\<rparr>]\<rparr>"

lemma sleep_asleep:
  "curp s = Some p \<Longrightarrow> p < length (procs s) \<Longrightarrow> held s = {lk} \<Longrightarrow> lk \<noteq> LkPtable \<Longrightarrow>
     sleep c lk s = Switched (asleep p c s)"
  by (simp add: sleep_run asleep_def)

text \<open>A list of processes after wakeups.\<close>

definition woken :: "proc list \<Rightarrow> proc list \<Rightarrow> bool" where
  "woken ps qs \<longleftrightarrow> list_all2 (\<lambda>p q. q = p \<or> p_state p = SLEEPING \<and> q = p\<lparr>p_state := RUNNABLE\<rparr>) ps qs"

lemma woken_refl [simp]: "woken ps ps"
  by (simp add: woken_def list_all2_refl)

lemma woken_trans: "woken ps qs \<Longrightarrow> woken qs rs \<Longrightarrow> woken ps rs"
  unfolding woken_def by (rule list_all2_trans) auto

lemma woken_map [simp]: "woken ps (map (wake_one c) ps)"
  by (auto simp: woken_def list_all2_conv_all_nth wake_one_def)

lemma woken_nth: "woken ps qs \<Longrightarrow> i < length ps \<Longrightarrow> p_state (ps ! i) \<noteq> SLEEPING \<Longrightarrow> qs ! i = ps ! i"
  by (auto simp: woken_def list_all2_conv_all_nth)

lemma woken_length: "woken ps qs \<Longrightarrow> length qs = length ps"
  by (auto simp: woken_def dest: list_all2_lengthD)

text \<open>The running process \<open>c\<close>, with no lock held.\<close>

definition running :: "nat \<Rightarrow> 'z pt_st_scheme \<Rightarrow> bool" where
  "running c s \<longleftrightarrow> curp s = Some c \<and> c < length (procs s) \<and> p_state (procs s ! c) = RUNNING
     \<and> p_chan (procs s ! c) = None \<and> held s = {}"

lemma sleep_for_woken:
  assumes "curp s = Some c" "c < length (procs s)" "p_state (procs s ! c) = RUNNING" "p_chan (procs s ! c) = None"
    "held s = {lk}" "lk \<noteq> LkPtable"
    and "intr (s\<lparr>procs := (procs s)[c := (procs s ! c)\<lparr>p_chan := Some ch, p_state := SLEEPING\<rparr>], curp := None, held := {}\<rparr>) = Done () t"
    and "held t = {}" "procs t = (map (wake_one ch) (procs s))[c := (procs s ! c)\<lparr>p_chan := Some ch, p_state := RUNNABLE\<rparr>]"
  shows "sleep_for ch lk intr s = Done () (t\<lparr>held := {lk}, curp := Some c, procs := map (wake_one ch) (procs s)\<rparr>)"
proof -
  have h: "insert LkPtable {lk} - {lk} = {LkPtable}" using assms(6) by auto
  have l: "(map (wake_one ch) (procs s))[c := procs s ! c] = map (wake_one ch) (procs s)"
    using assms(2,3) by (metis length_map list_update_id nth_map procstate.distinct wake_one_awake)
  have p: "(procs s ! c)\<lparr>p_state := RUNNING, p_chan := None\<rparr> = procs s ! c"
    using assms(3,4) by (cases "procs s ! c") simp
  have lp: "(map (wake_one ch) (procs s))[c := (procs s ! c)\<lparr>p_state := RUNNING, p_chan := None\<rparr>]
      = map (wake_one ch) (procs s)"
    unfolding p by (rule l)
  show ?thesis
    using assms h
    by (simp add: lp sleep_for_def sleep_enter_def sched_checks_def kop_simps thn_Done [of intr] dispatch_def sleep_exit_def)
qed

lemma find_index_None: "find_index P xs = None \<longleftrightarrow> (\<forall>x\<in>set xs. \<not> P x)"
  by (induction xs) auto

lemma find_index_Some:
  "find_index P xs = Some i \<longleftrightarrow> i < length xs \<and> P (xs ! i) \<and> (\<forall>j<i. \<not> P (xs ! j))"
proof (induction xs arbitrary: i)
  case (Cons x xs)
  show ?case
    by (cases i) (auto simp: Cons.IH less_Suc_eq_0_disj nth_Cons' split: if_splits)
qed simp

section \<open>Properties\<close>

text \<open>
  C5. A process that calls \<open>sleep(chan, lk)\<close> gives up the CPU exactly when \<open>lk\<close> is the only
  lock it holds; with any other lock held the kernel panics with \<open>sched locks\<close>. When it
  does switch, it holds only \<open>ptable.lock\<close>, and it is SLEEPING on \<open>chan\<close>.
\<close>

theorem sleep_needs_one_lock:
  assumes "curp s = Some p" "p < length (procs s)" "lk \<in> held s" "lk \<noteq> LkPtable"
    "LkPtable \<notin> held s" "finite (held s)"
  shows "sleep c lk s =
    (if held s = {lk}
     then Switched (s\<lparr>held := {LkPtable},
       procs := (procs s)[p := (procs s ! p)\<lparr>p_chan := Some c, p_state := SLEEPING\<rparr>]\<rparr>)
     else Panicked ''sched locks'')"
proof (cases "held s = {lk}")
  case True
  then show ?thesis using sleep_run [of s p lk c] assms by simp
next
  case False
  have "card (insert LkPtable (held s) - {lk}) = card (held s)"
    using assms by (simp add: card_Diff_singleton card_gt_0_iff)
  moreover have "card (held s) \<noteq> 1"
  proof
    assume "card (held s) = 1"
    then obtain x where "held s = {x}" by (rule card_1_singletonE)
    with assms(3) False show False by (metis singletonD)
  qed
  ultimately show ?thesis
    using False assms
    by (simp add: sleep_def thn_Done [OF sleep_enter_run] sched_def sched_checks_def kop_simps)
qed

theorem sleep_needs_one_lock_witness:
  "sleep ChLog LkLog (pt0\<lparr>curp := Some 0, held := {LkLog, LkCons}\<rparr>) = Panicked ''sched locks'' \<and>
   (\<exists>t. sleep ChLog LkLog (pt0\<lparr>curp := Some 0, held := {LkLog}\<rparr>) = Switched t \<and> held t = {LkPtable})"
  using sleep_needs_one_lock [of "pt0\<lparr>curp := Some 0, held := {LkLog, LkCons}\<rparr>" 0 LkLog ChLog]
    sleep_needs_one_lock [of "pt0\<lparr>curp := Some 0, held := {LkLog}\<rparr>" 0 LkLog ChLog]
  by (simp add: pt0_def doubleton_eq_iff)





end
