(* ===== verification/Sleeplock.thy ===== *)
theory Sleeplock
  imports Ptable
begin

text \<open>
  Sleep locks, src/sleeplock.c. A sleep lock is a cell of the kernel state (the \<open>lock\<close> field of
  a buffer or of an inode) with its inner spin lock \<open>lk\<close> and its channel \<open>ch\<close>; the
  operations take the cell as a pair of functions that read and write it. The locale states
  what makes such a pair a cell, and proves how the operations run on any of them.
\<close>

record sleeplock =
  sl_locked :: bool
  sl_pid :: int

definition unlocked :: sleeplock where
  "unlocked = \<lparr>sl_locked = False, sl_pid = 0\<rparr>"

definition initsleeplock :: "(sleeplock \<Rightarrow> 'z pt_st_scheme \<Rightarrow> 'z pt_st_scheme) \<Rightarrow> ('z pt_st_scheme, unit) kop" where
  "initsleeplock put = modify (put unlocked)"

definition acquiresleep :: "lockid \<Rightarrow> chan \<Rightarrow> ('z pt_st_scheme \<Rightarrow> sleeplock)
    \<Rightarrow> (sleeplock \<Rightarrow> 'z pt_st_scheme \<Rightarrow> 'z pt_st_scheme) \<Rightarrow> ('z pt_st_scheme, unit) kop" where
  "acquiresleep lk ch get put = thn (acquire lk) (bnd (gets get) (\<lambda>l.
     if sl_locked l then sleep ch lk
     else bnd myproc (\<lambda>p. bnd (gets procs) (\<lambda>ps. steps
       [modify (put \<lparr>sl_locked = True, sl_pid = p_pid (ps ! p)\<rparr>), release lk]))))"

definition releasesleep :: "lockid \<Rightarrow> chan \<Rightarrow> (sleeplock \<Rightarrow> 'z pt_st_scheme \<Rightarrow> 'z pt_st_scheme)
    \<Rightarrow> ('z pt_st_scheme, unit) kop" where
  "releasesleep lk ch put = steps [acquire lk, modify (put unlocked), wakeup ch, release lk]"

definition holdingsleep :: "lockid \<Rightarrow> ('z pt_st_scheme \<Rightarrow> sleeplock) \<Rightarrow> ('z pt_st_scheme, bool) kop" where
  "holdingsleep lk get = thn (acquire lk) (bnd (gets get) (\<lambda>l. thn (release lk) (ret (sl_locked l))))"

locale sleep_cell =
  fixes lk :: lockid and ch :: chan
    and get :: "'z pt_st_scheme \<Rightarrow> sleeplock"
    and put :: "sleeplock \<Rightarrow> 'z pt_st_scheme \<Rightarrow> 'z pt_st_scheme"
  assumes lk_inner: "lk \<noteq> LkPtable"
    and get_held: "get (held_update f s) = get s"
    and put_held: "put v (held_update f s) = held_update f (put v s)"
    and put_procs: "put v (procs_update g s) = procs_update g (put v s)"
    and put_frame: "held (put v s) = held s" "procs (put v s) = procs s" "curp (put v s) = curp s"
begin

lemma acquiresleep_free:
  assumes "lk \<notin> held s" and "curp s = Some p" and "\<not> sl_locked (get s)"
  shows "acquiresleep lk ch get put s = Done () (put \<lparr>sl_locked = True, sl_pid = p_pid (procs s ! p)\<rparr> s)"
proof -
  have "held_update (\<lambda>_. insert lk (held s) - {lk}) u = u" if "held u = held s" for u :: "'a pt_st_scheme"
    using that assms(1) by simp
  then show ?thesis
    using assms by (simp add: acquiresleep_def kop_simps get_held put_held put_frame)
qed

lemma acquiresleep_taken:
  assumes "held s = {}" and "curp s = Some p" and "p < length (procs s)" and "sl_locked (get s)"
  shows "acquiresleep lk ch get put s = Switched (asleep p ch s)"
  using assms lk_inner sleep_asleep [of "s\<lparr>held := {lk}\<rparr>" p lk ch]
  by (simp add: acquiresleep_def kop_simps get_held asleep_def)

lemma releasesleep_run:
  assumes "lk \<notin> held s" and "LkPtable \<notin> held s"
  shows "releasesleep lk ch put s = Done () ((put unlocked s)\<lparr>procs := map (wake_one ch) (procs s)\<rparr>)"
proof -
  have "s\<lparr>held := insert lk (held s) - {lk}\<rparr> = s"
    using assms(1) by simp
  then show ?thesis
    using assms lk_inner by (simp add: releasesleep_def kop_simps put_held put_frame)
qed

lemma holdingsleep_run:
  assumes "lk \<notin> held s"
  shows "holdingsleep lk get s = Done (sl_locked (get s)) s"
  using assms by (simp add: holdingsleep_def kop_simps get_held)

lemma bnd_holdingsleep:
  "lk \<notin> held s \<Longrightarrow> bnd (holdingsleep lk get) k s = k (sl_locked (get s)) s"
  by (simp add: bnd_Done [OF holdingsleep_run])

end

end
