(* ===== verification/Cstring.thy ===== *)
theory Cstring
  imports Xv6_Prelude
begin

text \<open>
  The memory and string routines of the kernel (src/string.c) and of the user library
  (src/ulib.c) over byte-addressed memory: block copy, fill and compare, and the C
  string functions. Pointers are 64-bit addresses and move by wrapping addition.
\<close>

section \<open>Filling and comparing\<close>

fun stosb :: "addr \<Rightarrow> byte \<Rightarrow> nat \<Rightarrow> mem \<Rightarrow> mem" where
  "stosb a b 0 m = m"
| "stosb a b (Suc cnt) m = stosb (a + 1) b cnt (m(a := b))"

fun stosl :: "addr \<Rightarrow> uint32 \<Rightarrow> nat \<Rightarrow> mem \<Rightarrow> mem" where
  "stosl a w 0 m = m"
| "stosl a w (Suc cnt) m = stosl (a + 4) w cnt (store32 a w m)"

text \<open>
  \<open>memset\<close> takes the byte as an \<open>int\<close>; the word it stores on the aligned path is the low
  byte repeated. The counts are passed to the string instructions as \<open>int\<close>s, so they
  are truncated to 32 bits.
\<close>

definition memset :: "addr \<Rightarrow> uint32 \<Rightarrow> uint64 \<Rightarrow> mem \<Rightarrow> mem" where
  "memset dst c n m =
     (if dst mod 4 = 0 \<and> n mod 4 = 0
      then let c = c AND 0xFF
           in stosl dst (push_bit 24 c OR push_bit 16 c OR push_bit 8 c OR c)
                (unat (ucast (n div 4) :: uint32)) m
      else stosb dst (ucast c) (unat (ucast n :: uint32)) m)"

fun memcmp_loop :: "mem \<Rightarrow> addr \<Rightarrow> addr \<Rightarrow> nat \<Rightarrow> int" where
  "memcmp_loop m s1 s2 0 = 0"
| "memcmp_loop m s1 s2 (Suc n) =
     (if m s1 \<noteq> m s2 then uint (m s1) - uint (m s2)
      else memcmp_loop m (s1 + 1) (s2 + 1) n)"

definition memcmp :: "mem \<Rightarrow> addr \<Rightarrow> addr \<Rightarrow> uint32 \<Rightarrow> int" where
  "memcmp m v1 v2 n = memcmp_loop m v1 v2 (unat n)"

section \<open>Copying\<close>

fun copy_fwd :: "addr \<Rightarrow> addr \<Rightarrow> nat \<Rightarrow> mem \<Rightarrow> mem" where
  "copy_fwd d s 0 m = m"
| "copy_fwd d s (Suc n) m = copy_fwd (d + 1) (s + 1) n (m(d := m s))"

fun copy_bwd :: "addr \<Rightarrow> addr \<Rightarrow> nat \<Rightarrow> mem \<Rightarrow> mem" where
  "copy_bwd d s 0 m = m"
| "copy_bwd d s (Suc n) m = copy_bwd (d - 1) (s - 1) n (m(d - 1 := m (s - 1)))"

definition memmove :: "addr \<Rightarrow> addr \<Rightarrow> uint32 \<Rightarrow> mem \<Rightarrow> mem" where
  "memmove dst src n m =
     (if src < dst \<and> src + ucast n > dst
      then copy_bwd (dst + ucast n) (src + ucast n) (unat n) m
      else copy_fwd dst src (unat n) m)"

definition memcpy :: "addr \<Rightarrow> addr \<Rightarrow> uint32 \<Rightarrow> mem \<Rightarrow> mem" where
  "memcpy dst src n m = memmove dst src n m"

text \<open>The user library's \<open>memmove\<close> always copies forward; its count is an \<open>int\<close>.\<close>

definition ulib_memmove :: "addr \<Rightarrow> addr \<Rightarrow> int \<Rightarrow> mem \<Rightarrow> mem" where
  "ulib_memmove vdst vsrc n m = copy_fwd vdst vsrc (nat n) m"

section \<open>Strings\<close>

fun strncmp_loop :: "mem \<Rightarrow> addr \<Rightarrow> addr \<Rightarrow> nat \<Rightarrow> int" where
  "strncmp_loop m p q 0 = 0"
| "strncmp_loop m p q (Suc n) =
     (if m p \<noteq> 0 \<and> m p = m q then strncmp_loop m (p + 1) (q + 1) n
      else uint (m p) - uint (m q))"

definition strncmp :: "mem \<Rightarrow> addr \<Rightarrow> addr \<Rightarrow> uint32 \<Rightarrow> int" where
  "strncmp m p q n = strncmp_loop m p q (unat n)"

text \<open>
  The copying loop of \<open>strncpy\<close> stops after \<open>n\<close> characters or after copying the
  terminator; the second loop pads with zeros. The count is an \<open>int\<close>: a negative one
  copies nothing.
\<close>

fun strncpy_loop :: "addr \<Rightarrow> addr \<Rightarrow> nat \<Rightarrow> mem \<Rightarrow> mem" where
  "strncpy_loop s t 0 m = m"
| "strncpy_loop s t (Suc n) m =
     (let c = m t; m' = m(s := c)
      in if c \<noteq> 0 then strncpy_loop (s + 1) (t + 1) n m' else stosb (s + 1) 0 n m')"

definition strncpy :: "addr \<Rightarrow> addr \<Rightarrow> int \<Rightarrow> mem \<Rightarrow> mem" where
  "strncpy s t n m = strncpy_loop s t (nat n) m"

fun safestrcpy_loop :: "addr \<Rightarrow> addr \<Rightarrow> nat \<Rightarrow> mem \<Rightarrow> mem" where
  "safestrcpy_loop s t 0 m = m(s := 0)"
| "safestrcpy_loop s t (Suc n) m =
     (let c = m t; m' = m(s := c)
      in if c \<noteq> 0 then safestrcpy_loop (s + 1) (t + 1) n m' else m'(s + 1 := 0))"

definition safestrcpy :: "addr \<Rightarrow> addr \<Rightarrow> int \<Rightarrow> mem \<Rightarrow> mem" where
  "safestrcpy s t n m = (if n \<le> 0 then m else safestrcpy_loop s t (nat (n - 1)) m)"

text \<open>Scanning for the terminator may not stop; then the value is \<open>None\<close>.\<close>

partial_function (option) strlen_from :: "mem \<Rightarrow> addr \<Rightarrow> nat \<Rightarrow> nat option" where
  "strlen_from m s n = (if m (s + of_nat n) = 0 then Some n else strlen_from m s (Suc n))"

definition strlen :: "mem \<Rightarrow> addr \<Rightarrow> nat option" where
  "strlen m s = strlen_from m s 0"

partial_function (option) strcmp :: "mem \<Rightarrow> addr \<Rightarrow> addr \<Rightarrow> int option" where
  "strcmp m p q =
     (if m p \<noteq> 0 \<and> m p = m q then strcmp m (p + 1) (q + 1)
      else Some (uint (m p) - uint (m q)))"

partial_function (option) strchr :: "mem \<Rightarrow> addr \<Rightarrow> byte \<Rightarrow> addr option" where
  "strchr m s c =
     (if m s = 0 then Some 0 else if m s = c then Some s else strchr m (s + 1) c)"

partial_function (option) strcpy :: "addr \<Rightarrow> addr \<Rightarrow> mem \<Rightarrow> mem option" where
  "strcpy s t m =
     (let m' = m(s := m t) in if m t \<noteq> 0 then strcpy (s + 1) (t + 1) m' else Some m')"

partial_function (option) atoi_from :: "mem \<Rightarrow> addr \<Rightarrow> uint32 \<Rightarrow> uint32 option" where
  "atoi_from m s n =
     (if 48 \<le> m s \<and> m s \<le> 57 then atoi_from m (s + 1) (n * 10 + ucast (m s) - 48) else Some n)"

definition atoi :: "mem \<Rightarrow> addr \<Rightarrow> uint32 option" where
  "atoi m s = atoi_from m s 0"

section \<open>What the routines do\<close>

text \<open>
  The reference descriptions: \<open>moved\<close> is a memory in which \<open>n\<close> bytes at \<open>s\<close> have been
  copied to \<open>d\<close> at once, \<open>filled\<close> one in which \<open>n\<close> bytes at \<open>d\<close> hold \<open>b\<close>, and
  \<open>cstring\<close> the characters of a string bounded by \<open>n\<close>.
\<close>

definition moved :: "addr \<Rightarrow> addr \<Rightarrow> nat \<Rightarrow> mem \<Rightarrow> mem" where
  "moved d s n m = (\<lambda>a. if unat (a - d) < n then m (s + (a - d)) else m a)"

definition filled :: "addr \<Rightarrow> byte \<Rightarrow> nat \<Rightarrow> mem \<Rightarrow> mem" where
  "filled d b n m = (\<lambda>a. if unat (a - d) < n then b else m a)"

definition cstring :: "mem \<Rightarrow> addr \<Rightarrow> nat \<Rightarrow> byte list" where
  "cstring m p n = takeWhile (\<lambda>c. c \<noteq> 0) (mread m p n)"

lemma filled_Suc: "Suc n < 2 ^ 64 \<Longrightarrow> filled (d + 1) b n (m(d := b)) = filled d b (Suc n) m"
  by (rule ext) (simp add: filled_def unat_diff_Suc)

lemma stosb_filled: "n < 2 ^ 64 \<Longrightarrow> stosb d b n m = filled d b n m"
proof (induction n arbitrary: d m)
  case (Suc n)
  then show ?case by (simp only: stosb.simps Suc.IH filled_Suc)
qed (simp add: filled_def)

lemma moved_Suc:
  assumes "Suc n \<le> unat (d - s) \<or> d = s" and n: "Suc n < 2 ^ 64"
  shows "moved (d + 1) (s + 1) n (m(d := m s)) = moved d s (Suc n) m"
proof (rule ext)
  fix a
  have eq: "s + 1 + (a - (d + 1)) = s + (a - d)" by simp
  have hit: "s + (a - d) = d \<longleftrightarrow> a - d = d - s" by (auto simp: algebra_simps)
  show "moved (d + 1) (s + 1) n (m(d := m s)) a = moved d s (Suc n) m a"
  proof (cases "unat (a - (d + 1)) < n")
    case True
    then have "unat (a - d) < Suc n" using n by (simp only: unat_diff_Suc) simp
    moreover have "a \<noteq> d" using True n by (auto simp only: unat_diff_same)
    ultimately show ?thesis
      using assms True hit unfolding moved_def eq fun_upd_def by auto
  next
    case False
    then show ?thesis
      using n unfolding moved_def by (simp add: unat_diff_Suc)
  qed
qed

lemma copy_fwd_moved:
  assumes "n \<le> unat (d - s) \<or> d = s" and "n < 2 ^ 64"
  shows "copy_fwd d s n m = moved d s n m"
  using assms
proof (induction n arbitrary: d s m)
  case (Suc n)
  have "copy_fwd (d + 1) (s + 1) n (m(d := m s)) = moved (d + 1) (s + 1) n (m(d := m s))"
    using Suc.prems by (intro Suc.IH) auto
  then show ?case
    using Suc.prems by (simp only: copy_fwd.simps moved_Suc)
qed (simp add: moved_def)

lemma copy_bwd_moved:
  assumes "n \<le> unat (s - d) \<or> d = s" and "n < 2 ^ 64"
  shows "copy_bwd (d + of_nat n) (s + of_nat n) n m = moved d s n m"
  using assms
proof (induction n arbitrary: m)
  case (Suc n)
  define e where "e = d + of_nat n"
  have un: "unat (of_nat n :: addr) = n" using Suc.prems by (simp add: unat_of_nat)
  have eq: "d + of_nat (Suc n) - 1 = d + of_nat n" "s + of_nat (Suc n) - 1 = s + of_nat n"
    by simp_all
  have "copy_bwd (d + of_nat (Suc n)) (s + of_nat (Suc n)) (Suc n) m
    = moved d s n (m(d + of_nat n := m (s + of_nat n)))"
    unfolding copy_bwd.simps eq using Suc.prems by (intro Suc.IH) auto
  also have "\<dots> = moved d s (Suc n) m"
  proof (rule ext)
    fix a
    have "unat (a - d) = n \<longleftrightarrow> a - d = of_nat n"
      using un by (metis word_unat_eq_iff)
    then have at: "unat (a - d) = n \<longleftrightarrow> a = d + of_nat n"
      by (auto simp: algebra_simps)
    have hit: "s + (a - d) = d + of_nat n \<longleftrightarrow> s - d = of_nat n - (a - d)"
      by (auto simp: algebra_simps)
    show "moved d s n (m(d + of_nat n := m (s + of_nat n))) a = moved d s (Suc n) m a"
    proof (cases "unat (a - d) < n")
      case True
      have "unat (of_nat n - (a - d)) = n - unat (a - d)"
        using True un by (simp add: unat_sub_if_size)
      then have "s + (a - d) = d + of_nat n \<Longrightarrow> unat (s - d) \<le> n"
        unfolding hit by (simp only: diff_le_self)
      then have "s + (a - d) \<noteq> d + of_nat n \<or> d = s"
        using Suc.prems(1) by linarith
      moreover have "d = s \<Longrightarrow> s + (a - d) = a" by simp
      ultimately show ?thesis
        using True at unfolding moved_def by auto
    next
      case False
      then show ?thesis
        using at unfolding moved_def by (auto simp: less_Suc_eq)
    qed
  qed
  finally show ?case .
qed (simp add: moved_def)

lemma memmove_moved:
  assumes "unat src + unat n < 2 ^ 64"
  shows "memmove dst src n m = moved dst src (unat n) m"
proof -
  have n: "unat n < 2 ^ 32" using unat_uint32_less [of n] by simp
  have cast: "(ucast n :: addr) = of_nat (unat n)" by simp
  have un: "unat (ucast n :: addr) = unat n"
    using n by (simp add: unsigned_ucast_eq take_bit_nat_eq_self)
  have sum: "unat (src + ucast n) = unat src + unat n"
    using assms un by (subst unat_add_lem [THEN iffD1]) auto
  have lt: "src < dst \<longleftrightarrow> unat src < unat dst" "dst < src + ucast n \<longleftrightarrow> unat dst < unat src + unat n"
    by (simp_all add: word_less_nat_alt sum)
  show ?thesis
  proof (cases "src < dst \<and> src + ucast n > dst")
    case True
    have "unat n \<le> unat (src - dst)"
      using True n unfolding lt by (auto simp: unat_sub_if_size word_size)
    then have "copy_bwd (dst + of_nat (unat n)) (src + of_nat (unat n)) (unat n) m
        = moved dst src (unat n) m"
      using n by (intro copy_bwd_moved) auto
    then show ?thesis
      using True unfolding memmove_def cast by simp
  next
    case False
    then have "unat n \<le> unat (dst - src) \<or> dst = src"
      using assms unat_addr_less [of src] unat_addr_less [of dst] unfolding lt
      by (auto simp: unat_sub_if_size word_size word_unat_eq_iff)
    then have "copy_fwd dst src (unat n) m = moved dst src (unat n) m"
      using n by (intro copy_fwd_moved) auto
    then show ?thesis
      using False unfolding memmove_def by auto
  qed
qed

lemma filled_add:
  assumes "n + k < 2 ^ 64"
  shows "filled (d + of_nat n) b k (filled d b n m) = filled d b (n + k) m"
proof (rule ext)
  fix a
  have "unat (a - (d + of_nat n)) < k \<Longrightarrow> unat (a - d) < n + k"
  proof -
    assume less: "unat (a - (d + of_nat n)) < k"
    have eq: "a - d = (a - (d + of_nat n)) + of_nat n" by simp
    have "unat (of_nat n :: addr) = n" using assms by (simp add: unat_of_nat)
    then have "unat (a - d) = unat (a - (d + of_nat n)) + n"
      unfolding eq using less assms by (subst unat_add_lem [THEN iffD1]) auto
    then show ?thesis using less by simp
  qed
  moreover have "unat (a - d) < n + k \<Longrightarrow> \<not> unat (a - d) < n \<Longrightarrow> unat (a - (d + of_nat n)) < k"
  proof -
    assume h: "unat (a - d) < n + k" "\<not> unat (a - d) < n"
    have eq: "a - (d + of_nat n) = (a - d) - of_nat n" by simp
    have "unat (of_nat n :: addr) = n" using assms by (simp add: unat_of_nat)
    then show ?thesis
      unfolding eq using h by (simp add: unat_sub_if_size)
  qed
  ultimately show "filled (d + of_nat n) b k (filled d b n m) a = filled d b (n + k) m a"
    unfolding filled_def by auto
qed

lemma mwrite_replicate: "mwrite a (replicate n b) m = filled a b n m"
  by (rule ext) (simp add: mwrite_def filled_def)

lemma quad_byte:
  fixes c :: uint32
  shows "push_bit 24 (c AND 0xFF) OR push_bit 16 (c AND 0xFF) OR push_bit 8 (c AND 0xFF) OR (c AND 0xFF)
    = of_nat (le_val (replicate 4 (ucast c)))"
proof -
  have tb: "c AND 0xFF = take_bit 8 c"
    by (simp add: take_bit_eq_mask mask_eq_exp_minus_1)
  define e where "e = take_bit 8 c"
  have e: "bit e n \<Longrightarrow> n < 8" for n
    by (simp add: e_def bit_simps)
  have e_val: "e = of_nat (unat (ucast c :: byte))"
  proof -
    define b where "b = (ucast c :: byte)"
    have "e = ucast b"
      by (rule bit_word_eqI) (auto simp: e_def b_def bit_simps)
    also have "\<dots> = of_nat (unat b)" by simp
    finally show ?thesis by (simp only: b_def)
  qed
  have d8: "push_bit 8 e AND e = 0"
    by (rule bit_eqI) (auto simp: bit_simps dest!: e)
  have d16: "push_bit 16 e AND (push_bit 8 e OR e) = 0"
    by (rule bit_eqI) (auto simp: bit_simps dest!: e)
  have d24: "push_bit 24 e AND (push_bit 16 e OR (push_bit 8 e OR e)) = 0"
    by (rule bit_eqI) (auto simp: bit_simps dest!: e)
  have "push_bit 24 e OR (push_bit 16 e OR (push_bit 8 e OR e))
     = push_bit 24 e + (push_bit 16 e + (push_bit 8 e + e))"
    by (simp add: disjunctive_add_eq_or d8 d16 d24)
  also have "\<dots> = of_nat (le_val (replicate 4 (ucast c)))"
  proof -
    have "replicate 4 b = [b, b, b, b]" for b :: byte
      by (simp add: numeral_eq_Suc)
    then show ?thesis
      by (simp add: e_val push_bit_eq_mult)
  qed
  finally show ?thesis unfolding tb e_def by (simp add: or.assoc)
qed

lemma store32_quad:
  "store32 a (push_bit 24 (c AND 0xFF) OR push_bit 16 (c AND 0xFF) OR push_bit 8 (c AND 0xFF) OR (c AND 0xFF)) m
   = filled a (ucast c) 4 m"
proof -
  have "le_val (replicate 4 (ucast c)) < 256 ^ 4"
    using le_val_bound [of "replicate 4 (ucast c)"] by simp
  then have "le_bytes 4 (unat (of_nat (le_val (replicate 4 (ucast c))) :: uint32)) = replicate 4 (ucast c)"
    using le_bytes_le_val [of "replicate 4 (ucast c)"] by (simp add: unat_of_nat)
  then show ?thesis
    unfolding store32_def quad_byte by (simp add: mwrite_replicate)
qed

lemma stosl_quad:
  assumes "4 * n < 2 ^ 64"
  shows "stosl a (push_bit 24 (c AND 0xFF) OR push_bit 16 (c AND 0xFF) OR push_bit 8 (c AND 0xFF) OR (c AND 0xFF)) n m
   = filled a (ucast c) (4 * n) m"
  using assms
proof (induction n arbitrary: a m)
  case (Suc n)
  have "filled (a + 4) (ucast c) (4 * n) (filled a (ucast c) 4 m) = filled a (ucast c) (4 * Suc n) m"
    using filled_add [of 4 "4 * n" a "ucast c" m] Suc.prems by simp
  moreover have "4 * n < 2 ^ 64" using Suc.prems by simp
  ultimately show ?case
    by (simp only: stosl.simps store32_quad Suc.IH)
qed (simp add: filled_def)

lemma memset_filled:
  assumes "unat n < 2 ^ 32"
  shows "memset dst c n m = filled dst (ucast c) (unat n) m"
proof (cases "dst mod 4 = 0 \<and> n mod 4 = 0")
  case True
  have "unat (n div 4) = unat n div 4" by (simp add: unat_div_distrib)
  moreover have "unat n mod 4 = 0"
    using True unat_mod_distrib [of n 4] by simp
  then have "4 * (unat n div 4) = unat n" by presburger
  ultimately have "4 * unat (ucast (n div 4) :: uint32) = unat n"
    using assms by (simp add: unsigned_ucast_eq take_bit_nat_eq_self)
  then show ?thesis
    using True assms stosl_quad [of "unat (ucast (n div 4) :: uint32)" dst c m]
    by (simp add: memset_def Let_def)
next
  case False
  then show ?thesis
    using assms by (auto simp: memset_def stosb_filled unsigned_ucast_eq take_bit_nat_eq_self)
qed

lemma strncmp_loop_0: 
  "strncmp_loop m p q n = 0 \<longleftrightarrow>
   takeWhile (\<lambda>c. c \<noteq> 0) (mread m p n) = takeWhile (\<lambda>c. c \<noteq> 0) (mread m q n)"
proof (induction n arbitrary: p q)
  case 0
  then show ?case by (simp add: mread_def)
next
  case (Suc n)
  then show ?case by (auto simp: mread_Suc uint_0_iff dest: word_uint_eqI)
qed

lemma strlen_from_Some:
  "mread m (s + of_nat n) (length xs) = xs \<Longrightarrow> 0 \<notin> set xs \<Longrightarrow> m (s + of_nat (n + length xs)) = 0
   \<Longrightarrow> strlen_from m s n = Some (n + length xs)"
proof (induction xs arbitrary: n)
  case Nil
  then show ?case by (subst strlen_from.simps) simp
next
  case (Cons x xs)
  have x: "m (s + of_nat n) = x" and "mread m (s + of_nat (Suc n)) (length xs) = xs"
    using Cons.prems(1) by (simp_all add: mread_Suc add_ac)
  then have "strlen_from m s (Suc n) = Some (Suc n + length xs)"
    using Cons.prems by (intro Cons.IH) (auto simp: add_ac)
  moreover have "m (s + of_nat n) \<noteq> 0"
    using Cons.prems(2) x by auto
  ultimately show ?case by (subst strlen_from.simps) simp
qed

lemma strncpy_loop_mwrite:
  assumes "apart s n t n" "n < 2 ^ 64"
  shows "strncpy_loop s t n m =
    mwrite s (let cs = takeWhile (\<lambda>c. c \<noteq> 0) (mread m t n) in cs @ replicate (n - length cs) 0) m"
  using assms
proof (induction n arbitrary: s t m)
  case 0
  then show ?case by (simp add: mread_def mwrite_def)
next
  case (Suc n)
  have len: "length (takeWhile (\<lambda>c. c \<noteq> 0) (mread m (t + 1) n)) \<le> n"
    using length_takeWhile_le [of "\<lambda>c. c \<noteq> 0" "mread m (t + 1) n"] by simp
  show ?case
  proof (cases "m t = 0")
    case True
    then show ?thesis
      using Suc.prems by (simp add: mread_Suc stosb_filled mwrite_replicate [symmetric] mwrite_Cons)
  next
    case False
    let ?pad = "\<lambda>k cs. cs @ replicate (k - length cs) (0::byte)"
    have "strncpy_loop (s + 1) (t + 1) n (m(s := m t)) =
        mwrite (s + 1) (?pad n (takeWhile (\<lambda>c. c \<noteq> 0) (mread m (t + 1) n))) (m(s := m t))"
      using Suc.IH [OF apart_Suc [OF Suc.prems(1)] Suc_lessD [OF Suc.prems(2)], of "m(s := m t)"]
      unfolding Let_def mread_upd_apart [OF Suc.prems(1)] .
    also have "\<dots> = mwrite s (?pad (Suc n) (takeWhile (\<lambda>c. c \<noteq> 0) (mread m t (Suc n)))) m"
      using False len Suc.prems(2) by (simp add: mread_Suc mwrite_Cons)
    finally show ?thesis
      using False unfolding strncpy_loop.simps Let_def by simp
  qed
qed

lemma safestrcpy_loop_mwrite:
  assumes "apart s (Suc n) t (Suc n)" "Suc n < 2 ^ 64"
  shows "safestrcpy_loop s t n m =
    mwrite s (let cs = takeWhile (\<lambda>c. c \<noteq> 0) (mread m t n)
              in if length cs = n then cs @ [0] else cs @ [0, 0]) m"
  using assms
proof (induction n arbitrary: s t m)
  case 0
  then show ?case by (simp add: mread_def mwrite_single)
next
  case (Suc n)
  have len: "length (takeWhile (\<lambda>c. c \<noteq> 0) (mread m (t + 1) n)) \<le> n"
    using length_takeWhile_le [of "\<lambda>c. c \<noteq> 0" "mread m (t + 1) n"] by simp
  show ?case
  proof (cases "m t = 0")
    case True
    then show ?thesis
      using mwrite_Cons [of "[0]" s m 0] by (simp add: mread_Suc mwrite_single)
  next
    case False
    have ap: "apart (s + 1) (Suc n) (t + 1) (Suc n)" "apart s (Suc n) t (Suc n)"
      using Suc.prems by (auto simp: apart_def)
    let ?fin = "\<lambda>k cs. if length cs = k then cs @ [0::byte] else cs @ [0, 0]"
    have "safestrcpy_loop (s + 1) (t + 1) n (m(s := m t)) =
        mwrite (s + 1) (?fin n (takeWhile (\<lambda>c. c \<noteq> 0) (mread m (t + 1) n))) (m(s := m t))"
      using Suc.IH [OF ap(1) Suc_lessD [OF Suc.prems(2)], of "m(s := m t)"]
      unfolding Let_def mread_upd_apart [OF ap(2)] .
    also have "\<dots> = mwrite s (?fin (Suc n) (takeWhile (\<lambda>c. c \<noteq> 0) (mread m t (Suc n)))) m"
      using False len Suc.prems(2) by (simp add: mread_Suc mwrite_Cons)
    finally show ?thesis
      using False unfolding safestrcpy_loop.simps Let_def by simp
  qed
qed

text \<open>
  C1. The kernel's \<open>memmove\<close> copies correctly for every overlap of the two regions: each
  byte of the destination holds what the source byte held before the call, and no byte
  outside the destination changes. The source region may not wrap round the address
  space.
\<close>

theorem memmove_copies:
  assumes "unat src + unat n < 2 ^ 64"
  shows "memmove dst src n m a =
    (if unat (a - dst) < unat n then m (src + (a - dst)) else m a)"
  using memmove_moved [OF assms] by (simp add: moved_def)

theorem memmove_copies_witness:
  "unat (0x1000 :: addr) + unat (8 :: uint32) < 2 ^ 64 \<and>
   memmove 0x1003 0x1000 8 (\<lambda>a. ucast a) 0x1006 = (3 :: byte)"
  using memmove_copies [of "0x1000" 8 "0x1003" "\<lambda>a. ucast a" "0x1006"] by simp

text \<open>
  C2. \<open>memset\<close> fills exactly the region it is given with the low byte of its argument,
  on the word-at-a-time path and on the byte path alike, for sizes that fit the
  32-bit count of the string instructions.
\<close>

theorem memset_fills:
  assumes "unat n < 2 ^ 32"
  shows "memset dst c n m a = (if unat (a - dst) < unat n then ucast c else m a)"
  using memset_filled [OF assms] by (simp add: filled_def)

theorem memset_fills_witness:
  "unat (4096 :: uint64) < 2 ^ 32 \<and> memset 0x2000 0x101 4096 (\<lambda>a. 7) 0x2FFF = 1
   \<and> memset 0x2000 0x101 4096 (\<lambda>a. 7) 0x3000 = 7"
  using memset_fills [of 4096 "0x2000" "0x101" "\<lambda>a. 7" "0x2FFF"]
    memset_fills [of 4096 "0x2000" "0x101" "\<lambda>a. 7" "0x3000"] by simp

text \<open>
  C3. \<open>strncmp\<close>, with which directory entries are compared, returns 0 exactly when the
  two strings agree, where a string ends at its first zero byte or after \<open>n\<close> bytes.
\<close>

theorem strncmp_zero_iff:
  "strncmp m p q n = 0 \<longleftrightarrow> cstring m p (unat n) = cstring m q (unat n)"
  by (simp add: strncmp_def cstring_def strncmp_loop_0)

text \<open>
  C4. \<open>safestrcpy\<close> into a buffer of \<open>n\<close> bytes leaves there a terminated string, the first
  \<open>n - 1\<close> characters of the source, and writes nothing outside the buffer, when the
  buffer and the source bytes it reads do not overlap.
\<close>

theorem safestrcpy_terminates_string:
  assumes "0 < n" and "n < 2 ^ 63" and "apart s (nat n) t (nat n)"
  shows "cstring (safestrcpy s t n m) s (nat n) = cstring m t (nat n - 1) \<and>
    length (cstring m t (nat n - 1)) < nat n \<and>
    (\<forall>a. \<not> unat (a - s) < nat n \<longrightarrow> safestrcpy s t n m a = m a)"
proof -
  define k where "k = nat n - 1"
  have k: "nat n = Suc k" "nat (n - 1) = k"
    using assms(1) by (auto simp: k_def)
  define cs where "cs = cstring m t k"
  define ws where "ws = (if length cs = k then cs @ [0] else cs @ [0, 0])"
  have "Suc k < 2 ^ 64"
    using assms(1,2) unfolding k(1) [symmetric] by (simp add: nat_less_iff)
  then have eq: "safestrcpy s t n m = mwrite s ws m"
    using safestrcpy_loop_mwrite [of s k t m] assms k
    by (simp add: safestrcpy_def cs_def ws_def cstring_def Let_def)
  have len: "length cs \<le> k"
    using length_takeWhile_le [of "\<lambda>c. c \<noteq> 0" "mread m t k"] by (simp add: cs_def cstring_def)
  then have "length ws \<le> Suc k" by (auto simp: ws_def)
  then obtain rest where "mread (mwrite s ws m) s (Suc k) = ws @ rest"
    using mread_mwrite_prefix [of ws "Suc k" s m] \<open>Suc k < 2 ^ 64\<close> by auto
  moreover obtain tl where "ws = cs @ 0 # tl"
    by (cases "length cs = k") (auto simp: ws_def)
  moreover have "\<forall>c\<in>set cs. c \<noteq> 0"
    by (auto simp: cs_def cstring_def dest: set_takeWhileD)
  ultimately have "takeWhile (\<lambda>c. c \<noteq> 0) (mread (mwrite s ws m) s (Suc k)) = cs"
    by (simp add: takeWhile_append2)
  moreover have "mwrite s ws m a = m a" if "\<not> unat (a - s) < Suc k" for a
    using that \<open>length ws \<le> Suc k\<close> by (intro mwrite_outside) auto
  ultimately show ?thesis
    using len by (simp add: k eq cs_def cstring_def)
qed

theorem safestrcpy_terminates_string_witness:
  "0 < (16::int) \<and> (16::int) < 2 ^ 63 \<and> apart 0x1000 (nat 16) 0x2000 (nat 16) \<and>
   cstring (safestrcpy 0x1000 0x2000 16 (\<lambda>a. 97)) 0x1000 (nat 16) = replicate 15 97"
proof -
  have ap: "apart 0x1000 (nat 16) 0x2000 (nat 16)" by (simp add: apart_def)
  have "cstring (\<lambda>a. 97) 0x2000 (nat 16 - 1) = replicate 15 97"
    by (simp add: cstring_def mread_def map_replicate_const)
  then show ?thesis
    using ap safestrcpy_terminates_string [OF _ _ ap, of "\<lambda>a. 97"] by simp
qed

end
