(* ===== verification/Kalloc.thy ===== *)
theory Kalloc
  imports Ptable Cstring
begin

text \<open>
  The physical page allocator, src/kalloc.c. Physical memory is the kernel's byte-addressed
  memory \<open>mem\<close>; the free list is threaded through the first word of the free pages, as in
  the source. \<open>kend\<close> is the linker's symbol \<open>end\<close>. The abstraction is the list of free pages:
  \<open>kfree\<close> and \<open>kalloc\<close> are a push and a pop on it, which is the contract (locale
  \<open>page_allocator\<close>) the clients of the allocator rely on.
\<close>

section \<open>Model\<close>

abbreviation (input) PGSIZE :: addr where "PGSIZE \<equiv> 4096"
abbreviation (input) KERNBASE :: addr where "KERNBASE \<equiv> 0xFFFF800000000000"
abbreviation (input) PHYSTOP :: addr where "PHYSTOP \<equiv> 0xE000000"

definition V2P :: "addr \<Rightarrow> addr" where "V2P a = a - KERNBASE"
definition P2V :: "addr \<Rightarrow> addr" where "P2V a = a + KERNBASE"

definition PGROUNDUP :: "addr \<Rightarrow> addr" where
  "PGROUNDUP sz = (sz + (PGSIZE - 1)) AND (NOT (PGSIZE - 1))"

definition PGROUNDDOWN :: "addr \<Rightarrow> addr" where
  "PGROUNDDOWN a = a AND (NOT (PGSIZE - 1))"

record kmem_st = pt_st +
  mem :: mem
  freelist :: addr
  use_lock :: bool
  kend :: addr

text \<open>The allocator's state at boot, for a kernel that ends at \<open>e\<close>.\<close>

definition kmem0 :: "addr \<Rightarrow> kmem_st" where
  "kmem0 e = \<lparr>held = {}, procs = replicate NPROC proc0, curp = None, nextpid = 1, initproc = 0,
     mem = (\<lambda>_. 0), freelist = 0, use_lock = False, kend = e\<rparr>"

definition kfree :: "addr \<Rightarrow> ('z kmem_st_scheme, unit) kop" where
  "kfree v = bnd (gets kend) (\<lambda>kend. bnd (gets use_lock) (\<lambda>lk. steps
     [panic_if (v mod PGSIZE \<noteq> 0 \<or> v < kend \<or> V2P v \<ge> PHYSTOP) ''kfree'',
      modify (mem_update (memset v 1 PGSIZE)),
      only_if lk (acquire LkKmem),
      modify (\<lambda>s. s\<lparr>mem := store64 v (freelist s) (mem s)\<rparr>),
      modify (freelist_update (\<lambda>_. v)),
      only_if lk (release LkKmem)]))"

definition kalloc :: "('z kmem_st_scheme, addr) kop" where
  "kalloc = bnd (gets use_lock) (\<lambda>lk. thn (only_if lk (acquire LkKmem))
     (bnd (gets freelist) (\<lambda>r. thn (only_if (r \<noteq> 0) (modify (\<lambda>s. s\<lparr>freelist := load64 (mem s) r\<rparr>)))
     (thn (only_if lk (release LkKmem)) (ret r)))))"

text \<open>
  The loop of \<open>freerange\<close> ends for all bounds: with an upper bound above \<open>PHYSTOP\<close> it runs
  until \<open>kfree\<close> panics.
\<close>

lemma kfree_Done_in_range:
  "kfree p s = Done x t \<Longrightarrow> p mod PGSIZE = 0 \<and> kend s \<le> p \<and> V2P p < PHYSTOP"
  by (auto simp: kfree_def kop_simps split: if_splits)

function freerange_from :: "addr \<Rightarrow> addr \<Rightarrow> ('z kmem_st_scheme, unit) kop" where
  "freerange_from p vend s =
     (if p + PGSIZE \<le> vend then thn (kfree p) (\<lambda>t. freerange_from (p + PGSIZE) vend t) s else Done () s)"
  by auto
termination
proof (relation "measure (\<lambda>(p, _). if V2P p < PHYSTOP then unat (PHYSTOP - V2P p) else 0)")
  fix p vend :: addr and s t :: "'z kmem_st_scheme" and x
  assume "kfree p s = Done x t"
  then have p: "V2P p < PHYSTOP" by (simp add: kfree_Done_in_range)
  have "V2P (p + PGSIZE) = V2P p + 4096" by (simp add: V2P_def)
  then have nx: "unat (V2P (p + PGSIZE)) = unat (V2P p) + 4096"
    using p by (simp add: word_less_nat_alt unat_word_ariths)
  show "((p + PGSIZE, vend, t), (p, vend, s)) \<in>
    measure (\<lambda>(p, _). if V2P p < PHYSTOP then unat (PHYSTOP - V2P p) else 0)"
    using p nx by (simp add: word_less_nat_alt unat_sub_if_size word_size) arith
qed simp

declare freerange_from.simps [simp del]

definition freerange :: "addr \<Rightarrow> addr \<Rightarrow> ('z kmem_st_scheme, unit) kop" where
  "freerange vstart vend = freerange_from (PGROUNDUP vstart) vend"

definition kinit1 :: "addr \<Rightarrow> addr \<Rightarrow> ('z kmem_st_scheme, unit) kop" where
  "kinit1 vstart vend = thn (modify (use_lock_update (\<lambda>_. False))) (freerange vstart vend)"

definition kinit2 :: "addr \<Rightarrow> addr \<Rightarrow> ('z kmem_st_scheme, unit) kop" where
  "kinit2 vstart vend = thn (freerange vstart vend) (modify (use_lock_update (\<lambda>_. True)))"

section \<open>The free list as a list of pages\<close>

fun flist :: "mem \<Rightarrow> addr \<Rightarrow> addr list \<Rightarrow> bool" where
  "flist m p [] \<longleftrightarrow> p = 0"
| "flist m p (x # xs) \<longleftrightarrow> p = x \<and> x \<noteq> 0 \<and> flist m (load64 m x) xs"

definition page_ok :: "addr \<Rightarrow> addr \<Rightarrow> bool" where
  "page_ok e p \<longleftrightarrow> p mod PGSIZE = 0 \<and> e \<le> p \<and> V2P p < PHYSTOP"

definition kmem_inv :: "'z kmem_st_scheme \<Rightarrow> addr list \<Rightarrow> bool" where
  "kmem_inv s ps \<longleftrightarrow> flist (mem s) (freelist s) ps \<and> distinct ps \<and> (\<forall>p\<in>set ps. page_ok (kend s) p)
     \<and> LkKmem \<notin> held s"

lemma page_ok_nonzero: "page_ok e p \<Longrightarrow> p \<noteq> 0"
  by (auto simp: page_ok_def V2P_def)

lemma aligned_apart:
  assumes "x mod PGSIZE = 0" and "y mod PGSIZE = 0" and "x \<noteq> y"
  shows "apart x 4096 y 4096"
proof -
  have dvd: "4096 dvd unat (b - a)" if "a mod PGSIZE = 0" "b mod PGSIZE = 0" for a b :: addr
  proof -
    have "unat a mod 4096 = 0" "unat b mod 4096 = 0"
      using that by (simp_all add: word_unat_eq_iff unat_mod_distrib)
    then have dvds: "4096 dvd unat a" "4096 dvd unat b" by (simp_all only: mod_0_imp_dvd)
    have "(4096::nat) dvd 2 ^ 64" by (rule dvdI [of _ _ "2 ^ 52"]) simp
    with dvds show ?thesis
      unfolding unat_sub_if_size word_size by (auto intro!: dvd_diff_nat dvd_add)
  qed
  have "unat (y - x) \<noteq> 0" "unat (x - y) \<noteq> 0"
    using assms(3) by (auto simp: unat_eq_zero)
  then show ?thesis
    using dvd_imp_le [OF dvd [OF assms(1,2)]] dvd_imp_le [OF dvd [OF assms(2,1)]]
    by (simp add: apart_def)
qed

lemma apart_mono: "apart a n b k \<Longrightarrow> n' \<le> n \<Longrightarrow> k' \<le> k \<Longrightarrow> apart a n' b k'"
  by (auto simp: apart_def)

lemma mread_filled_apart:
  "apart a n b k \<Longrightarrow> mread (filled a c n m) b k = mread m b k"
  by (rule nth_equalityI) (auto simp: filled_def dest: apart_outside)

lemma kfree_page_apart:
  assumes "apart v 4096 x k"
  shows "mread (store64 v w (memset v 1 PGSIZE m)) x k = mread m x k"
proof -
  have "memset v 1 PGSIZE m = filled v 1 4096 m"
    using memset_filled [of PGSIZE v 1 m] by simp
  then show ?thesis
    using assms by (simp add: store64_def mread_mwrite_apart apart_mono mread_filled_apart)
qed

lemma flist_frame:
  "flist m p xs \<Longrightarrow> (\<And>x. x \<in> set xs \<Longrightarrow> mread m' x 8 = mread m x 8) \<Longrightarrow> flist m' p xs"
  by (induction xs arbitrary: p) (auto simp: load64_def)

lemma kfree_run:
  assumes "kmem_inv s ps" and "page_ok (kend s) v"
  shows "kfree v s = Done () (s\<lparr>mem := store64 v (freelist s) (memset v 1 PGSIZE (mem s)), freelist := v\<rparr>)"
  using assms by (auto simp: kfree_def kop_simps page_ok_def kmem_inv_def)

lemma kfree_push:
  assumes "kmem_inv s ps" and "page_ok (kend s) v" and "v \<notin> set ps"
  shows "kmem_inv (s\<lparr>mem := store64 v (freelist s) (memset v 1 PGSIZE (mem s)), freelist := v\<rparr>) (v # ps)"
proof -
  have apart: "apart v 4096 x 4096" if "x \<in> set ps" for x
    using assms that by (intro aligned_apart) (auto simp: kmem_inv_def page_ok_def)
  have "flist (store64 v (freelist s) (memset v 1 PGSIZE (mem s))) (freelist s) ps"
  proof (rule flist_frame [of "mem s"])
    show "flist (mem s) (freelist s) ps" using assms(1) by (simp add: kmem_inv_def)
    show "mread (store64 v (freelist s) (memset v 1 PGSIZE (mem s))) x 8 = mread (mem s) x 8"
      if "x \<in> set ps" for x
      using apart_mono [OF apart [OF that], of 4096 8] by (simp add: kfree_page_apart)
  qed
  then show ?thesis
    using assms page_ok_nonzero [OF assms(2)] by (simp add: kmem_inv_def load64_store64_same)
qed

lemma kalloc_pop:
  assumes "kmem_inv s (p # ps)"
  shows "kalloc s = Done p (s\<lparr>freelist := load64 (mem s) p\<rparr>)"
    and "kmem_inv (s\<lparr>freelist := load64 (mem s) p\<rparr>) ps"
  using assms by (auto simp: kalloc_def kop_simps kmem_inv_def)

lemma kalloc_empty:
  assumes "kmem_inv s []"
  shows "kalloc s = Done 0 s"
  using assms by (auto simp: kalloc_def kop_simps kmem_inv_def)

text \<open>
  What a client of the allocator may rely on. \<open>inv s ps\<close>: the free pages are \<open>ps\<close>.
\<close>

locale page_allocator =
  fixes inv :: "'s \<Rightarrow> addr list \<Rightarrow> bool" and ok :: "'s \<Rightarrow> addr \<Rightarrow> bool"
    and alloc :: "('s, addr) kop" and free :: "addr \<Rightarrow> ('s, unit) kop"
  assumes alloc_some: "inv s (p # ps) \<Longrightarrow> \<exists>t. alloc s = Done p t \<and> inv t ps \<and> ok t = ok s"
    and alloc_none: "inv s [] \<Longrightarrow> alloc s = Done 0 s"
    and free_page: "inv s ps \<Longrightarrow> ok s v \<Longrightarrow> v \<notin> set ps \<Longrightarrow> \<exists>t. free v s = Done () t \<and> inv t (v # ps) \<and> ok t = ok s"
    and inv_ok: "inv s ps \<Longrightarrow> p \<in> set ps \<Longrightarrow> ok s p \<and> p \<noteq> 0"
    and inv_distinct: "inv s ps \<Longrightarrow> distinct ps"
begin

lemma alloc_total: "inv s ps \<Longrightarrow> \<exists>p t. alloc s = Done p t \<and> inv t (tl ps) \<and> ok t = ok s"
  using alloc_some [of s "hd ps" "tl ps"] alloc_none [of s] by (cases ps) auto

lemma alloc_zero_iff: "inv s ps \<Longrightarrow> alloc s = Done p t \<Longrightarrow> p = 0 \<longleftrightarrow> ps = []"
  using alloc_some [of s "hd ps" "tl ps"] alloc_none [of s] inv_ok [of s ps "hd ps"]
  by (cases ps) auto

lemma alloc_is_fresh:
  assumes "inv s ps" and "alloc s = Done p t" and "p \<noteq> 0"
  shows "p \<in> set ps" and "ok s p" and "inv t (remove1 p ps)" and "p \<notin> set (remove1 p ps)"
proof -
  obtain xs where ps: "ps = p # xs"
    using assms alloc_some [of s "hd ps" "tl ps"] alloc_zero_iff [OF assms(1,2)] by (cases ps) auto
  show "p \<in> set ps" "inv t (remove1 p ps)"
    using ps assms alloc_some [of s p xs] by auto
  show "ok s p" using inv_ok [OF assms(1)] ps by simp
  show "p \<notin> set (remove1 p ps)" using inv_distinct [OF assms(1)] ps by simp
qed

lemma free_then_alloc:
  assumes "inv s ps" and "ok s v" and "v \<notin> set ps"
  shows "\<exists>t. thn (free v) alloc s = Done v t \<and> inv t ps"
proof -
  obtain t where t: "free v s = Done () t" "inv t (v # ps)" using free_page [OF assms] by blast
  with alloc_some [OF t(2)] show ?thesis by (auto simp: thn_Done)
qed

end

interpretation ka: page_allocator kmem_inv "\<lambda>s. page_ok (kend s)" kalloc kfree
proof unfold_locales
  fix s :: "'a kmem_st_scheme" and p v :: addr and ps
  show "kmem_inv s (p # ps) \<Longrightarrow> \<exists>t. kalloc s = Done p t \<and> kmem_inv t ps \<and> page_ok (kend t) = page_ok (kend s)"
    using kalloc_pop [of s p ps] by simp
  show "kmem_inv s [] \<Longrightarrow> kalloc s = Done 0 s"
    by (rule kalloc_empty)
  show "kmem_inv s ps \<Longrightarrow> page_ok (kend s) v \<Longrightarrow> v \<notin> set ps \<Longrightarrow>
    \<exists>t. kfree v s = Done () t \<and> kmem_inv t (v # ps) \<and> page_ok (kend t) = page_ok (kend s)"
    using kfree_run [of s ps v] kfree_push [of s ps v] by simp
  show "kmem_inv s ps \<Longrightarrow> p \<in> set ps \<Longrightarrow> page_ok (kend s) p \<and> p \<noteq> 0"
    by (auto simp: kmem_inv_def dest: page_ok_nonzero)
  show "kmem_inv s ps \<Longrightarrow> distinct ps"
    by (simp add: kmem_inv_def)
qed

section \<open>Page rounding and the initial free list\<close>

lemma PGROUNDDOWN_mod: "PGROUNDDOWN a = a - a mod PGSIZE"
proof -
  have m: "(a AND 4095) + (a AND NOT 4095) = a"
    by (rule and_split)
  have "mask 12 = (4095::addr)" by (simp add: mask_eq_exp_minus_1)
  then have "a AND 4095 = a mod 4096"
    using take_bit_eq_mask [of 12 a] take_bit_eq_mod [of 12 a] by simp
  with m have "PGROUNDDOWN a + a mod 4096 = a" 
    unfolding PGROUNDDOWN_def by (simp add: add.commute)
  then show ?thesis by (metis add_diff_cancel_right')
qed
lemma unat_PGROUNDDOWN: "unat (PGROUNDDOWN a) = 4096 * (unat a div 4096)"
proof -
  have "a mod PGSIZE \<le> a" by (simp add: word_le_nat_alt unat_mod_distrib)
  then have "unat (PGROUNDDOWN a) = unat a - unat a mod 4096"
    by (simp add: PGROUNDDOWN_mod unat_sub unat_mod_distrib)
  then show ?thesis by (simp add: minus_mod_eq_mult_div)
qed

lemma unat_PGROUNDUP:
  assumes "unat a + 4095 < 2 ^ 64"
  shows "unat (PGROUNDUP a) = 4096 * ((unat a + 4095) div 4096)"
proof -
  have "unat (a + 4095) = unat a + 4095"
    using assms by (simp add: unat_word_ariths)
  moreover have "PGROUNDUP a = PGROUNDDOWN (a + 4095)"
    by (simp add: PGROUNDUP_def PGROUNDDOWN_def)
  ultimately show ?thesis by (simp add: unat_PGROUNDDOWN)
qed

definition pages_from :: "addr \<Rightarrow> nat \<Rightarrow> addr list" where
  "pages_from p n = map (\<lambda>i. p + 4096 * of_nat i) [0..<n]"

lemma pages_from_Suc: "pages_from p (Suc n) = p # pages_from (p + PGSIZE) n"
  unfolding pages_from_def
  by (rule nth_equalityI) (auto simp: nth_Cons' algebra_simps of_nat_diff simp del: upt_Suc)

lemma freerange_from_pages:
  assumes "kmem_inv s ps" and "unat p + 4096 * n \<le> unat vend" and "unat vend < unat p + 4096 * Suc n"
    and "unat p + 4096 * Suc n < 2 ^ 64"
    and "\<And>x. x \<in> set (pages_from p n) \<Longrightarrow> page_ok (kend s) x \<and> x \<notin> set ps"
    and "distinct (pages_from p n)"
  shows "\<exists>t. freerange_from p vend s = Done () t \<and> kmem_inv t (rev (pages_from p n) @ ps) \<and> kend t = kend s"
  using assms
proof (induction n arbitrary: p s ps)
  case 0
  have "unat (p + 4096) = unat p + 4096"
    using 0 by (simp add: unat_word_ariths)
  then have "\<not> p + PGSIZE \<le> vend" using 0 by (simp add: word_le_nat_alt)
  then show ?case using 0 by (simp add: pages_from_def freerange_from.simps)
next
  case (Suc n)
  have p4: "unat (p + 4096) = unat p + 4096"
    using Suc.prems(4) by (simp add: unat_word_ariths)
  then have le: "p + PGSIZE \<le> vend" using Suc.prems(2) by (simp add: word_le_nat_alt)
  have p: "page_ok (kend s) p" "p \<notin> set ps" "p \<notin> set (pages_from (p + PGSIZE) n)"
    using Suc.prems(5) [of p] Suc.prems(6) by (auto simp: pages_from_Suc)
  obtain t where t: "kfree p s = Done () t" "kmem_inv t (p # ps)" "kend t = kend s"
    using kfree_run [OF Suc.prems(1) p(1)] kfree_push [OF Suc.prems(1) p(1,2)] by auto
  have "\<exists>u. freerange_from (p + PGSIZE) vend t = Done () u \<and>
      kmem_inv u (rev (pages_from (p + PGSIZE) n) @ (p # ps)) \<and> kend u = kend t"
    using Suc.prems p p4 t by (intro Suc.IH) (auto simp: pages_from_Suc)
  then show ?case
    using t le by (subst freerange_from.simps) (simp add: thn_Done pages_from_Suc)
qed

lemma unat_page:
  assumes "unat (p::addr) + 4096 * n \<le> unat (vend::addr)" and "i < n"
  shows "unat (p + 4096 * of_nat i) = unat p + 4096 * i"
proof -
  have "unat p + 4096 * i < 2 ^ 64" using assms unat_addr_less [of vend] by simp
  moreover have "unat (4096 * of_nat i :: addr) = 4096 * i"
    using calculation by (simp add: unat_word_ariths unat_of_nat)
  ultimately show ?thesis by (simp add: unat_word_ariths)
qed

lemma pages_from_distinct:
  assumes "unat p + 4096 * n \<le> unat (vend::addr)"
  shows "distinct (pages_from p n)"
  unfolding pages_from_def distinct_map
proof (intro conjI inj_onI)
  fix i j assume "i \<in> set [0..<n]" "j \<in> set [0..<n]" "p + 4096 * of_nat i = p + 4096 * of_nat j"
  then have "unat (p + 4096 * of_nat i) = unat (p + 4096 * of_nat j)" "i < n" "j < n" by auto
  then show "i = j" using unat_page [OF assms] by simp
qed simp

lemma pages_from_ok:
  assumes "unat p + 4096 * n \<le> unat vend" and "vend \<le> KERNBASE + PHYSTOP" and "KERNBASE \<le> p"
    and "e \<le> p" and "unat p mod 4096 = 0" and "x \<in> set (pages_from p n)"
  shows "page_ok e x"
proof -
  obtain i where i: "i < n" "x = p + 4096 * of_nat i"
    using assms(6) by (auto simp: pages_from_def)
  then have x: "unat x = unat p + 4096 * i" using unat_page [OF assms(1)] by simp
  have "unat x + 4096 \<le> unat vend" using x i assms(1) by simp
  moreover have "unat vend \<le> 18446603336456077312" using assms(2) by (simp add: word_le_nat_alt)
  moreover have "18446603336221196288 \<le> unat x" using assms(3) x by (simp add: word_le_nat_alt)
  ultimately have "unat (V2P x) < 0xE000000"
    by (simp add: V2P_def unat_sub word_le_nat_alt)
  moreover have "unat x mod 4096 = 0" using x assms(5) by simp
  ultimately show ?thesis
    using assms(4) x by (simp add: page_ok_def word_less_nat_alt word_le_nat_alt word_unat_eq_iff unat_mod_distrib)
qed
section \<open>The allocator and its clients\<close>

text \<open>
  A run of the allocator with its clients: \<open>out\<close> is the set of pages handed out. Clients
  allocate, free a page they own, and write to the pages they own.
\<close>

definition in_page :: "addr \<Rightarrow> addr \<Rightarrow> bool" where
  "in_page p x \<longleftrightarrow> unat (x - p) < 4096"

inductive kmem_step :: "'z kmem_st_scheme \<times> addr set \<Rightarrow> 'z kmem_st_scheme \<times> addr set \<Rightarrow> bool" where
  step_alloc: "kalloc s = Done p t \<Longrightarrow> kmem_step (s, out) (t, if p = 0 then out else insert p out)"
| step_free: "v \<in> out \<Longrightarrow> kfree v s = Done () t \<Longrightarrow> kmem_step (s, out) (t, out - {v})"
| step_write: "(\<And>x. (\<And>p. p \<in> out \<Longrightarrow> \<not> in_page p x) \<Longrightarrow> m x = mem s x) \<Longrightarrow> kmem_step (s, out) (s\<lparr>mem := m\<rparr>, out)"

inductive_cases kmem_stepE: "kmem_step (s, out) c"

definition kmem_shared_inv :: "addr set \<Rightarrow> 'z kmem_st_scheme \<times> addr set \<Rightarrow> bool" where
  "kmem_shared_inv all c \<longleftrightarrow> (\<exists>ps. kmem_inv (fst c) ps \<and> set ps \<inter> snd c = {} \<and> set ps \<union> snd c = all
     \<and> (\<forall>p\<in>snd c. page_ok (kend (fst c)) p))"

lemma kalloc_kend: "kalloc s = Done p t \<Longrightarrow> kend t = kend s"
  by (auto simp: kalloc_def acquire_def release_def only_if_def kop_simps split: if_splits)

lemma kfree_kend: "kfree p s = Done x t \<Longrightarrow> kend t = kend s"
  by (auto simp: kfree_def acquire_def release_def only_if_def kop_simps split: if_splits)

lemma flist_client_write:
  assumes "kmem_inv s ps" and "set ps \<inter> out = {}" and "\<And>p. p \<in> out \<Longrightarrow> page_ok (kend s) p"
    and "\<And>x. (\<And>p. p \<in> out \<Longrightarrow> \<not> in_page p x) \<Longrightarrow> m x = mem s x"
  shows "kmem_inv (s\<lparr>mem := m\<rparr>) ps"
proof -
  have "mread m x 8 = mread (mem s) x 8" if x: "x \<in> set ps" for x
  proof (rule nth_equalityI)
    fix i assume "i < length (mread m x 8)"
    then have i: "i < 8" by simp
    have "\<not> in_page p (x + of_nat i)" if "p \<in> out" for p
    proof -
      have "apart p 4096 x 4096"
        using assms(1-3) x that by (intro aligned_apart) (auto simp: kmem_inv_def page_ok_def)
      then show ?thesis using i apart_outside [of p 4096 x 4096 i] by (simp add: in_page_def)
    qed
    then show "mread m x 8 ! i = mread (mem s) x 8 ! i" using assms(4) i by simp
  qed simp
  then show ?thesis
    using assms(1) flist_frame [of "mem s" "freelist s" ps m] by (simp add: kmem_inv_def)
qed

lemma kmem_step_inv:
  assumes "kmem_step c c'" and "kmem_shared_inv all c"
  shows "kmem_shared_inv all c'"
  using assms
proof (induction rule: kmem_step.induct)
  case (step_alloc s p t out)
  then obtain ps where ps: "kmem_inv s ps" "set ps \<inter> out = {}" "set ps \<union> out = all"
    "\<forall>q\<in>out. page_ok (kend s) q" by (auto simp: kmem_shared_inv_def)
  show ?case
  proof (cases "p = 0")
    case True
    then have "ps = []" using ka.alloc_zero_iff [OF ps(1) step_alloc(1)] by simp
    with ps step_alloc(1) True show ?thesis by (auto simp: kmem_shared_inv_def kalloc_empty)
  next
    case False
    note fresh = ka.alloc_is_fresh [OF ps(1) step_alloc(1) False]
    have "set (remove1 p ps) = set ps - {p}" using ka.inv_distinct [OF ps(1)] by simp
    with fresh ps kalloc_kend [OF step_alloc(1)] False show ?thesis
      unfolding kmem_shared_inv_def by (intro exI [of _ "remove1 p ps"]) auto
  qed
next
  case (step_free v out s t)
  then obtain ps where ps: "kmem_inv s ps" "set ps \<inter> out = {}" "set ps \<union> out = all"
    "\<forall>q\<in>out. page_ok (kend s) q" by (auto simp: kmem_shared_inv_def)
  then have "kmem_inv t (v # ps)"
    using step_free(1,2) ka.free_page [of s ps v] by auto
  with ps step_free(1) kfree_kend [OF step_free(2)] show ?case
    unfolding kmem_shared_inv_def by (intro exI [of _ "v # ps"]) auto
next
  case (step_write out m s)
  then obtain ps where ps: "kmem_inv s ps" "set ps \<inter> out = {}" "set ps \<union> out = all"
    "\<forall>q\<in>out. page_ok (kend s) q" by (auto simp: kmem_shared_inv_def)
  with flist_client_write [OF ps(1,2) _ step_write(1)] show ?case
    unfolding kmem_shared_inv_def by (intro exI [of _ ps]) auto
qed

section \<open>Properties\<close>

text \<open>
  C8. However clients allocate, free and use their pages, from a free list of the pages
  \<open>ps\<close> the allocator never loses or duplicates a page: the pages handed out and the free
  pages always partition \<open>ps\<close>, and whatever \<open>kalloc\<close> returns next is 0 (exactly when no
  page is free) or an aligned page inside physical memory that no client owns.
\<close>

theorem kalloc_never_shares:
  assumes "kmem_inv s0 ps" and "kmem_step\<^sup>*\<^sup>* (s0, {}) (s, out)"
  shows "\<exists>qs p t. kmem_inv s qs \<and> set qs \<union> out = set ps \<and> set qs \<inter> out = {} \<and>
     kalloc s = Done p t \<and> (p = 0 \<longleftrightarrow> out = set ps) \<and> (p \<noteq> 0 \<longrightarrow> p \<notin> out \<and> page_ok (kend s) p)"
proof -
  have "kmem_shared_inv (set ps) (s0, {})"
    using assms(1) by (auto simp: kmem_shared_inv_def)
  with assms(2) have "kmem_shared_inv (set ps) (s, out)"
    by (induction rule: rtranclp_induct) (auto intro: kmem_step_inv)
  then obtain qs where qs: "kmem_inv s qs" "set qs \<inter> out = {}" "set qs \<union> out = set ps"
    by (auto simp: kmem_shared_inv_def)
  obtain p t where k: "kalloc s = Done p t" using ka.alloc_total [OF qs(1)] by blast
  have "qs = [] \<longleftrightarrow> out = set ps" using qs(2,3) by (cases qs) auto
  then have "p = 0 \<longleftrightarrow> out = set ps"
    using ka.alloc_zero_iff [OF qs(1) k] by simp
  moreover have "p \<notin> out \<and> page_ok (kend s) p" if "p \<noteq> 0"
    using ka.alloc_is_fresh [OF qs(1) k that] qs(2) by auto
  ultimately show ?thesis using qs k by blast
qed

theorem kalloc_never_shares_witness:
  "let s0 = (kmem0 0xFFFF800000150000)\<lparr>freelist := 0xFFFF800000200000\<rparr>
   in kalloc s0 = Done 0xFFFF800000200000 (s0\<lparr>freelist := 0\<rparr>) \<and> (\<exists>t. kalloc (s0\<lparr>freelist := 0\<rparr>) = Done 0 t)"
proof -
  let ?p = "0xFFFF800000200000 :: addr"
  let ?s0 = "(kmem0 0xFFFF800000150000)\<lparr>freelist := ?p\<rparr>"
  have z: "load64 (\<lambda>_. 0) a = 0" for a
    by (simp add: load64_def mread_def map_replicate_const)
  have inv: "kmem_inv ?s0 [?p]"
    by (simp add: kmem_inv_def kmem0_def page_ok_def V2P_def z)
  have one: "kalloc ?s0 = Done ?p (?s0\<lparr>freelist := 0\<rparr>)"
    using kalloc_pop(1) [OF inv] by (simp add: kmem0_def z)
  have "kmem_step (?s0, {}) (?s0\<lparr>freelist := 0\<rparr>, {?p})"
    using step_alloc [OF one, of "{}"] by simp
  then have "kmem_step\<^sup>*\<^sup>* (?s0, {}) (?s0\<lparr>freelist := 0\<rparr>, {?p})" by (rule r_into_rtranclp)
  from kalloc_never_shares [OF inv this] one show ?thesis by auto
qed

text \<open>
  C9. \<open>kinit1\<close> and \<open>freerange\<close> free exactly the whole pages of the range: started with an
  empty free list on a range of kernel memory above \<open>end\<close> and below \<open>PHYSTOP\<close>, \<open>kinit1\<close>
  returns, and the free list then is the list of all pages that lie inside the range,
  highest first.
\<close>

theorem kinit1_frees_range:
  assumes "freelist s = 0" and "LkKmem \<notin> held s" and "kend s \<le> vstart" and "KERNBASE \<le> vstart"
    and "vstart \<le> vend" and "vend \<le> KERNBASE + PHYSTOP"
  defines "n \<equiv> (unat vend - unat (PGROUNDUP vstart)) div 4096"
  shows "\<exists>t. kinit1 vstart vend s = Done () t \<and> kmem_inv t (rev (pages_from (PGROUNDUP vstart) n)) \<and>
     unat vstart \<le> unat (PGROUNDUP vstart) \<and> unat (PGROUNDUP vstart) < unat vstart + 4096"
proof -
  define p where "p = PGROUNDUP vstart"
  let ?s = "s\<lparr>use_lock := False\<rparr>"
  have vend: "unat vend \<le> 18446603336456077312" using assms(6) by (simp add: word_le_nat_alt)
  have vs: "unat vstart \<le> unat vend" using assms(5) by (simp add: word_le_nat_alt)
  have p: "unat p = 4096 * ((unat vstart + 4095) div 4096)"
    unfolding p_def using vend vs by (intro unat_PGROUNDUP) simp
  have bounds: "unat vstart \<le> unat p" "unat p < unat vstart + 4096" unfolding p by simp_all
  have inv: "kmem_inv ?s []" using assms(1,2) by (simp add: kmem_inv_def)
  have "\<exists>t. freerange_from p vend ?s = Done () t \<and> kmem_inv t (rev (pages_from p n))"
  proof (cases "unat p \<le> unat vend")
    case True
    have n: "unat p + 4096 * n \<le> unat vend" "unat vend < unat p + 4096 * Suc n"
      using True unfolding n_def p_def [symmetric] by simp_all
    have "page_ok (kend ?s) x" if "x \<in> set (pages_from p n)" for x
      using pages_from_ok [OF n(1) assms(6) _ _ _ that] assms(3,4) bounds
      by (simp add: word_le_nat_alt p)
    then show ?thesis
      using freerange_from_pages [OF inv n] pages_from_distinct [OF n(1)] n vend by auto
  next
    case False
    then have "\<not> p + PGSIZE \<le> vend" using vend bounds vs by (simp add: word_le_nat_alt unat_word_ariths)
    moreover have "n = 0" using False by (simp add: n_def p_def)
    ultimately show ?thesis using inv by (simp add: freerange_from.simps pages_from_def)
  qed
  then show ?thesis
    using bounds by (simp add: kinit1_def freerange_def p_def kop_simps)
qed

theorem kinit1_frees_range_witness:
  "\<exists>t. kinit1 0xFFFF800000150001 0xFFFF800000153000 (kmem0 0xFFFF800000150000) = Done () t \<and>
     kmem_inv t [0xFFFF800000152000, 0xFFFF800000151000]"
proof -
  have up: "PGROUNDUP 0xFFFF800000150001 = 0xFFFF800000151000" by (simp add: PGROUNDUP_def)
  have "pages_from 0xFFFF800000151000 2 = [0xFFFF800000151000, 0xFFFF800000152000]"
    by (simp add: pages_from_def upt_rec)
  then show ?thesis
    using kinit1_frees_range [of "kmem0 0xFFFF800000150000" "0xFFFF800000150001" "0xFFFF800000153000"]
    by (auto simp: up kmem0_def)
qed

end
