(* ===== verification/Ring.thy ===== *)
theory Ring
  imports Xv6_Prelude
begin

text \<open>
  Ring buffers with free-running 32-bit counters, the representation shared by pipes
  (src/pipe.c) and by the console's input line (src/console.c): the cell of count \<open>c\<close>
  is \<open>c mod N\<close>, the counters wrap at \<open>2 ^ 32\<close>, and the number of items held is their
  wrapping difference. The locale proves once, for any size that divides \<open>2 ^ 32\<close>, that
  such a ring is a queue.
\<close>

definition ring_items :: "nat \<Rightarrow> 'a list \<Rightarrow> uint32 \<Rightarrow> uint32 \<Rightarrow> 'a list" where
  "ring_items N d r w = map (\<lambda>i. d ! (unat (r + of_nat i) mod N)) [0..<unat (w - r)]"

lemma length_ring_items [simp]: "length (ring_items N d r w) = unat (w - r)"
  by (simp add: ring_items_def)

lemma ring_items_empty [simp]: "ring_items N d r r = []"
  by (simp add: ring_items_def)

locale ring =
  fixes N :: nat
  assumes pos: "0 < N" and small: "N < 2 ^ 32" and divides: "N dvd 2 ^ 32"
begin

lemma cell: "unat (r + of_nat i :: uint32) mod N = (unat r + i) mod N"
proof -
  have "unat (r + of_nat i :: uint32) = (unat r + i) mod 2 ^ 32"
    by (simp add: unat_word_ariths unat_of_nat mod_add_right_eq)
  then show ?thesis
    using divides by (simp add: mod_mod_cancel)
qed

lemma nth_items: "i < unat (w - r) \<Longrightarrow> ring_items N d r w ! i = d ! ((unat r + i) mod N)"
  by (simp add: ring_items_def cell)

lemma cells_differ:
  assumes "i < j" and "j < i + N"
  shows "(k + i) mod N \<noteq> (k + j) mod (N::nat)"
proof
  assume "(k + i) mod N = (k + j) mod N"
  then have "N dvd (k + j) - (k + i)"
    using assms by (metis mod_eq_dvd_iff_nat add_le_mono less_imp_le order_refl)
  then show False
    using assms by (auto dest: dvd_imp_le)
qed

lemma count_put:
  assumes "unat (w - r :: uint32) < N"
  shows "unat (w + 1 - r) = Suc (unat (w - r))"
proof -
  have eq: "w + 1 - r = (w - r) + 1" by simp
  show ?thesis
    unfolding eq using assms small by (subst unat_add_lem [THEN iffD1]) auto
qed

lemma count_get:
  assumes "(r::uint32) \<noteq> w"
  shows "unat (w - r) = Suc (unat (w - (r + 1)))"
proof -
  have eq: "w - (r + 1) = (w - r) - 1" by simp
  have "w - r \<noteq> 0" using assms by auto
  then have "unat ((w - r) - 1) = unat (w - r) - 1" "unat (w - r) \<noteq> 0"
    by (simp_all only: unat_minus_one unat_eq_zero not_False_eq_True)
  then show ?thesis unfolding eq by simp
qed

lemma full_iff: "w = r + of_nat N \<longleftrightarrow> unat (w - r :: uint32) = N"
proof -
  have "unat (of_nat N :: uint32) = N" using small by (simp add: unat_of_nat)
  then have "unat (w - r) = N \<longleftrightarrow> w - r = of_nat N"
    by (metis word_unat_eq_iff)
  then show ?thesis by (auto simp: algebra_simps)
qed

lemma items_put:
  assumes "unat (w - r) < N" and "length d = N"
  shows "ring_items N (d[unat w mod N := x]) r (w + 1) = ring_items N d r w @ [x]"
proof (rule nth_equalityI)
  show "length (ring_items N (d[unat w mod N := x]) r (w + 1)) = length (ring_items N d r w @ [x])"
    using count_put [OF assms(1)] by simp
next
  fix i assume "i < length (ring_items N (d[unat w mod N := x]) r (w + 1))"
  then have i: "i < Suc (unat (w - r))" using count_put [OF assms(1)] by simp
  have w: "unat w mod N = (unat r + unat (w - r)) mod N"
    using cell [of r "unat (w - r)"] by simp
  have "(unat r + i) mod N < length d" using pos assms(2) by simp
  moreover have "(unat r + i) mod N \<noteq> unat w mod N" if "i < unat (w - r)"
    unfolding w using that assms(1) by (intro cells_differ) auto
  ultimately show "ring_items N (d[unat w mod N := x]) r (w + 1) ! i = (ring_items N d r w @ [x]) ! i"
    using i w count_put [OF assms(1)] pos assms(2)
    by (auto simp: nth_items nth_append less_Suc_eq)
qed

lemma items_get:
  assumes "r \<noteq> w"
  shows "ring_items N d r w = d ! (unat r mod N) # ring_items N d (r + 1) w"
proof (rule nth_equalityI)
  show "length (ring_items N d r w) = length (d ! (unat r mod N) # ring_items N d (r + 1) w)"
    using count_get [OF assms] by simp
next
  fix i assume "i < length (ring_items N d r w)"
  then have i: "i < Suc (unat (w - (r + 1)))" using count_get [OF assms] by simp
  have "(unat (r + 1) + j) mod N = (unat r + Suc j) mod N" for j
    using cell [of "r + 1" j] cell [of r "Suc j"] by (simp add: add.assoc)
  then show "ring_items N d r w ! i = (d ! (unat r mod N) # ring_items N d (r + 1) w) ! i"
    using i count_get [OF assms] by (cases i) (auto simp: nth_items)
qed

lemma items_unput:
  assumes "r \<noteq> e"
  shows "ring_items N d r e = ring_items N d r (e - 1) @ [d ! (unat (e - 1) mod N)]"
proof -
  have "e - r \<noteq> 0" using assms by auto
  then have "unat ((e - r) - 1) = unat (e - r) - 1" "unat (e - r) \<noteq> 0"
    by (simp_all only: unat_minus_one unat_eq_zero not_False_eq_True)
  moreover have eq: "e - 1 - r = (e - r) - 1" by simp
  ultimately have cnt: "unat (e - r) = Suc (unat (e - 1 - r))" unfolding eq by simp
  have "unat (e - 1) mod N = unat (r + of_nat (unat (e - 1 - r))) mod N" by simp
  then show ?thesis
    unfolding ring_items_def cnt by simp
qed

end

end
