(* ===== verification/Pipe.thy ===== *)
theory Pipe
  imports Kalloc Ring
begin

text \<open>
  Pipes, src/pipe.c. A pipe lives in a page of its own; \<open>pipes\<close> maps the address of each
  live pipe to its contents (struct pipe; the lock is \<open>LkPipe\<close> of the address). The bytes
  a process writes are a list; a call that reaches \<open>sleep\<close> switches to the scheduler, and
  the process goes on later with the code after it (the \<open>resume\<close> operations).
  \<open>pipealloc\<close> is in theory \<open>File\<close>, with the file table it allocates from.
\<close>

section \<open>Model\<close>

abbreviation (input) PIPESIZE :: nat where "PIPESIZE \<equiv> 512"

record pipe =
  pi_data :: "byte list"
  pi_nread :: uint32
  pi_nwrite :: uint32
  pi_readopen :: bool
  pi_writeopen :: bool

record pipe_st = kmem_st +
  pipes :: "addr \<Rightarrow> pipe option"

definition get_pipe :: "addr \<Rightarrow> ('z pipe_st_scheme, pipe) kop" where
  "get_pipe p = bnd (gets (\<lambda>s. pipes s p)) (\<lambda>q. case q of None \<Rightarrow> panic ''trap'' | Some q \<Rightarrow> ret q)"

definition upd_pipe :: "addr \<Rightarrow> (pipe \<Rightarrow> pipe) \<Rightarrow> ('z pipe_st_scheme, unit) kop" where
  "upd_pipe p f = modify (\<lambda>s. s\<lparr>pipes := (pipes s)(p := map_option f (pipes s p))\<rparr>)"

definition pipeclose :: "addr \<Rightarrow> bool \<Rightarrow> ('z pipe_st_scheme, unit) kop" where
  "pipeclose p writable = thn (acquire (LkPipe p))
     (thn (if writable
           then thn (upd_pipe p (pi_writeopen_update (\<lambda>_. False))) (wakeup (ChPipeRead p))
           else thn (upd_pipe p (pi_readopen_update (\<lambda>_. False))) (wakeup (ChPipeWrite p)))
     (bnd (get_pipe p) (\<lambda>q.
        if \<not> pi_readopen q \<and> \<not> pi_writeopen q
        then steps [release (LkPipe p), modify (\<lambda>s. s\<lparr>pipes := (pipes s)(p := None)\<rparr>), kfree p]
        else release (LkPipe p))))"

definition pipe_put :: "byte \<Rightarrow> pipe \<Rightarrow> pipe" where
  "pipe_put b q = q\<lparr>pi_data := (pi_data q)[unat (pi_nwrite q) mod PIPESIZE := b],
     pi_nwrite := pi_nwrite q + 1\<rparr>"

text \<open>The loop of \<open>pipewrite\<close> returns whether all bytes were written.\<close>

fun pipewrite_loop :: "addr \<Rightarrow> byte list \<Rightarrow> ('z pipe_st_scheme, bool) kop" where
  "pipewrite_loop p [] = ret True"
| "pipewrite_loop p (b # bs) = bnd (get_pipe p) (\<lambda>q.
     if pi_nwrite q = pi_nread q + of_nat PIPESIZE
     then bnd killed (\<lambda>k.
       if \<not> pi_readopen q \<or> k then thn (release (LkPipe p)) (ret False)
       else thn (wakeup (ChPipeRead p)) (thn (sleep (ChPipeWrite p) (LkPipe p)) (ret False)))
     else thn (upd_pipe p (pipe_put b)) (pipewrite_loop p bs))"

definition pipewrite_rest :: "addr \<Rightarrow> nat \<Rightarrow> byte list \<Rightarrow> ('z pipe_st_scheme, int) kop" where
  "pipewrite_rest p n bs = bnd (pipewrite_loop p bs) (\<lambda>ok.
     if ok then thn (wakeup (ChPipeRead p)) (thn (release (LkPipe p)) (ret (int n))) else ret (- 1))"

definition pipewrite :: "addr \<Rightarrow> byte list \<Rightarrow> ('z pipe_st_scheme, int) kop" where
  "pipewrite p bs = thn (acquire (LkPipe p)) (pipewrite_rest p (length bs) bs)"

definition pipewrite_resume :: "addr \<Rightarrow> nat \<Rightarrow> byte list \<Rightarrow> ('z pipe_st_scheme, int) kop" where
  "pipewrite_resume p n bs = thn (sleep_exit (LkPipe p)) (pipewrite_rest p n bs)"

text \<open>\<open>piperead\<close> returns the bytes it copies out, or \<open>None\<close> for -1.\<close>

fun piperead_loop :: "nat \<Rightarrow> pipe \<Rightarrow> byte list \<times> pipe" where
  "piperead_loop 0 q = ([], q)"
| "piperead_loop (Suc n) q =
     (if pi_nread q = pi_nwrite q then ([], q)
      else let (bs, q') = piperead_loop n (q\<lparr>pi_nread := pi_nread q + 1\<rparr>)
           in (pi_data q ! (unat (pi_nread q) mod PIPESIZE) # bs, q'))"

definition piperead_rest :: "addr \<Rightarrow> nat \<Rightarrow> ('z pipe_st_scheme, byte list option) kop" where
  "piperead_rest p n = bnd (get_pipe p) (\<lambda>q.
     if pi_nread q = pi_nwrite q \<and> pi_writeopen q
     then bnd killed (\<lambda>k. if k then thn (release (LkPipe p)) (ret None)
                          else thn (sleep (ChPipeRead p) (LkPipe p)) (ret None))
     else let (bs, q') = piperead_loop n q
          in thn (upd_pipe p (\<lambda>_. q')) (thn (wakeup (ChPipeWrite p))
             (thn (release (LkPipe p)) (ret (Some bs)))))"

definition piperead :: "addr \<Rightarrow> nat \<Rightarrow> ('z pipe_st_scheme, byte list option) kop" where
  "piperead p n = thn (acquire (LkPipe p)) (piperead_rest p n)"

definition piperead_resume :: "addr \<Rightarrow> nat \<Rightarrow> ('z pipe_st_scheme, byte list option) kop" where
  "piperead_resume p n = thn (sleep_exit (LkPipe p)) (piperead_rest p n)"

section \<open>The pipe as a queue\<close>

interpretation pr: ring PIPESIZE
  by unfold_locales auto

definition pipe_items :: "pipe \<Rightarrow> byte list" where
  "pipe_items q = ring_items PIPESIZE (pi_data q) (pi_nread q) (pi_nwrite q)"

definition pipe_ok :: "pipe \<Rightarrow> bool" where
  "pipe_ok q \<longleftrightarrow> length (pi_data q) = PIPESIZE \<and> length (pipe_items q) \<le> PIPESIZE"

definition pipe_puts :: "byte list \<Rightarrow> pipe \<Rightarrow> pipe" where
  "pipe_puts bs q = fold pipe_put bs q"

lemma pipe_full_iff: "pi_nwrite q = pi_nread q + 512 \<longleftrightarrow> length (pipe_items q) = PIPESIZE"
  using pr.full_iff [of "pi_nwrite q" "pi_nread q"] by (simp add: pipe_items_def)

lemma pipe_put_items:
  assumes "pipe_ok q" and "length (pipe_items q) < PIPESIZE"
  shows "pipe_items (pipe_put b q) = pipe_items q @ [b]" and "pipe_ok (pipe_put b q)"
proof -
  show "pipe_items (pipe_put b q) = pipe_items q @ [b]"
    using assms pr.items_put [of "pi_nwrite q" "pi_nread q" "pi_data q" b]
    by (simp add: pipe_items_def pipe_put_def pipe_ok_def)
  then show "pipe_ok (pipe_put b q)"
    using assms by (simp add: pipe_ok_def) (simp add: pipe_put_def)
qed

lemma pipe_puts_items:
  assumes "pipe_ok q" and "length (pipe_items q) + length bs \<le> PIPESIZE"
  shows "pipe_items (pipe_puts bs q) = pipe_items q @ bs \<and> pipe_ok (pipe_puts bs q)"
  using assms
proof (induction bs arbitrary: q)
  case (Cons b bs)
  then show ?case using pipe_put_items [of q b] by (simp add: pipe_puts_def)
qed (simp add: pipe_puts_def)

lemma pipe_puts_flags [simp]:
  "pi_readopen (pipe_puts bs q) = pi_readopen q" "pi_writeopen (pipe_puts bs q) = pi_writeopen q"
  "pi_nread (pipe_puts bs q) = pi_nread q"
  by (induction bs arbitrary: q) (simp_all add: pipe_puts_def pipe_put_def)

lemma piperead_loop_items:
  assumes "pipe_ok q" and "piperead_loop n q = (bs, q')"
  shows "bs = take n (pipe_items q) \<and> pipe_items q' = drop n (pipe_items q) \<and> pipe_ok q' \<and>
     pi_readopen q' = pi_readopen q \<and> pi_writeopen q' = pi_writeopen q"
  using assms
proof (induction n arbitrary: q bs)
  case (Suc n)
  show ?case
  proof (cases "pi_nread q = pi_nwrite q")
    case True
    with Suc.prems show ?thesis by (auto simp: pipe_items_def)
  next
    case False
    let ?q = "q\<lparr>pi_nread := pi_nread q + 1\<rparr>"
    have items: "pipe_items q = pi_data q ! (unat (pi_nread q) mod PIPESIZE) # pipe_items ?q"
      using pr.items_get [OF False] by (simp add: pipe_items_def)
    then have "pipe_ok ?q" using Suc.prems(1) by (simp add: pipe_ok_def)
    with Suc.IH [of ?q] Suc.prems(2) False items show ?thesis by (auto split: prod.splits)
  qed
qed auto

section \<open>How the operations run\<close>

lemma bnd_get_pipe [kop_simps]: "pipes s p = Some q \<Longrightarrow> bnd (get_pipe p) k s = k q s"
  by (simp add: get_pipe_def kop_simps)

lemma thn_upd_pipe [kop_simps]:
  "pipes s p = Some q \<Longrightarrow> thn (upd_pipe p f) m s = m (s\<lparr>pipes := (pipes s)(p \<mapsto> f q)\<rparr>)"
  by (simp add: upd_pipe_def kop_simps)

text \<open>A call of process \<open>c\<close> on the live pipe \<open>p\<close> that holds the pipe's lock and no other.\<close>

definition pipe_call :: "addr \<Rightarrow> pipe \<Rightarrow> nat \<Rightarrow> 'z pipe_st_scheme \<Rightarrow> bool" where
  "pipe_call p q c s \<longleftrightarrow> pipes s p = Some q \<and> pipe_ok q \<and> curp s = Some c \<and> c < length (procs s)
     \<and> held s = {LkPipe p}"

definition room :: "pipe \<Rightarrow> nat" where
  "room q = PIPESIZE - length (pipe_items q)"

lemma pipewrite_loop_run:
  assumes "pipe_call p q c s"
  shows "pipewrite_loop p bs s =
    (let s1 = s\<lparr>pipes := (pipes s)(p \<mapsto> pipe_puts (take (room q) bs) q)\<rparr>
     in if length bs \<le> room q then Done True s1
        else if \<not> pi_readopen q \<or> p_killed (procs s ! c) then Done False (s1\<lparr>held := {}\<rparr>)
        else Switched (asleep c (ChPipeWrite p) (s1\<lparr>procs := map (wake_one (ChPipeRead p)) (procs s)\<rparr>)))"
  using assms
proof (induction bs arbitrary: q s)
  case Nil
  then have "(pipes s)(p \<mapsto> q) = pipes s" by (simp add: pipe_call_def fun_upd_idem)
  then show ?case by (simp add: kop_simps pipe_puts_def)
next
  case (Cons b bs)
  note call = Cons.prems [unfolded pipe_call_def]
  show ?case
  proof (cases "length (pipe_items q) = PIPESIZE")
    case True
    then have "pi_nwrite q = pi_nread q + 512" "room q = 0" "(pipes s)(p \<mapsto> q) = pipes s"
      using call by (simp_all add: pipe_full_iff room_def fun_upd_idem)
    then show ?thesis
      using call by (simp add: kop_simps pipe_puts_def thn_stop(2) [OF sleep_asleep] Let_def)
  next
    case False
    then have lt: "length (pipe_items q) < PIPESIZE" and nf: "pi_nwrite q \<noteq> pi_nread q + 512"
      using call by (auto simp: pipe_full_iff pipe_ok_def)
    note put = pipe_put_items [of q b, OF _ lt]
    have r: "room q = Suc (room (pipe_put b q))" using put call lt by (simp add: room_def)
    have fl: "pi_readopen (pipe_put b q) = pi_readopen q" by (simp add: pipe_put_def)
    have "pipe_call p (pipe_put b q) c (s\<lparr>pipes := (pipes s)(p \<mapsto> pipe_put b q)\<rparr>)"
      using call put by (simp add: pipe_call_def)
    from Cons.IH [OF this] show ?thesis
      using call nf r fl by (simp add: kop_simps pipe_puts_def Let_def del: fun_upd_apply)
  qed
qed

lemma piperead_rest_run:
  assumes "pipe_call p q c s"
  shows "piperead_rest p n s =
    (if pipe_items q = [] \<and> pi_writeopen q
     then if p_killed (procs s ! c) then Done None (s\<lparr>held := {}\<rparr>)
          else Switched (asleep c (ChPipeRead p) s)
     else let (bs, q') = piperead_loop n q
          in Done (Some bs) (s\<lparr>held := {}, pipes := (pipes s)(p \<mapsto> q'),
               procs := map (wake_one (ChPipeWrite p)) (procs s)\<rparr>))"
proof -
  have "pi_nread q = pi_nwrite q \<longleftrightarrow> pipe_items q = []"
    using pr.items_get [of "pi_nread q" "pi_nwrite q" "pi_data q"]
    by (cases "pi_nread q = pi_nwrite q") (auto simp: pipe_items_def)
  then show ?thesis
    using assms
    by (auto simp: piperead_rest_def pipe_call_def kop_simps thn_stop(2) [OF sleep_asleep] split: prod.splits)
qed

section \<open>Readers and writers interleaved\<close>

lemma pipe_puts_nwrite: "pi_nwrite (pipe_puts bs q) = pi_nwrite q + of_nat (length bs)"
  by (induction bs arbitrary: q) (simp_all add: pipe_puts_def pipe_put_def algebra_simps)

lemma room_items:
  assumes "pipe_ok q"
  shows "pipe_items (pipe_puts (take (room q) bs) q) = pipe_items q @ take (room q) bs
     \<and> pipe_ok (pipe_puts (take (room q) bs) q)"
  using assms by (intro pipe_puts_items) (auto simp: pipe_ok_def room_def)

lemma pipewrite_rest_run:
  assumes "pipe_call p q c s"
  shows "pipewrite_rest p n bs s =
    (let s1 = s\<lparr>pipes := (pipes s)(p \<mapsto> pipe_puts (take (room q) bs) q)\<rparr>
     in if length bs \<le> room q
        then Done (int n) (s1\<lparr>held := {}, procs := map (wake_one (ChPipeRead p)) (procs s)\<rparr>)
        else if \<not> pi_readopen q \<or> p_killed (procs s ! c) then Done (- 1) (s1\<lparr>held := {}\<rparr>)
        else Switched (asleep c (ChPipeWrite p) (s1\<lparr>procs := map (wake_one (ChPipeRead p)) (procs s)\<rparr>)))"
  using assms unfolding pipewrite_rest_def
  by (simp add: bnd_def pipewrite_loop_run [OF assms] Let_def pipe_call_def kop_simps)

lemma sleep_exit_call:
  assumes "curp s = Some c" and "held s = {LkPtable}"
  shows "sleep_exit (LkPipe p) s = Done () (s\<lparr>held := {LkPipe p},
     procs := (procs s)[c := (procs s ! c)\<lparr>p_chan := None\<rparr>]\<rparr>)"
  using assms by (simp add: sleep_exit_def kop_simps)

definition written :: "addr \<Rightarrow> 'z pipe_st_scheme \<Rightarrow> 'z pipe_st_scheme \<Rightarrow> nat" where
  "written p s t = unat (pi_nwrite (the (pipes t p)) - pi_nwrite (the (pipes s p)))"

text \<open>
  The history of a pipe: \<open>pipe_run p s ins outs\<close> holds when the calls made on the pipe so
  far, by any processes and in any order, have put the bytes \<open>ins\<close> into it and delivered
  the bytes \<open>outs\<close>. Between two calls the kernel may do anything that leaves this pipe alone.
\<close>

inductive pipe_run :: "addr \<Rightarrow> 'z pipe_st_scheme \<Rightarrow> byte list \<Rightarrow> byte list \<Rightarrow> bool" for p where
  initial: "pipes s p = Some q \<Longrightarrow> pipe_ok q \<Longrightarrow> pipe_items q = [] \<Longrightarrow> pipe_run p s [] []"
| unrelated: "pipe_run p s ins outs \<Longrightarrow> pipes t p = pipes s p \<Longrightarrow> pipe_run p t ins outs"
| do_write: "pipe_run p s ins outs \<Longrightarrow> curp s = Some c \<Longrightarrow> c < length (procs s) \<Longrightarrow> held s = {} \<Longrightarrow>
    pipewrite p bs s \<in> {Done r t, Switched t} \<Longrightarrow> pipe_run p t (ins @ take (written p s t) bs) outs"
| go_on_write: "pipe_run p s ins outs \<Longrightarrow> curp s = Some c \<Longrightarrow> c < length (procs s) \<Longrightarrow> held s = {LkPtable} \<Longrightarrow>
    pipewrite_resume p n bs s \<in> {Done r t, Switched t} \<Longrightarrow> pipe_run p t (ins @ take (written p s t) bs) outs"
| do_read: "pipe_run p s ins outs \<Longrightarrow> curp s = Some c \<Longrightarrow> c < length (procs s) \<Longrightarrow> held s = {} \<Longrightarrow>
    piperead p n s \<in> {Done r t, Switched t} \<Longrightarrow>
    pipe_run p t ins (outs @ (case piperead p n s of Done (Some bs) t \<Rightarrow> bs | _ \<Rightarrow> []))"
| go_on_read: "pipe_run p s ins outs \<Longrightarrow> curp s = Some c \<Longrightarrow> c < length (procs s) \<Longrightarrow> held s = {LkPtable} \<Longrightarrow>
    piperead_resume p n s \<in> {Done r t, Switched t} \<Longrightarrow>
    pipe_run p t ins (outs @ (case piperead_resume p n s of Done (Some bs) t \<Rightarrow> bs | _ \<Rightarrow> []))"

definition pipe_fifo_inv :: "addr \<Rightarrow> 'z pipe_st_scheme \<Rightarrow> byte list \<Rightarrow> byte list \<Rightarrow> bool" where
  "pipe_fifo_inv p s ins outs \<longleftrightarrow> (\<exists>q. pipes s p = Some q \<and> pipe_ok q \<and> ins = outs @ pipe_items q)"

lemma asleep_pipes [simp]: "pipes (asleep c ch s) = pipes s"
  by (simp add: asleep_def)

lemma pipewrite_rest_inv:
  assumes "pipe_call p q c s" and "pipewrite_rest p n bs s \<in> {Done r t, Switched t}"
  shows "pipes t p = Some (pipe_puts (take (room q) bs) q)"
    and "written p s t = length (take (room q) bs)"
proof -
  show t: "pipes t p = Some (pipe_puts (take (room q) bs) q)"
    using assms(2) unfolding pipewrite_rest_run [OF assms(1)] by (auto simp: Let_def split: if_splits)
  have "room q \<le> 512" by (simp add: room_def)
  then show "written p s t = length (take (room q) bs)"
    using t assms(1) by (simp add: written_def pipe_call_def pipe_puts_nwrite unat_of_nat)
qed

lemma piperead_rest_inv:
  assumes "pipe_call p q c s" and "ins = outs @ pipe_items q" and "piperead_rest p n s \<in> {Done r t, Switched t}"
  shows "pipe_fifo_inv p t ins (outs @ (case piperead_rest p n s of Done (Some bs) t \<Rightarrow> bs | _ \<Rightarrow> []))"
proof -
  obtain bs q' where l: "piperead_loop n q = (bs, q')" by fastforce
  have ok: "pipe_ok q" and q: "pipes s p = Some q" using assms(1) by (auto simp: pipe_call_def)
  from piperead_loop_items [OF ok l]
  have "pipe_ok q'" "pipe_items q = bs @ pipe_items q'" by auto
  then show ?thesis
    using assms(2,3) ok q l unfolding piperead_rest_run [OF assms(1)]
    by (auto simp: pipe_fifo_inv_def split: if_splits)
qed

lemma pipe_call_acquire:
  "pipes s p = Some q \<Longrightarrow> pipe_ok q \<Longrightarrow> curp s = Some c \<Longrightarrow> c < length (procs s) \<Longrightarrow> held s = {} \<Longrightarrow>
     pipe_call p q c (s\<lparr>held := {LkPipe p}\<rparr>)"
  by (simp add: pipe_call_def)

lemma pipe_call_wake:
  "pipes s p = Some q \<Longrightarrow> pipe_ok q \<Longrightarrow> curp s = Some c \<Longrightarrow> c < length (procs s) \<Longrightarrow>
     pipe_call p q c (s\<lparr>held := {LkPipe p}, procs := (procs s)[c := x]\<rparr>)"
  by (simp add: pipe_call_def)

lemma pipe_write_inv:
  assumes "pipe_fifo_inv p s ins outs" and "pipes s p = pipes s' p"
    and "\<And>q. pipes s p = Some q \<Longrightarrow> pipe_ok q \<Longrightarrow> pipe_call p q c s'"
    and "pipewrite_rest p n bs s' \<in> {Done r t, Switched t}"
  shows "pipe_fifo_inv p t (ins @ take (written p s t) bs) outs"
proof -
  obtain q where q: "pipes s p = Some q" "pipe_ok q" "ins = outs @ pipe_items q"
    using assms(1) by (auto simp: pipe_fifo_inv_def)
  note w = pipewrite_rest_inv [OF assms(3) [OF q(1,2)] assms(4)]
  have "written p s t = written p s' t" using assms(2) by (simp add: written_def)
  then show ?thesis
    using w q room_items [OF q(2), of bs]
    by (auto simp: pipe_fifo_inv_def min_def)
qed

lemma pipe_run_inv: "pipe_run p s ins outs \<Longrightarrow> pipe_fifo_inv p s ins outs"
proof (induction rule: pipe_run.induct)
  case (initial s q)
  then show ?case by (simp add: pipe_fifo_inv_def)
next
  case (unrelated s ins outs t)
  then show ?case by (simp add: pipe_fifo_inv_def)
next
  case (do_write s ins outs c bs r t)
  then show ?case
    by (intro pipe_write_inv [where s' = "s\<lparr>held := {LkPipe p}\<rparr>" and c = c])
      (auto simp: pipewrite_def kop_simps intro: pipe_call_acquire)
next
  case (go_on_write s ins outs c n bs r t)
  let ?s = "s\<lparr>held := {LkPipe p}, procs := (procs s)[c := (procs s ! c)\<lparr>p_chan := None\<rparr>]\<rparr>"
  have "pipewrite_resume p n bs s = pipewrite_rest p n bs ?s"
    using go_on_write by (simp add: pipewrite_resume_def thn_Done [OF sleep_exit_call])
  with go_on_write show ?case
    by (intro pipe_write_inv [where s' = ?s and c = c]) (auto intro: pipe_call_wake)
next
  case (do_read s ins outs c n r t)
  then obtain q where q: "pipes s p = Some q" "pipe_ok q" "ins = outs @ pipe_items q"
    by (auto simp: pipe_fifo_inv_def)
  have "piperead p n s = piperead_rest p n (s\<lparr>held := {LkPipe p}\<rparr>)"
    using do_read by (simp add: piperead_def kop_simps)
  with piperead_rest_inv [OF pipe_call_acquire [OF q(1,2) do_read(2,3,4)] q(3), of n r t] do_read(5)
  show ?case by simp
next
  case (go_on_read s ins outs c n r t)
  then obtain q where q: "pipes s p = Some q" "pipe_ok q" "ins = outs @ pipe_items q"
    by (auto simp: pipe_fifo_inv_def)
  let ?s = "s\<lparr>held := {LkPipe p}, procs := (procs s)[c := (procs s ! c)\<lparr>p_chan := None\<rparr>]\<rparr>"
  have "piperead_resume p n s = piperead_rest p n ?s"
    using go_on_read by (simp add: piperead_resume_def thn_Done [OF sleep_exit_call])
  with piperead_rest_inv [OF pipe_call_wake [OF q(1,2) go_on_read(2,3), of "(procs s ! c)\<lparr>p_chan := None\<rparr>"] q(3), of n r t] go_on_read(5)
  show ?case by simp
qed

text \<open>Concrete pipes, empty and full.\<close>

definition pipe0 :: pipe where
  "pipe0 = \<lparr>pi_data = replicate PIPESIZE 0, pi_nread = 0, pi_nwrite = 0, pi_readopen = True, pi_writeopen = True\<rparr>"

definition pipe_st0 :: "pipe \<Rightarrow> pipe_st" where
  "pipe_st0 q = \<lparr>held = {}, procs = [proc0\<lparr>p_state := RUNNING\<rparr>], curp = Some 0, nextpid = 2, initproc = 0,
     mem = (\<lambda>_. 0), freelist = 0, use_lock = True, kend = 0xFFFF800000150000,
     pipes = [0xFFFF800000200000 \<mapsto> q]\<rparr>"

lemma pipe0_ok: "pipe_ok pipe0" "pipe_items pipe0 = []"
  by (simp_all add: pipe_ok_def pipe_items_def pipe0_def)

section \<open>Properties\<close>

text \<open>
  C14. A pipe is a FIFO: whatever processes call \<open>pipewrite\<close> and \<open>piperead\<close> on it, with
  whatever sizes, however often the calls sleep and go on, and however often the 32-bit
  counters wrap, the bytes delivered so far are exactly a prefix of the bytes put in so
  far, in order, and the rest (at most 512 bytes) is what the pipe holds.
\<close>

theorem pipe_fifo:
  assumes "pipe_run p s ins outs"
  shows "\<exists>q. pipes s p = Some q \<and> ins = outs @ pipe_items q \<and> length (pipe_items q) \<le> PIPESIZE"
  using pipe_run_inv [OF assms] by (auto simp: pipe_fifo_inv_def pipe_ok_def)

theorem pipe_fifo_witness:
  "\<exists>s q. pipes s 0xFFFF800000200000 = Some q \<and> [1, 2, 3] = [] @ pipe_items q \<and>
     pipewrite 0xFFFF800000200000 [1, 2, 3] (pipe_st0 pipe0) = Done 3 s"
proof -
  let ?s = "pipe_st0 pipe0"
  have h: "pipes ?s 0xFFFF800000200000 = Some pipe0" "curp ?s = Some 0" "0 < length (procs ?s)" "held ?s = {}"
    by (simp_all add: pipe_st0_def)
  have r: "room pipe0 = 512" by (simp add: room_def pipe0_ok)
  have w: "pipewrite 0xFFFF800000200000 [1, 2, 3] ?s = pipewrite_rest 0xFFFF800000200000 3 [1, 2, 3] (?s\<lparr>held := {LkPipe 0xFFFF800000200000}\<rparr>)"
    using h by (simp add: pipewrite_def kop_simps numeral_3_eq_3)
  then obtain t where t: "pipewrite 0xFFFF800000200000 [1, 2, 3] ?s = Done 3 t"
    unfolding pipewrite_rest_run [OF pipe_call_acquire [OF h(1) pipe0_ok(1) h(2,3,4)]] by (simp add: r)
  have "written 0xFFFF800000200000 ?s t = 3"
    using pipewrite_rest_inv(2) [OF pipe_call_acquire [OF h(1) pipe0_ok(1) h(2,3,4)], of 3 "[1, 2, 3]" 3 t] t w
    by (simp add: r written_def)
  moreover have "pipe_run 0xFFFF800000200000 t ([] @ take (written 0xFFFF800000200000 ?s t) [1, 2, 3]) []"
    using t h by (intro do_write [OF initial [OF h(1) pipe0_ok]]) auto
  ultimately show ?thesis using pipe_fifo [of "0xFFFF800000200000" t "[1, 2, 3]" "[]"] t by auto
qed

text \<open>
  C15. Every outcome of \<open>pipewrite\<close>: when the bytes fit, they are appended, readers are
  woken and the length is returned; otherwise as many as fit are appended, and the call
  returns -1 if no reader is left or the process is killed, and else sleeps for room after
  waking the readers. No lock stays held.
\<close>

theorem pipewrite_outcome:
  assumes "pipes s p = Some q" "pipe_ok q" "curp s = Some c" "c < length (procs s)" "held s = {}"
  shows "\<exists>q'. pipe_items q' = pipe_items q @ take (PIPESIZE - length (pipe_items q)) bs \<and> pipewrite p bs s =
    (let s1 = s\<lparr>pipes := (pipes s)(p \<mapsto> q')\<rparr>; woken = map (wake_one (ChPipeRead p)) (procs s)
     in if length (pipe_items q) + length bs \<le> PIPESIZE then Done (int (length bs)) (s1\<lparr>procs := woken\<rparr>)
        else if \<not> pi_readopen q \<or> p_killed (procs s ! c) then Done (- 1) s1
        else Switched (asleep c (ChPipeWrite p) (s1\<lparr>procs := woken\<rparr>)))"
proof -
  have fits: "length bs \<le> room q \<longleftrightarrow> length (pipe_items q) + length bs \<le> PIPESIZE"
    using assms(2) by (auto simp: room_def pipe_ok_def)
  have "pipewrite p bs s = pipewrite_rest p (length bs) bs (s\<lparr>held := {LkPipe p}\<rparr>)"
    using assms by (simp add: pipewrite_def kop_simps)
  moreover have "s\<lparr>held := {}\<rparr> = s" using assms(5) by simp
  ultimately show ?thesis
    unfolding pipewrite_rest_run [OF pipe_call_acquire [OF assms]]
    using room_items [OF assms(2), of bs] fits assms(5)
    by (intro exI [of _ "pipe_puts (take (room q) bs) q"])
      (simp add: Let_def room_def asleep_def del: fun_upd_apply)
qed

theorem pipewrite_outcome_witness:
  "\<exists>t u. pipewrite 0xFFFF800000200000 [7] (pipe_st0 pipe0) = Done 1 t \<and>
     pipewrite 0xFFFF800000200000 (replicate 513 7) (pipe_st0 pipe0) = Switched u"
  using pipewrite_outcome [of "pipe_st0 pipe0" "0xFFFF800000200000" pipe0 0 "[7]"]
    pipewrite_outcome [of "pipe_st0 pipe0" "0xFFFF800000200000" pipe0 0 "replicate 513 7"]
  by (auto simp: pipe_st0_def pipe0_ok Let_def proc0_def) (simp add: pipe0_def)

text \<open>
  C16. Every outcome of \<open>piperead\<close>: on an empty pipe with a writer left it returns -1 if the
  process is killed and sleeps otherwise; else it delivers the first \<open>min n\<close> bytes the pipe
  holds (none at end of file), removes them, and wakes the writers.
\<close>

theorem piperead_outcome:
  assumes "pipes s p = Some q" "pipe_ok q" "curp s = Some c" "c < length (procs s)" "held s = {}"
  shows "\<exists>q'. pipe_items q' = drop n (pipe_items q) \<and> piperead p n s =
    (if pipe_items q = [] \<and> pi_writeopen q
     then if p_killed (procs s ! c) then Done None s else Switched (asleep c (ChPipeRead p) s)
     else Done (Some (take n (pipe_items q))) (s\<lparr>pipes := (pipes s)(p \<mapsto> q'),
            procs := map (wake_one (ChPipeWrite p)) (procs s)\<rparr>))"
proof -
  obtain bs q' where l: "piperead_loop n q = (bs, q')" by fastforce
  note items = piperead_loop_items [OF assms(2) l]
  have "piperead p n s = piperead_rest p n (s\<lparr>held := {LkPipe p}\<rparr>)"
    using assms by (simp add: piperead_def kop_simps)
  moreover have "s\<lparr>held := {}\<rparr> = s" using assms(5) by simp
  ultimately show ?thesis
    unfolding piperead_rest_run [OF pipe_call_acquire [OF assms]]
    using items l by (intro exI [of _ q']) (simp add: asleep_def del: fun_upd_apply)
qed

theorem piperead_outcome_witness:
  "(\<exists>t. piperead 0xFFFF800000200000 5 (pipe_st0 pipe0) = Switched t) \<and>
   (\<exists>t. piperead 0xFFFF800000200000 5 (pipe_st0 (pipe0\<lparr>pi_writeopen := False\<rparr>)) = Done (Some []) t)"
  using piperead_outcome [of "pipe_st0 pipe0" "0xFFFF800000200000" pipe0 0 5]
    piperead_outcome [of "pipe_st0 (pipe0\<lparr>pi_writeopen := False\<rparr>)" "0xFFFF800000200000" "pipe0\<lparr>pi_writeopen := False\<rparr>" 0 5]
  by (auto simp: pipe_st0_def pipe_ok_def pipe_items_def proc0_def pipe0_def)

text \<open>
  C17. \<open>pipeclose\<close> closes its end, wakes the processes waiting at the other end, and frees the
  pipe's page exactly when the other end is closed already.
\<close>

theorem pipeclose_frees_last:
  assumes "pipes s p = Some q" "held s = {}" "page_ok (kend s) p"
  shows "\<exists>t. pipeclose p w s = Done () t \<and> held t = {} \<and>
    procs t = map (wake_one (if w then ChPipeRead p else ChPipeWrite p)) (procs s) \<and>
    (if (if w then pi_readopen q else pi_writeopen q)
     then pipes t = (pipes s)(p \<mapsto> (if w then q\<lparr>pi_writeopen := False\<rparr> else q\<lparr>pi_readopen := False\<rparr>)) \<and> freelist t = freelist s
     else pipes t = (pipes s)(p := None) \<and> freelist t = p \<and> load64 (mem t) p = freelist s)"
proof -
  have kf: "kfree p u = Done () (u\<lparr>mem := store64 p (freelist u) (memset p 1 PGSIZE (mem u)), freelist := p\<rparr>)"
    if "kend u = kend s" "LkKmem \<notin> held u" for u :: "'a pipe_st_scheme"
    using assms(3) that by (auto simp: kfree_def kop_simps page_ok_def)
  show ?thesis
    using assms(1,2)
    by (cases w; cases "pi_readopen q"; cases "pi_writeopen q"; simp add: pipeclose_def kop_simps thn_Done [OF kf] load64_store64_same fun_upd_same fun_upd_upd del: fun_upd_apply)
qed

theorem pipeclose_frees_last_witness:
  "\<exists>t. pipeclose 0xFFFF800000200000 True (pipe_st0 (pipe0\<lparr>pi_readopen := False\<rparr>)) = Done () t \<and>
     freelist t = 0xFFFF800000200000"
  using pipeclose_frees_last [of "pipe_st0 (pipe0\<lparr>pi_readopen := False\<rparr>)" "0xFFFF800000200000" "pipe0\<lparr>pi_readopen := False\<rparr>" True]
  by (auto simp: pipe_st0_def page_ok_def V2P_def)

end
