(* ===== verification/Ide.thy ===== *)
theory Ide
  imports Sleeplock Pipe
begin

text \<open>
  Buffers (struct buf, src/buf.h) and the two disk drivers that synchronise a buffer with the
  disk: the PIO driver of src/ide.c and the memory disk of src/memide.c.

  The IDE controller is part of the state: the task-file registers the driver loads, the
  sectors of the two disks, and \<open>diskw\<close>, the sequence of all sector writes the disk has
  performed (what survives a power failure is the effect of a prefix of it). A buffer's
  flags B_VALID and B_DIRTY are two booleans; the queue linked through \<open>qnext\<close> is the list
  of the buffers in it. The process that waits in \<open>iderw\<close> sleeps until the interrupts for the
  requests up to its own have been handled (\<open>sleep_for\<close>).
\<close>

section \<open>Buffers\<close>

record buf =
  b_valid :: bool
  b_dirty :: bool
  b_dev :: nat
  b_blockno :: nat
  b_lock :: sleeplock
  b_refcnt :: nat
  b_data :: "byte list"

record ide_st = pipe_st +
  bufs :: "buf list"
  idequeue :: "nat list"
  havedisk1 :: bool
  ide_regs :: "nat \<Rightarrow> byte"
  ide_fault :: bool
  disk :: "nat \<Rightarrow> nat \<Rightarrow> byte list"
  diskw :: "(nat \<times> nat \<times> byte list) list"

definition upd_buf :: "nat \<Rightarrow> (buf \<Rightarrow> buf) \<Rightarrow> ('z ide_st_scheme, unit) kop" where
  "upd_buf i f = modify (\<lambda>s. s\<lparr>bufs := (bufs s)[i := f (bufs s ! i)]\<rparr>)"

definition get_buf :: "nat \<Rightarrow> ('z ide_st_scheme, buf) kop" where
  "get_buf i = gets (\<lambda>s. bufs s ! i)"

definition get_block :: "nat \<Rightarrow> 'z ide_st_scheme \<Rightarrow> sleeplock" where
  "get_block i s = b_lock (bufs s ! i)"

definition put_block :: "nat \<Rightarrow> sleeplock \<Rightarrow> 'z ide_st_scheme \<Rightarrow> 'z ide_st_scheme" where
  "put_block i v s = s\<lparr>bufs := (bufs s)[i := (bufs s ! i)\<lparr>b_lock := v\<rparr>]\<rparr>"

interpretation bl: sleep_cell "LkBuf i" "ChBufLock i" "get_block i" "put_block i" for i
  by unfold_locales (simp_all add: get_block_def put_block_def)

definition holding_buf :: "nat \<Rightarrow> ('z ide_st_scheme, bool) kop" where
  "holding_buf i = holdingsleep (LkBuf i) (get_block i)"

section \<open>The IDE driver\<close>

definition outb :: "nat \<Rightarrow> byte \<Rightarrow> ('z ide_st_scheme, unit) kop" where
  "outb port v = modify (\<lambda>s. s\<lparr>ide_regs := (ide_regs s)(port := v)\<rparr>)"

text \<open>The sector the registers select: a 28-bit block address and the drive bit.\<close>

definition ide_lba :: "(nat \<Rightarrow> byte) \<Rightarrow> nat" where
  "ide_lba r = unat (r 0x1f3) + 256 * unat (r 0x1f4) + 65536 * unat (r 0x1f5) + 16777216 * unat (r 0x1f6 AND 0x0f)"

definition ide_drive :: "(nat \<Rightarrow> byte) \<Rightarrow> nat" where
  "ide_drive r = unat (drop_bit 4 (r 0x1f6) AND 1)"

definition disk_write :: "nat \<Rightarrow> nat \<Rightarrow> byte list \<Rightarrow> 'z ide_st_scheme \<Rightarrow> 'z ide_st_scheme" where
  "disk_write d n bs s = s\<lparr>disk := (disk s)(d := (disk s d)(n := bs)), diskw := diskw s @ [(d, n, bs)]\<rparr>"

definition outsl_data :: "byte list \<Rightarrow> ('z ide_st_scheme, unit) kop" where
  "outsl_data bs = modify (\<lambda>s. disk_write (ide_drive (ide_regs s)) (ide_lba (ide_regs s)) bs s)"

definition insl_data :: "('z ide_st_scheme, byte list) kop" where
  "insl_data = gets (\<lambda>s. disk s (ide_drive (ide_regs s)) (ide_lba (ide_regs s)))"

text \<open>\<open>idewait\<close> returns once the disk is ready; the status then shows whether it failed.\<close>

definition idewait :: "bool \<Rightarrow> ('z ide_st_scheme, int) kop" where
  "idewait checkerr = bnd (gets ide_fault) (\<lambda>err. ret (if checkerr \<and> err then - 1 else 0))"

definition idestart :: "nat \<Rightarrow> ('z ide_st_scheme, unit) kop" where
  "idestart i = bnd (get_buf i) (\<lambda>b.
     let sector_per_block = BSIZE div 512;
         sector = b_blockno b * sector_per_block;
         read_cmd = (if sector_per_block = 1 then 0x20 else 0xc4);
         write_cmd = (if sector_per_block = 1 then 0x30 else 0xc5)
     in thn (panic_if (FSSIZE \<le> b_blockno b) ''incorrect blockno'')
       (thn (panic_if (7 < sector_per_block) ''idestart'')
       (thn (idewait False)
       (thn (steps
         [outb 0x3f6 0,
          outb 0x1f2 (of_nat sector_per_block),
          outb 0x1f3 (of_nat sector),
          outb 0x1f4 (of_nat (sector div 256)),
          outb 0x1f5 (of_nat (sector div 65536)),
          outb 0x1f6 (0xe0 OR push_bit 4 (of_nat (b_dev b) AND 1) OR (of_nat (sector div 16777216) AND 0x0f))])
       (if b_dirty b then thn (outb 0x1f7 write_cmd) (outsl_data (b_data b))
        else outb 0x1f7 read_cmd)))))"

definition ideintr :: "('z ide_st_scheme, unit) kop" where
  "ideintr = thn (acquire LkIde) (bnd (gets idequeue) (\<lambda>q. case q of
     [] \<Rightarrow> release LkIde
   | i # rest \<Rightarrow>
      thn (modify (\<lambda>s. s\<lparr>idequeue := rest\<rparr>))
      (bnd (get_buf i) (\<lambda>b.
        thn (if b_dirty b then ret ()
             else bnd (idewait True) (\<lambda>r. if 0 \<le> r
                    then bnd insl_data (\<lambda>bs. upd_buf i (b_data_update (\<lambda>_. bs))) else ret ()))
        (thn (upd_buf i (\<lambda>b. b\<lparr>b_valid := True, b_dirty := False\<rparr>))
        (thn (wakeup (ChBuf i))
        (thn (case rest of [] \<Rightarrow> ret () | j # _ \<Rightarrow> idestart j)
             (release LkIde))))))))"

definition ide_done :: "nat \<Rightarrow> ('z ide_st_scheme, bool) kop" where
  "ide_done i = gets (\<lambda>s. b_valid (bufs s ! i) \<and> \<not> b_dirty (bufs s ! i))"

text \<open>
  \<open>iderw\<close> waits, if need be, until the interrupts for all requests queued up to its own have
  come in; were the request still not finished, it would sleep again.
\<close>

definition iderw :: "nat \<Rightarrow> ('z ide_st_scheme, unit) kop" where
  "iderw i = bnd (holding_buf i) (\<lambda>h. bnd (get_buf i) (\<lambda>b. bnd (gets havedisk1) (\<lambda>d1.
     thn (steps [panic_if (\<not> h) ''iderw: buf not locked'',
            panic_if (b_valid b \<and> \<not> b_dirty b) ''iderw: nothing to do'',
            panic_if (b_dev b \<noteq> 0 \<and> \<not> d1) ''iderw: ide disk 1 not present'',
            acquire LkIde,
            modify (\<lambda>s. s\<lparr>idequeue := idequeue s @ [i]\<rparr>)])
     (bnd (gets idequeue) (\<lambda>q.
       thn (only_if (hd q = i) (idestart i))
       (bnd (ide_done i) (\<lambda>ok.
         thn (only_if (\<not> ok) (sleep_for (ChBuf i) LkIde (steps (replicate (length q) ideintr))))
         (bnd (ide_done i) (\<lambda>ok. thn (only_if (\<not> ok) (sleep (ChBuf i) LkIde)) (release LkIde))))))))))"

section \<open>The memory disk\<close>

text \<open>
  The image is the same array of sectors; \<open>disksize\<close> is the number of blocks of the image
  linked into the kernel.
\<close>

definition mem_iderw :: "nat \<Rightarrow> nat \<Rightarrow> ('z ide_st_scheme, unit) kop" where
  "mem_iderw disksize i = bnd (holding_buf i) (\<lambda>h. bnd (get_buf i) (\<lambda>b.
     thn (steps [panic_if (\<not> h) ''iderw: buf not locked'',
            panic_if (b_valid b \<and> \<not> b_dirty b) ''iderw: nothing to do'',
            panic_if (b_dev b \<noteq> 1) ''iderw: request not for disk 1'',
            panic_if (disksize \<le> b_blockno b) ''iderw: block out of range''])
     (thn (if b_dirty b
           then thn (upd_buf i (b_dirty_update (\<lambda>_. False))) (modify (disk_write (b_dev b) (b_blockno b) (b_data b)))
           else bnd (gets disk) (\<lambda>dk. upd_buf i (b_data_update (\<lambda>_. dk (b_dev b) (b_blockno b)))))
     (upd_buf i (b_valid_update (\<lambda>_. True))))))"

section \<open>How the drivers run\<close>

lemma drive_byte:
  "unat (drop_bit 4 ((0xe0 :: byte) OR push_bit 4 (of_nat d AND 1) OR 0) AND 1) = d mod 2"
  "unat (((0xe0 :: byte) OR push_bit 4 (of_nat d AND 1) OR 0) AND 0x0f) = 0"
proof -
  have "(of_nat d :: byte) AND 1 = of_nat (d mod 2)"
    by (simp add: word_unat_eq_iff and_one_eq unat_mod_distrib unat_of_nat mod_mod_cancel)
  moreover have "d mod 2 = 0 \<or> d mod 2 = 1" by auto
  ultimately show "unat (drop_bit 4 ((0xe0 :: byte) OR push_bit 4 (of_nat d AND 1) OR 0) AND 1) = d mod 2"
    "unat (((0xe0 :: byte) OR push_bit 4 (of_nat d AND 1) OR 0) AND 0x0f) = 0"
    by auto
qed

lemma lba_bytes:
  assumes "n < 65536"
  shows "unat (of_nat n :: byte) + 256 * unat (of_nat (n div 256) :: byte) = n"
  using assms by (simp add: unat_of_nat)

lemma idestart_run:
  assumes "b_blockno (bufs s ! i) < FSSIZE"
  shows "\<exists>r. ide_lba r = b_blockno (bufs s ! i) \<and> ide_drive r = b_dev (bufs s ! i) mod 2 \<and>
    idestart i s = Done () (if b_dirty (bufs s ! i)
      then disk_write (b_dev (bufs s ! i) mod 2) (b_blockno (bufs s ! i)) (b_data (bufs s ! i)) (s\<lparr>ide_regs := r\<rparr>)
      else s\<lparr>ide_regs := r\<rparr>)"
proof -
  let ?n = "b_blockno (bufs s ! i)"
  let ?cmd = "if b_dirty (bufs s ! i) then 0x30 else 0x20 :: byte"
  let ?r = "(ide_regs s)(0x3f6 := 0, 0x1f2 := 1, 0x1f3 := of_nat ?n, 0x1f4 := of_nat (?n div 256),
    0x1f5 := of_nat (?n div 65536), 0x1f6 := 0xe0 OR push_bit 4 (of_nat (b_dev (bufs s ! i)) AND 1) OR 0,
    0x1f7 := ?cmd)"
  have z: "?n div 65536 = 0" "?n div 16777216 = 0" using assms by simp_all
  have lba: "ide_lba ?r = ?n" "ide_drive ?r = b_dev (bufs s ! i) mod 2"
    using assms lba_bytes [of ?n] drive_byte [of "b_dev (bufs s ! i)"]
    by (simp_all add: ide_lba_def ide_drive_def z)
  have "idestart i s = Done () (if b_dirty (bufs s ! i)
      then disk_write (ide_drive ?r) (ide_lba ?r) (b_data (bufs s ! i)) (s\<lparr>ide_regs := ?r\<rparr>)
      else s\<lparr>ide_regs := ?r\<rparr>)"
    using assms by (simp add: idestart_def get_buf_def idewait_def outb_def outsl_data_def kop_simps z Let_def del: fun_upd_apply)
  then show ?thesis unfolding lba using lba by blast
qed

lemma thn_upd_buf [kop_simps]: "thn (upd_buf i f) m s = m (s\<lparr>bufs := (bufs s)[i := f (bufs s ! i)]\<rparr>)"
  by (simp add: upd_buf_def kop_simps)

lemma upd_buf_run [kop_simps]: "upd_buf i f s = Done () (s\<lparr>bufs := (bufs s)[i := f (bufs s ! i)]\<rparr>)"
  by (simp add: upd_buf_def kop_simps)

lemma bnd_get_buf [kop_simps]: "bnd (get_buf i) k s = k (bufs s ! i) s"
  by (simp add: get_buf_def kop_simps)

lemma bnd_holding_buf [kop_simps]:
  "LkBuf i \<notin> held s \<Longrightarrow> bnd (holding_buf i) k s = k (sl_locked (b_lock (bufs s ! i))) s"
  unfolding holding_buf_def using bl.bnd_holdingsleep [of i s k] by (simp add: get_block_def)

lemma bnd_ide_done [kop_simps]: "bnd (ide_done i) k s = k (b_valid (bufs s ! i) \<and> \<not> b_dirty (bufs s ! i)) s"
  by (simp add: ide_done_def kop_simps)

text \<open>What the driver leaves in a buffer.\<close>

definition synced :: "buf \<Rightarrow> (nat \<Rightarrow> nat \<Rightarrow> byte list) \<Rightarrow> buf" where
  "synced b dk = b\<lparr>b_valid := True, b_dirty := False,
     b_data := if b_dirty b then b_data b else dk (b_dev b) (b_blockno b)\<rparr>"

lemma ideintr_one:
  assumes "held s = {}" "idequeue s = [i]" "i < length (bufs s)" "\<not> ide_fault s"
    "ide_drive (ide_regs s) = b_dev (bufs s ! i)" "ide_lba (ide_regs s) = b_blockno (bufs s ! i)"
  shows "ideintr s = Done () (s\<lparr>idequeue := [], bufs := (bufs s)[i := synced (bufs s ! i) (disk s)],
     procs := map (wake_one (ChBuf i)) (procs s)\<rparr>)"
proof (cases "b_dirty (bufs s ! i)")
  case True
  have "(bufs s ! i)\<lparr>b_valid := True, b_dirty := False\<rparr> = synced (bufs s ! i) (disk s)"
    using True by (cases "bufs s ! i") (simp add: synced_def)
  with assms True show ?thesis by (simp add: ideintr_def kop_simps)
next
  case False
  have "(bufs s ! i)\<lparr>b_data := disk s (b_dev (bufs s ! i)) (b_blockno (bufs s ! i)), b_valid := True, b_dirty := False\<rparr>
      = synced (bufs s ! i) (disk s)"
    using False by (simp add: synced_def)
  with assms False show ?thesis
    by (simp add: ideintr_def kop_simps idewait_def insl_data_def)
qed

definition iderw_pre :: "nat \<Rightarrow> nat \<Rightarrow> 'z ide_st_scheme \<Rightarrow> bool" where
  "iderw_pre c i s \<longleftrightarrow> running c s \<and> idequeue s = [] \<and> \<not> ide_fault s \<and> i < length (bufs s) \<and>
     sl_locked (b_lock (bufs s ! i)) \<and> \<not> (b_valid (bufs s ! i) \<and> \<not> b_dirty (bufs s ! i)) \<and>
     b_dev (bufs s ! i) < 2 \<and> (b_dev (bufs s ! i) = 0 \<or> havedisk1 s) \<and> b_blockno (bufs s ! i) < FSSIZE"

lemma iderw_run:
  assumes "iderw_pre c i s"
  shows "\<exists>r. iderw i s = Done () ((if b_dirty (bufs s ! i)
      then disk_write (b_dev (bufs s ! i)) (b_blockno (bufs s ! i)) (b_data (bufs s ! i)) s else s)
    \<lparr>ide_regs := r, bufs := (bufs s)[i := synced (bufs s ! i) (disk s)], procs := map (wake_one (ChBuf i)) (procs s)\<rparr>)"
proof -
  note pre = assms [unfolded iderw_pre_def running_def]
  let ?b = "bufs s ! i"
  let ?s1 = "s\<lparr>held := {LkIde}, idequeue := [i]\<rparr>"
  obtain r where r: "ide_lba r = b_blockno ?b" "ide_drive r = b_dev ?b mod 2"
    "idestart i ?s1 = Done () (if b_dirty ?b then disk_write (b_dev ?b mod 2) (b_blockno ?b) (b_data ?b) (?s1\<lparr>ide_regs := r\<rparr>)
      else ?s1\<lparr>ide_regs := r\<rparr>)"
    using idestart_run [of ?s1 i] pre by auto
  define s2 where "s2 = (if b_dirty ?b then disk_write (b_dev ?b) (b_blockno ?b) (b_data ?b) (?s1\<lparr>ide_regs := r\<rparr>)
      else ?s1\<lparr>ide_regs := r\<rparr>)"
  have start: "idestart i ?s1 = Done () s2" using r(3) pre by (simp add: s2_def)
  have s2: "held s2 = {LkIde}" "curp s2 = curp s" "procs s2 = procs s" "bufs s2 = bufs s" "idequeue s2 = [i]"
    "ide_fault s2 = ide_fault s" "ide_regs s2 = r"
    by (simp_all add: s2_def disk_write_def)
  have dk: "b_dirty ?b \<or> disk s2 = disk s" by (simp add: s2_def)
  let ?u = "s2\<lparr>procs := (procs s2)[c := (procs s2 ! c)\<lparr>p_chan := Some (ChBuf i), p_state := SLEEPING\<rparr>], curp := None, held := {}\<rparr>"
  have sy: "synced ?b (disk s2) = synced ?b (disk s)" using dk by (auto simp: synced_def)
  have intr: "thn ideintr (ret ()) ?u = Done () (?u\<lparr>idequeue := [], bufs := (bufs s)[i := synced ?b (disk s)],
      procs := map (wake_one (ChBuf i)) (procs ?u)\<rparr>)"
    using pre s2 r sy by (simp add: kop_simps thn_Done [OF ideintr_one])
  have ps: "map (wake_one (ChBuf i)) (procs ?u)
      = (map (wake_one (ChBuf i)) (procs s2))[c := (procs s2 ! c)\<lparr>p_chan := Some (ChBuf i), p_state := RUNNABLE\<rparr>]"
    using pre s2 by (simp add: map_update wake_one_def)
  have "sleep_for (ChBuf i) LkIde (thn ideintr (ret ())) s2 = Done ()
     (?u\<lparr>idequeue := [], bufs := (bufs s)[i := synced ?b (disk s)],
      procs := map (wake_one (ChBuf i)) (procs ?u), held := {LkIde}, curp := Some c, procs := map (wake_one (ChBuf i)) (procs s2)\<rparr>)"
    using pre s2 intr ps by (intro sleep_for_woken) auto
  then show ?thesis
    using pre start s2
    by (intro exI [of _ r]) (simp add: iderw_def kop_simps thn_Done [of "idestart i"] thn_Done [of "sleep_for x y z" for x y z],
      simp add: s2_def synced_def disk_write_def)
qed

definition mem_iderw_pre :: "nat \<Rightarrow> nat \<Rightarrow> 'z ide_st_scheme \<Rightarrow> bool" where
  "mem_iderw_pre disksize i s \<longleftrightarrow> LkBuf i \<notin> held s \<and> i < length (bufs s) \<and>
     sl_locked (b_lock (bufs s ! i)) \<and> \<not> (b_valid (bufs s ! i) \<and> \<not> b_dirty (bufs s ! i)) \<and>
     b_dev (bufs s ! i) = 1 \<and> b_blockno (bufs s ! i) < disksize"

lemma mem_iderw_run:
  assumes "mem_iderw_pre n i s"
  shows "mem_iderw n i s = Done () ((if b_dirty (bufs s ! i)
      then disk_write (b_dev (bufs s ! i)) (b_blockno (bufs s ! i)) (b_data (bufs s ! i)) s else s)
    \<lparr>bufs := (bufs s)[i := synced (bufs s ! i) (disk s)]\<rparr>)"
proof (cases "b_dirty (bufs s ! i)")
  case True
  then have "(bufs s ! i)\<lparr>b_dirty := False, b_valid := True\<rparr> = synced (bufs s ! i) (disk s)"
    by (cases "bufs s ! i") (simp add: synced_def)
  with True assms show ?thesis
    by (simp add: mem_iderw_pre_def mem_iderw_def kop_simps disk_write_def)
next
  case False
  then have "(bufs s ! i)\<lparr>b_data := disk s (b_dev (bufs s ! i)) (b_blockno (bufs s ! i)), b_valid := True\<rparr> = synced (bufs s ! i) (disk s)"
    by (cases "bufs s ! i") (simp add: synced_def)
  with False assms show ?thesis
    by (simp add: mem_iderw_pre_def mem_iderw_def kop_simps)
qed

text \<open>Two states that differ only in what disk transfers change.\<close>

definition io_frame :: "'z ide_st_scheme \<Rightarrow> 'z ide_st_scheme \<Rightarrow> bool" where
  "io_frame s t \<longleftrightarrow> woken (procs s) (procs t) \<and>
     t\<lparr>procs := procs s, ide_regs := ide_regs s, bufs := bufs s, disk := disk s, diskw := diskw s\<rparr> = s"

definition write_to :: "(nat \<Rightarrow> nat \<Rightarrow> byte list) \<Rightarrow> buf \<Rightarrow> nat \<Rightarrow> nat \<Rightarrow> byte list" where
  "write_to dk b = (if b_dirty b then dk(b_dev b := (dk (b_dev b))(b_blockno b := b_data b)) else dk)"

definition writes_of :: "buf \<Rightarrow> (nat \<times> nat \<times> byte list) list" where
  "writes_of b = (if b_dirty b then [(b_dev b, b_blockno b, b_data b)] else [])"

text \<open>What the buffer cache relies on in a disk driver.\<close>

locale disk_driver =
  fixes rw :: "nat \<Rightarrow> ('z ide_st_scheme, unit) kop" and pre :: "nat \<Rightarrow> 'z ide_st_scheme \<Rightarrow> bool"
  assumes pre_index: "pre i s \<Longrightarrow> i < length (bufs s)"
    and rw_syncs: "pre i s \<Longrightarrow> \<exists>t. rw i s = Done () t \<and> bufs t = (bufs s)[i := synced (bufs s ! i) (disk s)] \<and>
      disk t = write_to (disk s) (bufs s ! i) \<and> diskw t = diskw s @ writes_of (bufs s ! i) \<and> io_frame s t"
begin

lemma rw_clean: "pre i s \<Longrightarrow> rw i s = Done () t \<Longrightarrow> b_valid (bufs t ! i) \<and> \<not> b_dirty (bufs t ! i)"
  using rw_syncs [of i s] pre_index [of i s] by (auto simp: synced_def)

lemma write_then_read:
  assumes "pre i s" "b_dirty (bufs s ! i)" "rw i s = Done () t"
    and "pre j t" "i \<noteq> j" "\<not> b_dirty (bufs t ! j)" "b_dev (bufs t ! j) = b_dev (bufs s ! i)"
      "b_blockno (bufs t ! j) = b_blockno (bufs s ! i)"
  shows "\<exists>u. rw j t = Done () u \<and> b_data (bufs u ! j) = b_data (bufs s ! i)"
proof -
  have "disk t = write_to (disk s) (bufs s ! i)" using rw_syncs [OF assms(1)] assms(3) by auto
  with rw_syncs [OF assms(4)] pre_index [OF assms(4)] assms show ?thesis
    by (auto simp: synced_def write_to_def)
qed

end

lemma io_frame_refl [simp]: "io_frame s s"
  by (simp add: io_frame_def)

interpretation ide: disk_driver iderw "\<lambda>i s. \<exists>c. iderw_pre c i s"
proof unfold_locales
  fix i and s :: "'a ide_st_scheme"
  show "\<exists>c. iderw_pre c i s \<Longrightarrow> i < length (bufs s)" by (auto simp: iderw_pre_def)
  assume "\<exists>c. iderw_pre c i s"
  then obtain c r where r: "iderw i s = Done () ((if b_dirty (bufs s ! i)
      then disk_write (b_dev (bufs s ! i)) (b_blockno (bufs s ! i)) (b_data (bufs s ! i)) s else s)
    \<lparr>ide_regs := r, bufs := (bufs s)[i := synced (bufs s ! i) (disk s)], procs := map (wake_one (ChBuf i)) (procs s)\<rparr>)"
    using iderw_run by blast
  show "\<exists>t. iderw i s = Done () t \<and> bufs t = (bufs s)[i := synced (bufs s ! i) (disk s)] \<and>
      disk t = write_to (disk s) (bufs s ! i) \<and> diskw t = diskw s @ writes_of (bufs s ! i) \<and> io_frame s t"
    unfolding r by (simp add: disk_write_def write_to_def writes_of_def io_frame_def)
qed

interpretation memide: disk_driver "mem_iderw n" "mem_iderw_pre n" for n
proof unfold_locales
  fix i and s :: "'a ide_st_scheme"
  show "mem_iderw_pre n i s \<Longrightarrow> i < length (bufs s)" by (simp add: mem_iderw_pre_def)
  assume "mem_iderw_pre n i s"
  from mem_iderw_run [OF this]
  show "\<exists>t. mem_iderw n i s = Done () t \<and> bufs t = (bufs s)[i := synced (bufs s ! i) (disk s)] \<and>
      disk t = write_to (disk s) (bufs s ! i) \<and> diskw t = diskw s @ writes_of (bufs s ! i) \<and> io_frame s t"
    by (simp add: disk_write_def write_to_def writes_of_def io_frame_def)
qed
section \<open>Properties\<close>

definition ide_st0 :: "buf list \<Rightarrow> (nat \<Rightarrow> nat \<Rightarrow> byte list) \<Rightarrow> ide_st" where
  "ide_st0 bs dk = \<lparr>held = {}, procs = [proc0\<lparr>p_state := RUNNING\<rparr>], curp = Some 0, nextpid = 2, initproc = 0,
     mem = (\<lambda>_. 0), freelist = 0, use_lock = True, kend = 0xFFFF800000150000, pipes = Map.empty,
     bufs = bs, idequeue = [], havedisk1 = True, ide_regs = (\<lambda>_. 0), ide_fault = False, disk = dk, diskw = []\<rparr>"



end
