(* ===== verification/Bio.thy ===== *)
theory Bio
  imports Ide
begin

text \<open>
  The buffer cache, src/bio.c, over the IDE driver. The list of buffers in order of use is
  \<open>lru\<close> (most recently used first); the last section shows that the pointer surgery of
  \<open>binit\<close> and \<open>brelse\<close> on the doubly linked list implements the operations on that list.

  The cache's contract is stated over what its clients see: the current contents \<open>kdata\<close> of
  every block, the set of blocks whose buffer is dirty, and the disk. \<open>bio_inv H s\<close> is the
  invariant with the buffers \<open>H\<close> locked by the running process.
\<close>

section \<open>Model\<close>

record bio_st = ide_st +
  lru :: "nat list"

definition binit :: "('z bio_st_scheme, unit) kop" where
  "binit = thn (modify (\<lambda>s. s\<lparr>lru := []\<rparr>)) (for_each [0..<NBUF] (\<lambda>b. steps
     [initsleeplock (put_block b), modify (\<lambda>s. s\<lparr>lru := b # lru s\<rparr>)]))"

definition lock_buf :: "nat \<Rightarrow> ('z bio_st_scheme, unit) kop" where
  "lock_buf b = acquiresleep (LkBuf b) (ChBufLock b) (get_block b) (put_block b)"

definition bget :: "nat \<Rightarrow> nat \<Rightarrow> ('z bio_st_scheme, nat) kop" where
  "bget dev blockno = thn (acquire LkBcache) (bnd (gets lru) (\<lambda>l. bnd (gets bufs) (\<lambda>bs.
     case find (\<lambda>b. b_dev (bs ! b) = dev \<and> b_blockno (bs ! b) = blockno) l of
       Some b \<Rightarrow>
         thn (upd_buf b (\<lambda>x. x\<lparr>b_refcnt := b_refcnt x + 1\<rparr>))
         (thn (release LkBcache) (thn (lock_buf b) (ret b)))
     | None \<Rightarrow> (case find (\<lambda>b. b_refcnt (bs ! b) = 0 \<and> \<not> b_dirty (bs ! b)) (rev l) of
         Some b \<Rightarrow>
           thn (upd_buf b (\<lambda>x. x\<lparr>b_dev := dev, b_blockno := blockno, b_valid := False,
                 b_dirty := False, b_refcnt := 1\<rparr>))
           (thn (release LkBcache) (thn (lock_buf b) (ret b)))
       | None \<Rightarrow> panic ''bget: no buffers''))))"

definition bread :: "nat \<Rightarrow> nat \<Rightarrow> ('z bio_st_scheme, nat) kop" where
  "bread dev blockno = bnd (bget dev blockno) (\<lambda>b. bnd (get_buf b) (\<lambda>x.
     thn (only_if (\<not> b_valid x) (iderw b)) (ret b)))"

definition bwrite :: "nat \<Rightarrow> ('z bio_st_scheme, unit) kop" where
  "bwrite b = bnd (holding_buf b) (\<lambda>h. steps
     [panic_if (\<not> h) ''bwrite'', upd_buf b (\<lambda>x. x\<lparr>b_dirty := True\<rparr>), iderw b])"

text \<open>The reference count is an unsigned word: below 0 it wraps.\<close>

definition brelse :: "nat \<Rightarrow> ('z bio_st_scheme, unit) kop" where
  "brelse b = bnd (holding_buf b) (\<lambda>h. thn (steps
     [panic_if (\<not> h) ''brelse'',
      releasesleep (LkBuf b) (ChBufLock b) (put_block b),
      acquire LkBcache,
      upd_buf b (\<lambda>x. x\<lparr>b_refcnt := (if b_refcnt x = 0 then 2 ^ 32 else b_refcnt x) - 1\<rparr>)])
     (bnd (get_buf b) (\<lambda>x. thn
       (only_if (b_refcnt x = 0) (modify (\<lambda>s. s\<lparr>lru := b # remove1 b (lru s)\<rparr>)))
       (release LkBcache))))"

section \<open>What the clients see\<close>

definition key :: "'z bio_st_scheme \<Rightarrow> nat \<Rightarrow> nat \<times> nat" where
  "key s i = (b_dev (bufs s ! i), b_blockno (bufs s ! i))"

definition kdata :: "'z bio_st_scheme \<Rightarrow> nat \<times> nat \<Rightarrow> byte list" where
  "kdata s k = (case find (\<lambda>i. key s i = k) [0..<NBUF] of
     Some i \<Rightarrow> b_data (bufs s ! i)
   | None \<Rightarrow> disk s (fst k) (snd k))"

definition dirty :: "'z bio_st_scheme \<Rightarrow> (nat \<times> nat) set" where
  "dirty s = {k. \<exists>i<NBUF. key s i = k \<and> b_dirty (bufs s ! i)}"

definition bio_inv :: "nat set \<Rightarrow> 'z bio_st_scheme \<Rightarrow> bool" where
  "bio_inv H s \<longleftrightarrow> length (bufs s) = NBUF \<and> distinct (lru s) \<and> set (lru s) = {..<NBUF} \<and> H \<subseteq> {..<NBUF} \<and>
     (\<forall>i<NBUF. \<forall>j<NBUF. key s i = key s j \<longrightarrow> b_dev (bufs s ! i) \<noteq> 0 \<longrightarrow> i = j) \<and>
     (\<forall>i<NBUF. sl_locked (b_lock (bufs s ! i)) = (i \<in> H) \<and> b_refcnt (bufs s ! i) = (if i \<in> H then 1 else 0) \<and>
        (b_dev (bufs s ! i) \<noteq> 0 \<longrightarrow> b_valid (bufs s ! i)) \<and>
        (i \<in> H \<or> b_dirty (bufs s ! i) \<longrightarrow> b_dev (bufs s ! i) \<noteq> 0) \<and>
        (i \<notin> H \<longrightarrow> b_dev (bufs s ! i) \<noteq> 0 \<longrightarrow> \<not> b_dirty (bufs s ! i) \<longrightarrow>
           b_data (bufs s ! i) = disk s (b_dev (bufs s ! i)) (b_blockno (bufs s ! i))))"

text \<open>The running process can do disk transfers.\<close>

definition io_ready :: "nat \<Rightarrow> 'z bio_st_scheme \<Rightarrow> bool" where
  "io_ready c s \<longleftrightarrow> running c s \<and> idequeue s = [] \<and> \<not> ide_fault s \<and> havedisk1 s"

definition bio_frame :: "'z bio_st_scheme \<Rightarrow> 'z bio_st_scheme \<Rightarrow> bool" where
  "bio_frame s t \<longleftrightarrow> woken (procs s) (procs t) \<and>
     t\<lparr>procs := procs s, ide_regs := ide_regs s, bufs := bufs s, disk := disk s, diskw := diskw s, lru := lru s\<rparr> = s"

text \<open>A block the driver accepts.\<close>

definition blk_ok :: "nat \<times> nat \<Rightarrow> bool" where
  "blk_ok k \<longleftrightarrow> 0 < fst k \<and> fst k < 2 \<and> snd k < FSSIZE"

text \<open>A buffer for the block can be had: it is cached, or some buffer is free and clean.\<close>

definition avail :: "'z bio_st_scheme \<Rightarrow> nat \<times> nat \<Rightarrow> bool" where
  "avail s k \<longleftrightarrow> (\<exists>i<NBUF. key s i = k) \<or> (\<exists>i<NBUF. b_refcnt (bufs s ! i) = 0 \<and> \<not> b_dirty (bufs s ! i))"

lemma bio_frame_refl [simp]: "bio_frame s s"
  by (simp add: bio_frame_def)

lemma bio_frame_trans:
  assumes "bio_frame s t" "bio_frame t u"
  shows "bio_frame s u"
proof -
  have "u\<lparr>procs := procs s, ide_regs := ide_regs s, bufs := bufs s, disk := disk s, diskw := diskw s, lru := lru s\<rparr>
     = (u\<lparr>procs := procs t, ide_regs := ide_regs t, bufs := bufs t, disk := disk t, diskw := diskw t, lru := lru t\<rparr>)
       \<lparr>procs := procs s, ide_regs := ide_regs s, bufs := bufs s, disk := disk s, diskw := diskw s, lru := lru s\<rparr>"
    by simp
  also have "\<dots> = s" using assms by (simp add: bio_frame_def)
  finally show ?thesis using assms woken_trans by (auto simp: bio_frame_def)
qed

lemma bio_frame_fields:
  assumes "bio_frame s t"
  shows "held t = held s" "curp t = curp s" "idequeue t = idequeue s" "ide_fault t = ide_fault s"
    "havedisk1 t = havedisk1 s" "mem t = mem s" "freelist t = freelist s" "use_lock t = use_lock s" "kend t = kend s"
    "pipes t = pipes s" "nextpid t = nextpid s" "initproc t = initproc s" "bio_st.more t = bio_st.more s"
proof -
  have eq: "t\<lparr>procs := procs s, ide_regs := ide_regs s, bufs := bufs s, disk := disk s, diskw := diskw s, lru := lru s\<rparr> = s"
    using assms by (simp add: bio_frame_def)
  show "held t = held s" using arg_cong [OF eq, of held] by simp
  show "curp t = curp s" using arg_cong [OF eq, of curp] by simp
  show "idequeue t = idequeue s" using arg_cong [OF eq, of idequeue] by simp
  show "ide_fault t = ide_fault s" using arg_cong [OF eq, of ide_fault] by simp
  show "havedisk1 t = havedisk1 s" using arg_cong [OF eq, of havedisk1] by simp
  show "mem t = mem s" using arg_cong [OF eq, of mem] by simp
  show "freelist t = freelist s" using arg_cong [OF eq, of freelist] by simp
  show "use_lock t = use_lock s" using arg_cong [OF eq, of use_lock] by simp
  show "kend t = kend s" using arg_cong [OF eq, of kend] by simp
  show "pipes t = pipes s" using arg_cong [OF eq, of pipes] by simp
  show "nextpid t = nextpid s" using arg_cong [OF eq, of nextpid] by simp
  show "initproc t = initproc s" using arg_cong [OF eq, of initproc] by simp
  show "bio_st.more t = bio_st.more s" using arg_cong [OF eq, of bio_st.more] by simp
qed

lemma io_ready_frame:
  assumes "io_ready c s" "bio_frame s t"
  shows "io_ready c t"
proof -
  have w: "woken (procs s) (procs t)" using assms(2) by (simp add: bio_frame_def)
  have r: "running c s" using assms(1) by (simp add: io_ready_def)
  then have "procs t ! c = procs s ! c" using woken_nth [OF w] by (simp add: running_def)
  then show ?thesis
    using assms(1) bio_frame_fields [OF assms(2)] woken_length [OF w] by (simp add: io_ready_def running_def)
qed

lemma bio_invD:
  assumes "bio_inv H s" and "i < NBUF"
  shows "sl_locked (b_lock (bufs s ! i)) \<longleftrightarrow> i \<in> H"
    and "b_refcnt (bufs s ! i) = (if i \<in> H then 1 else 0)"
    and "b_dev (bufs s ! i) \<noteq> 0 \<Longrightarrow> b_valid (bufs s ! i)"
    and "i \<in> H \<or> b_dirty (bufs s ! i) \<Longrightarrow> b_dev (bufs s ! i) \<noteq> 0"
    and "i \<notin> H \<Longrightarrow> b_dev (bufs s ! i) \<noteq> 0 \<Longrightarrow> \<not> b_dirty (bufs s ! i) \<Longrightarrow>
           b_data (bufs s ! i) = disk s (b_dev (bufs s ! i)) (b_blockno (bufs s ! i))"
    and "j < NBUF \<Longrightarrow> key s i = key s j \<Longrightarrow> b_dev (bufs s ! i) \<noteq> 0 \<Longrightarrow> i = j"
  using assms unfolding bio_inv_def by blast+

lemma bio_inv_shape:
  "bio_inv H s \<Longrightarrow> length (bufs s) = NBUF \<and> distinct (lru s) \<and> set (lru s) = {..<NBUF} \<and> H \<subseteq> {..<NBUF}"
  unfolding bio_inv_def by blast

lemma find_key:
  assumes "bio_inv H s" and "i < NBUF" and "key s i = k" and "fst k \<noteq> 0"
  shows "find (\<lambda>i. key s i = k) [0..<NBUF] = Some i"
proof -
  have uniq: "j = i" if "j < NBUF" "key s j = k" for j
    using bio_invD(6) [OF assms(1) that(1) assms(2)] assms(3,4) that by (auto simp: key_def)
  have "find (\<lambda>i. key s i = k) [0..<NBUF] \<noteq> None" using assms by (auto simp: find_None_iff)
  then show ?thesis using uniq by (auto simp: find_Some_iff)
qed

lemma kdata_cached:
  "bio_inv H s \<Longrightarrow> i < NBUF \<Longrightarrow> key s i = k \<Longrightarrow> fst k \<noteq> 0 \<Longrightarrow> kdata s k = b_data (bufs s ! i)"
  by (simp add: kdata_def find_key)

lemma kdata_uncached:
  assumes "\<And>i. i < NBUF \<Longrightarrow> key s i \<noteq> k"
  shows "kdata s k = disk s (fst k) (snd k)"
proof -
  have "find (\<lambda>i. key s i = k) [0..<NBUF] = None" using assms by (simp add: find_None_iff)
  then show ?thesis by (simp add: kdata_def)
qed

lemma kdata_clean:
  assumes "bio_inv H s" and "k \<notin> dirty s" and "fst k \<noteq> 0" and "\<And>i. i \<in> H \<Longrightarrow> key s i \<noteq> k"
  shows "kdata s k = disk s (fst k) (snd k)"
proof (cases "\<exists>i<NBUF. key s i = k")
  case True
  then obtain i where i: "i < NBUF" "key s i = k" by blast
  then have "i \<notin> H" "b_dev (bufs s ! i) \<noteq> 0" "\<not> b_dirty (bufs s ! i)"
    using assms(2-4) by (auto simp: dirty_def key_def)
  from bio_invD(5) [OF assms(1) i(1) this] show ?thesis
    using kdata_cached [OF assms(1) i assms(3)] i(2) by (auto simp: key_def)
qed (simp add: kdata_uncached)

section \<open>How the operations run\<close>

text \<open>How \<open>bget\<close> runs when the block is cached and when it is not.\<close>

lemma lock_buf_free:
  assumes "held s = {}" "curp s = Some c" "\<not> sl_locked (b_lock (bufs s ! b))"
  shows "lock_buf b s = Done () (put_block b \<lparr>sl_locked = True, sl_pid = p_pid (procs s ! c)\<rparr> s)"
  unfolding lock_buf_def using assms by (intro bl.acquiresleep_free) (auto simp: get_block_def)

lemma find_lru:
  assumes "set l = {..<NBUF}" "i < NBUF" "P i" "\<And>j. j < NBUF \<Longrightarrow> P j \<Longrightarrow> j = i"
  shows "find P l = Some i"
proof -
  have "find P l \<noteq> None" using assms by (auto simp: find_None_iff)
  then obtain j where "find P l = Some j" by auto
  moreover from this have "j \<in> set l" "P j" by (auto dest: find_set)
  ultimately show ?thesis using assms by auto
qed

lemma bget_hit:
  assumes "bio_inv H s" "running c s" "i < NBUF" "key s i = (d, b)" "d \<noteq> 0" "i \<notin> H"
  shows "bget d b s = Done i (s\<lparr>bufs := (bufs s)[i := (bufs s ! i)\<lparr>b_refcnt := 1,
     b_lock := \<lparr>sl_locked = True, sl_pid = p_pid (procs s ! c)\<rparr>\<rparr>]\<rparr>)"
proof -
  have f: "find (\<lambda>j. b_dev (bufs s ! j) = d \<and> b_blockno (bufs s ! j) = b) (lru s) = Some i"
  proof (rule find_lru)
    show "set (lru s) = {..<NBUF}" using bio_inv_shape [OF assms(1)] by simp
    show "i < NBUF" by (rule assms(3))
    show "b_dev (bufs s ! i) = d \<and> b_blockno (bufs s ! i) = b" using assms(4) by (simp add: key_def)
    fix j assume "j < NBUF" "b_dev (bufs s ! j) = d \<and> b_blockno (bufs s ! j) = b"
    then have "key s j = key s i" "b_dev (bufs s ! j) \<noteq> 0" "j < NBUF" using assms(4,5) by (simp_all add: key_def)
    then show "j = i" using bio_invD(6) [OF assms(1) _ assms(3)] by blast
  qed
  have len: "i < length (bufs s)" and ref: "b_refcnt (bufs s ! i) = 0" and free: "\<not> sl_locked (b_lock (bufs s ! i))"
    using bio_inv_shape [OF assms(1)] bio_invD(1,2) [OF assms(1,3)] assms(3,6) by auto
  have eq: "s\<lparr>bufs := x, held := {}\<rparr> = s\<lparr>bufs := x\<rparr>" for x using assms(2) by (simp add: running_def)
  let ?s = "s\<lparr>bufs := (bufs s)[i := (bufs s ! i)\<lparr>b_refcnt := 1\<rparr>]\<rparr>"
  have "lock_buf i ?s = Done () (put_block i \<lparr>sl_locked = True, sl_pid = p_pid (procs s ! c)\<rparr> ?s)"
    using lock_buf_free [of ?s c i] assms(2) free len by (simp add: running_def)
  then show ?thesis
    using assms(2) f len ref
    by (simp add: eq bget_def running_def kop_simps thn_Done [of "lock_buf i"] put_block_def)
qed

lemma bget_miss:
  assumes "bio_inv H s" "running c s" "\<And>i. i < NBUF \<Longrightarrow> key s i \<noteq> (d, b)" "avail s (d, b)"
  shows "\<exists>j<NBUF. j \<notin> H \<and> \<not> b_dirty (bufs s ! j) \<and>
    bget d b s = Done j (s\<lparr>bufs := (bufs s)[j := (bufs s ! j)\<lparr>b_dev := d, b_blockno := b, b_valid := False, b_dirty := False,
     b_refcnt := 1, b_lock := \<lparr>sl_locked = True, sl_pid = p_pid (procs s ! c)\<rparr>\<rparr>]\<rparr>)"
proof -
  note sh = bio_inv_shape [OF assms(1)]
  let ?P = "\<lambda>i. b_refcnt (bufs s ! i) = 0 \<and> \<not> b_dirty (bufs s ! i)"
  have "find ?P (rev (lru s)) \<noteq> None"
    using assms(3,4) sh by (auto simp: avail_def find_None_iff)
  then obtain j where j: "find ?P (rev (lru s)) = Some j" by auto
  then have j3: "j < NBUF" "?P j" using find_set [OF j] sh by auto
  have none: "find (\<lambda>i. b_dev (bufs s ! i) = d \<and> b_blockno (bufs s ! i) = b) (lru s) = None"
    using assms(3) sh by (auto simp: find_None_iff key_def)
  have jH: "j \<notin> H" and len: "j < length (bufs s)" and free: "\<not> sl_locked (b_lock (bufs s ! j))"
    using bio_invD(1,2) [OF assms(1) j3(1)] j3 sh by (auto split: if_splits)
  have eq: "s\<lparr>bufs := x, held := {}\<rparr> = s\<lparr>bufs := x\<rparr>" for x using assms(2) by (simp add: running_def)
  let ?s = "s\<lparr>bufs := (bufs s)[j := (bufs s ! j)\<lparr>b_dev := d, b_blockno := b, b_valid := False, b_dirty := False, b_refcnt := 1\<rparr>]\<rparr>"
  have "lock_buf j ?s = Done () (put_block j \<lparr>sl_locked = True, sl_pid = p_pid (procs s ! c)\<rparr> ?s)"
    using lock_buf_free [of ?s c j] assms(2) free len by (simp add: running_def)
  then have "bget d b s = Done j (s\<lparr>bufs := (bufs s)[j := (bufs s ! j)\<lparr>b_dev := d, b_blockno := b, b_valid := False, b_dirty := False,
     b_refcnt := 1, b_lock := \<lparr>sl_locked = True, sl_pid = p_pid (procs s ! c)\<rparr>\<rparr>]\<rparr>)"
    using assms(2) none j len
    by (simp add: eq bget_def running_def kop_simps thn_Done [of "lock_buf j"] put_block_def)
  with jH j3 show ?thesis by blast
qed

text \<open>What replacing one buffer does to the invariant and to what the clients see.\<close>

definition bkey :: "buf \<Rightarrow> nat \<times> nat" where
  "bkey B = (b_dev B, b_blockno B)"

lemma key_bkey: "key s i = bkey (bufs s ! i)"
  by (simp add: key_def bkey_def)

definition bio_set :: "nat set \<Rightarrow> nat set \<Rightarrow> nat \<Rightarrow> buf \<Rightarrow> 'z bio_st_scheme \<Rightarrow> 'z bio_st_scheme \<Rightarrow> bool" where
  "bio_set H H' j B s t \<longleftrightarrow> bio_inv H s \<and> j < NBUF \<and> bufs t = (bufs s)[j := B] \<and>
     distinct (lru t) \<and> set (lru t) = {..<NBUF} \<and> H' - {j} = H - {j} \<and>
     b_dev B \<noteq> 0 \<and> b_valid B \<and> (\<forall>i<NBUF. i \<noteq> j \<longrightarrow> key s i \<noteq> bkey B) \<and>
     sl_locked (b_lock B) = (j \<in> H') \<and> b_refcnt B = (if j \<in> H' then 1 else 0) \<and>
     (j \<notin> H' \<longrightarrow> \<not> b_dirty B \<longrightarrow> b_data B = disk t (b_dev B) (b_blockno B)) \<and>
     (\<forall>d b. (d, b) \<noteq> bkey B \<longrightarrow> disk t d b = disk s d b)"

lemma bio_set_nth:
  assumes "bio_set H H' j B s t" "i < NBUF"
  shows "bufs t ! i = (if i = j then B else bufs s ! i)" "key t i = (if i = j then bkey B else key s i)"
  using assms bio_inv_shape [of H s] by (auto simp: bio_set_def nth_list_update key_bkey)

lemma bio_set_others: "bio_set H H' j B s t \<Longrightarrow> i \<noteq> j \<Longrightarrow> i \<in> H' \<longleftrightarrow> i \<in> H"
  unfolding bio_set_def by blast

lemma bio_set_inv:
  assumes "bio_set H H' j B s t"
  shows "bio_inv H' t"
proof -
  note S = assms [unfolded bio_set_def]
  note inv = S [THEN conjunct1]
  have sub: "H' \<subseteq> {..<NBUF}" using S bio_inv_shape [OF inv] by blast
  have uniq: "i = k" if "i < NBUF" "k < NBUF" "key t i = key t k" "b_dev (bufs t ! i) \<noteq> 0" for i k
  proof (rule ccontr)
    assume "i \<noteq> k"
    with that S bio_invD(6) [OF inv that(1,2)] show False
      by (auto simp: bio_set_nth [OF assms] split: if_splits)
  qed
  have each: "sl_locked (b_lock (bufs t ! i)) = (i \<in> H') \<and> b_refcnt (bufs t ! i) = (if i \<in> H' then 1 else 0) \<and>
        (b_dev (bufs t ! i) \<noteq> 0 \<longrightarrow> b_valid (bufs t ! i)) \<and>
        (i \<in> H' \<or> b_dirty (bufs t ! i) \<longrightarrow> b_dev (bufs t ! i) \<noteq> 0) \<and>
        (i \<notin> H' \<longrightarrow> b_dev (bufs t ! i) \<noteq> 0 \<longrightarrow> \<not> b_dirty (bufs t ! i) \<longrightarrow>
           b_data (bufs t ! i) = disk t (b_dev (bufs t ! i)) (b_blockno (bufs t ! i)))" if i: "i < NBUF" for i
  proof (cases "i = j")
    case True
    with S i bio_inv_shape [OF inv] show ?thesis by simp
  next
    case False
    then have "disk t (b_dev (bufs s ! i)) (b_blockno (bufs s ! i)) = disk s (b_dev (bufs s ! i)) (b_blockno (bufs s ! i))"
      using S i by (simp add: key_def bkey_def)
    with False i show ?thesis
      using bio_invD(1-5) [OF inv i] by (simp add: bio_set_nth(1) [OF assms] bio_set_others [OF assms])
  qed
  have "length (bufs t) = NBUF" "distinct (lru t)" "set (lru t) = {..<NBUF}"
    using S bio_inv_shape [OF inv] by simp_all
  with sub uniq each show ?thesis unfolding bio_inv_def by blast
qed

lemma bio_set_kdata:
  assumes "bio_set H H' j B s t" "fst k \<noteq> 0"
  shows "kdata t k = (if k = bkey B then b_data B else if k = key s j then disk s (fst k) (snd k) else kdata s k)"
proof -
  note S = assms(1) [unfolded bio_set_def]
  note inv = S [THEN conjunct1]
  note inv' = bio_set_inv [OF assms(1)]
  have j: "j < NBUF" using S by blast
  show ?thesis
  proof (cases "k = bkey B")
    case True
    with kdata_cached [OF inv' j _ assms(2)] j show ?thesis by (simp add: bio_set_nth [OF assms(1)])
  next
    case False
    then have dk: "disk t (fst k) (snd k) = disk s (fst k) (snd k)" using S by (cases k) auto
    show ?thesis
    proof (cases "k = key s j")
      case True
      have "key t i \<noteq> k" if "i < NBUF" for i
        using that True False bio_invD(6) [OF inv that j] assms(2)
        by (auto simp: bio_set_nth [OF assms(1) that] key_bkey) (auto simp: bkey_def)
      from kdata_uncached [OF this] show ?thesis using True False dk by simp
    next
      case nj: False
      show ?thesis
      proof (cases "\<exists>i<NBUF. key s i = k")
        case True
        then obtain i where i: "i < NBUF" "key s i = k" by blast
        then have "i \<noteq> j" using nj by auto
        with kdata_cached [OF inv i assms(2)] kdata_cached [OF inv' i(1) _ assms(2)] i False nj
        show ?thesis by (simp add: bio_set_nth [OF assms(1)])
      next
        case none: False
        then have "key t i \<noteq> k" if "i < NBUF" for i
          using that False by (auto simp: bio_set_nth [OF assms(1)])
        from kdata_uncached [OF this] kdata_uncached [of s k] none False nj dk show ?thesis by auto
      qed
    qed
  qed
qed

lemma bio_set_dirty:
  assumes "bio_set H H' j B s t"
  shows "dirty t = (dirty s - {key s j}) \<union> (if b_dirty B then {bkey B} else {})"
proof -
  note S = assms [unfolded bio_set_def]
  note inv = S [THEN conjunct1]
  have j: "j < NBUF" using S by blast
  have keep: "i \<noteq> j \<longleftrightarrow> key s i \<noteq> key s j" if "i < NBUF" "b_dirty (bufs s ! i)" for i
    using bio_invD(4,6) [OF inv that(1)] that(2) j by auto
  have "k \<in> dirty t \<longleftrightarrow> k \<in> (dirty s - {key s j}) \<union> (if b_dirty B then {bkey B} else {})" for k
  proof -
    have "k \<in> dirty t \<longleftrightarrow> (\<exists>i<NBUF. i \<noteq> j \<and> key s i = k \<and> b_dirty (bufs s ! i)) \<or> b_dirty B \<and> k = bkey B"
      using j by (auto simp: dirty_def bio_set_nth [OF assms] split: if_splits)
    also have "\<dots> \<longleftrightarrow> k \<in> (dirty s - {key s j}) \<union> (if b_dirty B then {bkey B} else {})"
      using keep by (auto simp: dirty_def)
    finally show ?thesis .
  qed
  then show ?thesis by blast
qed

lemma io_frame_bio:
  fixes s t :: "'z bio_st_scheme"
  assumes "io_frame s t"
  shows "bio_frame s t" "lru t = lru s"
proof -
  have eq: "t\<lparr>procs := procs s, ide_regs := ide_regs s, bufs := bufs s, disk := disk s, diskw := diskw s\<rparr> = s"
    using assms by (simp add: io_frame_def)
  have "(t\<lparr>procs := procs s, ide_regs := ide_regs s, bufs := bufs s, disk := disk s, diskw := diskw s\<rparr>)\<lparr>lru := lru s\<rparr> = s"
    unfolding eq by simp
  then show "bio_frame s t" using assms by (simp add: io_frame_def bio_frame_def)
  show "lru t = lru s" using arg_cong [OF eq, of lru] by simp
qed

text \<open>The part of the contract all operations share.\<close>

definition bio_step :: "nat \<Rightarrow> nat set \<Rightarrow> 'z bio_st_scheme \<Rightarrow> 'z bio_st_scheme \<Rightarrow> bool" where
  "bio_step c H s t \<longleftrightarrow> bio_inv H t \<and> io_ready c t \<and> bio_frame s t"

lemma other_keys:
  assumes "bio_inv H s" "i < NBUF" "b_dev (bufs s ! i) \<noteq> 0"
  shows "\<forall>j<NBUF. j \<noteq> i \<longrightarrow> key s j \<noteq> key s i"
  using bio_invD(6) [OF assms(1,2)] assms(3) by metis

lemma not_dirty_key:
  assumes "bio_inv H s" "j < NBUF" "\<not> b_dirty (bufs s ! j)"
  shows "key s j \<notin> dirty s"
proof
  assume "key s j \<in> dirty s"
  then obtain i where i: "i < NBUF" "key s i = key s j" "b_dirty (bufs s ! i)" by (auto simp: dirty_def)
  then have "i = j" using bio_invD(4,6) [OF assms(1) i(1)] assms(2) by blast
  with i assms(3) show False by simp
qed

lemma dirty_key:
  assumes "bio_inv H s" "j < NBUF"
  shows "b_dirty (bufs s ! j) \<longleftrightarrow> key s j \<in> dirty s"
  using not_dirty_key [OF assms] assms(2) by (auto simp: dirty_def)

lemma bio_set_same_view:
  assumes S: "bio_set H H' j B s t" and dk: "disk t = disk s"
    and data: "b_data B = kdata s (bkey B)" and dd: "b_dirty B \<longleftrightarrow> bkey B \<in> dirty s"
    and ev: "key s j = bkey B \<or> j \<notin> H \<and> \<not> b_dirty (bufs s ! j)"
  shows "\<forall>k. fst k \<noteq> 0 \<longrightarrow> kdata t k = kdata s k" and "dirty t = dirty s"
proof -
  have inv: "bio_inv H s" and j: "j < NBUF" using S unfolding bio_set_def by blast+
  show "\<forall>k. fst k \<noteq> 0 \<longrightarrow> kdata t k = kdata s k"
  proof (intro allI impI)
    fix k :: "nat \<times> nat" assume k: "fst k \<noteq> 0"
    show "kdata t k = kdata s k"
    proof (cases "k = key s j \<and> k \<noteq> bkey B")
      case True
      then have "b_data (bufs s ! j) = disk s (fst k) (snd k)"
        using bio_invD(5) [OF inv j] ev k by (auto simp: key_def)
      with True kdata_cached [OF inv j _ k] bio_set_kdata [OF S k] show ?thesis by auto
    next
      case False
      with bio_set_kdata [OF S k] data show ?thesis by auto
    qed
  qed
  show "dirty t = dirty s"
    using bio_set_dirty [OF S] ev dd not_dirty_key [OF inv j] by auto
qed

lemma bread_hit:
  assumes inv: "bio_inv H s" and rdy: "io_ready c s" and k: "blk_ok (d, b)"
    and i: "i < NBUF" "key s i = (d, b)" and iH: "i \<notin> H"
  shows "\<exists>i B t. bread d b s = Done i t \<and> bio_set H (insert i H) i B s t \<and> i \<notin> H \<and> bkey B = (d, b) \<and>
      b_data B = kdata s (d, b) \<and> b_dirty B = ((d, b) \<in> dirty s) \<and> (key s i = (d, b) \<or> \<not> b_dirty (bufs s ! i)) \<and>
      disk t = disk s \<and> diskw t = diskw s \<and> bio_frame s t"
proof -
  note sh = bio_inv_shape [OF inv]
  have run: "running c s" using rdy by (simp add: io_ready_def)
  have d: "d \<noteq> 0" using k by (auto simp: blk_ok_def)
  let ?B = "(bufs s ! i)\<lparr>b_refcnt := 1, b_lock := \<lparr>sl_locked = True, sl_pid = p_pid (procs s ! c)\<rparr>\<rparr>"
  let ?t = "s\<lparr>bufs := (bufs s)[i := ?B]\<rparr>"
  have dev: "b_dev (bufs s ! i) \<noteq> 0" using i d by (simp add: key_def)
  have bk: "bkey ?B = (d, b)" using i by (simp add: bkey_def key_def)
  have S: "bio_set H (insert i H) i ?B s ?t"
    unfolding bio_set_def bk using inv i sh dev bio_invD(3) [OF inv i(1) dev] other_keys [OF inv i(1) dev]
    by simp
  have "bread d b s = Done i ?t"
    using sh i(1) bio_invD(3) [OF inv i(1) dev]
    by (simp add: bread_def bnd_Done [of "bget d b", OF bget_hit [OF inv run i d iH]] kop_simps)
  moreover have "b_data ?B = kdata s (d, b)" using kdata_cached [OF inv i] d by simp
  moreover have "b_dirty ?B = ((d, b) \<in> dirty s)" using dirty_key [OF inv i(1)] i(2) by simp
  moreover have "bio_frame s ?t" by (simp add: bio_frame_def)
  ultimately show ?thesis using S iH bk i by (intro exI [of _ i] exI [of _ ?B] exI [of _ ?t]) simp
qed

lemma bread_miss:
  assumes inv: "bio_inv H s" and rdy: "io_ready c s" and k: "blk_ok (d, b)"
    and av: "avail s (d, b)" and none: "\<And>i. i < NBUF \<Longrightarrow> key s i \<noteq> (d, b)"
  shows "\<exists>i B t. bread d b s = Done i t \<and> bio_set H (insert i H) i B s t \<and> i \<notin> H \<and> bkey B = (d, b) \<and>
      b_data B = kdata s (d, b) \<and> b_dirty B = ((d, b) \<in> dirty s) \<and> (key s i = (d, b) \<or> \<not> b_dirty (bufs s ! i)) \<and>
      disk t = disk s \<and> diskw t = diskw s \<and> bio_frame s t"
proof -
  note sh = bio_inv_shape [OF inv]
  have run: "running c s" using rdy by (simp add: io_ready_def)
  have d: "d \<noteq> 0" "d < 2" "b < FSSIZE" using k by (auto simp: blk_ok_def)
  obtain j where j: "j < NBUF" "j \<notin> H" "\<not> b_dirty (bufs s ! j)" and get:
    "bget d b s = Done j (s\<lparr>bufs := (bufs s)[j := (bufs s ! j)\<lparr>b_dev := d, b_blockno := b, b_valid := False, b_dirty := False,
      b_refcnt := 1, b_lock := \<lparr>sl_locked = True, sl_pid = p_pid (procs s ! c)\<rparr>\<rparr>]\<rparr>)"
    using bget_miss [OF inv run none av] by blast
  define B1 where "B1 = (bufs s ! j)\<lparr>b_dev := d, b_blockno := b, b_valid := False, b_dirty := False,
      b_refcnt := 1, b_lock := \<lparr>sl_locked = True, sl_pid = p_pid (procs s ! c)\<rparr>\<rparr>"
  define s1 where "s1 = s\<lparr>bufs := (bufs s)[j := B1]\<rparr>"
  have b1: "bufs s1 ! j = B1" using j sh by (simp add: s1_def)
  have "iderw_pre c j s1"
    using rdy d j sh by (simp add: iderw_pre_def io_ready_def running_def s1_def B1_def)
  then obtain t where t: "iderw j s1 = Done () t" "bufs t = (bufs s1)[j := synced (bufs s1 ! j) (disk s1)]"
    "disk t = write_to (disk s1) (bufs s1 ! j)" "diskw t = diskw s1 @ writes_of (bufs s1 ! j)" "io_frame s1 t"
    using ide.rw_syncs [of j s1] by blast
  let ?B = "synced B1 (disk s)"
  have dk: "disk t = disk s" "diskw t = diskw s"
    using t b1 by (simp_all add: write_to_def writes_of_def B1_def) (simp_all add: s1_def)
  have bk: "bkey ?B = (d, b)" by (simp add: bkey_def synced_def B1_def)
  have fr: "bio_frame s t"
    using io_frame_bio(1) [OF t(5)] bio_frame_trans [of s s1 t] by (simp add: s1_def bio_frame_def)
  have lru: "lru t = lru s" using io_frame_bio(2) [OF t(5)] by (simp add: s1_def)
  have bt: "bufs t = (bufs s)[j := ?B]" using t(2) b1 by (simp add: s1_def)
  have S: "bio_set H (insert j H) j ?B s t"
    unfolding bio_set_def bk using inv j sh d none bt lru dk by (simp add: synced_def B1_def)
  have "bread d b s = Done j t"
    using get t(1) b1 by (simp add: bread_def bnd_Done [of "bget d b", OF get [folded B1_def s1_def]] kop_simps thn_Done [of "iderw j", OF t(1)])
      (simp add: B1_def)
  moreover have "b_data ?B = kdata s (d, b)"
    using kdata_uncached [OF none] by (simp add: synced_def B1_def)
  moreover have "b_dirty ?B = ((d, b) \<in> dirty s)" using none by (auto simp: synced_def dirty_def)
  ultimately show ?thesis using S j bk dk fr by (intro exI [of _ j] exI [of _ ?B] exI [of _ t]) simp
qed

lemma bread_law:
  assumes inv: "bio_inv H s" and rdy: "io_ready c s" and k: "blk_ok (d, b)"
    and av: "avail s (d, b)" and new: "\<And>i. i \<in> H \<Longrightarrow> key s i \<noteq> (d, b)"
  shows "\<exists>i t. bread d b s = Done i t \<and> bio_step c (insert i H) s t \<and> i < NBUF \<and> i \<notin> H \<and> key t i = (d, b) \<and>
     b_data (bufs t ! i) = kdata s (d, b) \<and> b_dirty (bufs t ! i) = ((d, b) \<in> dirty s) \<and>
     (\<forall>j\<in>H. bufs t ! j = bufs s ! j) \<and>
     (\<forall>k. fst k \<noteq> 0 \<longrightarrow> kdata t k = kdata s k) \<and> dirty t = dirty s \<and> disk t = disk s \<and> diskw t = diskw s"
proof -
  note sh = bio_inv_shape [OF inv]
  have "\<exists>i B t. bread d b s = Done i t \<and> bio_set H (insert i H) i B s t \<and> i \<notin> H \<and> bkey B = (d, b) \<and>
      b_data B = kdata s (d, b) \<and> b_dirty B = ((d, b) \<in> dirty s) \<and> (key s i = (d, b) \<or> \<not> b_dirty (bufs s ! i)) \<and>
      disk t = disk s \<and> diskw t = diskw s \<and> bio_frame s t"
    using bread_hit [OF inv rdy k] bread_miss [OF inv rdy k av] new by blast
  then obtain i B t where r: "bread d b s = Done i t" and S: "bio_set H (insert i H) i B s t" and iH: "i \<notin> H"
    and B: "bkey B = (d, b)" "b_data B = kdata s (d, b)" "b_dirty B = ((d, b) \<in> dirty s)"
    and ev: "key s i = (d, b) \<or> \<not> b_dirty (bufs s ! i)" and dk: "disk t = disk s" "diskw t = diskw s" and fr: "bio_frame s t"
    by blast
  have i: "i < NBUF" using S unfolding bio_set_def by blast
  have view: "\<forall>k. fst k \<noteq> 0 \<longrightarrow> kdata t k = kdata s k" "dirty t = dirty s"
    using bio_set_same_view [OF S dk(1)] B ev iH by auto
  have "bufs t ! j = bufs s ! j" if "j \<in> H" for j
    using bio_set_nth(1) [OF S, of j] sh that iH by auto
  with r S iH i B view dk fr bio_set_nth [OF S i] bio_set_inv [OF S] io_ready_frame [OF rdy fr] show ?thesis
    unfolding bio_step_def by (intro exI [of _ i] exI [of _ t]) simp
qed
lemma bwrite_law:
  assumes inv: "bio_inv H s" and rdy: "io_ready c s" and i: "i \<in> H" and k: "blk_ok (key s i)"
  shows "\<exists>t. bwrite i s = Done () t \<and> bio_step c H s t \<and> key t i = key s i \<and>
     b_data (bufs t ! i) = b_data (bufs s ! i) \<and> (\<forall>j\<in>H - {i}. bufs t ! j = bufs s ! j) \<and>
     (\<forall>k. fst k \<noteq> 0 \<longrightarrow> kdata t k = kdata s k) \<and> dirty t = dirty s - {key s i} \<and>
     disk t = (disk s)(fst (key s i) := (disk s (fst (key s i)))(snd (key s i) := b_data (bufs s ! i))) \<and>
     diskw t = diskw s @ [(fst (key s i), snd (key s i), b_data (bufs s ! i))]"
proof -
  note sh = bio_inv_shape [OF inv]
  let ?x = "bufs s ! i"
  have i3: "i < NBUF" using sh i by auto
  have dev: "b_dev ?x \<noteq> 0" using bio_invD(4) [OF inv i3] i by blast
  define s1 where "s1 = s\<lparr>bufs := (bufs s)[i := ?x\<lparr>b_dirty := True\<rparr>]\<rparr>"
  have b1: "bufs s1 ! i = ?x\<lparr>b_dirty := True\<rparr>" using i3 sh by (simp add: s1_def)
  have "iderw_pre c i s1"
    using rdy k i3 sh bio_invD(1) [OF inv i3] i
    by (simp add: iderw_pre_def io_ready_def running_def s1_def blk_ok_def key_def)
  then obtain t where t: "iderw i s1 = Done () t" "bufs t = (bufs s1)[i := synced (bufs s1 ! i) (disk s1)]"
    "disk t = write_to (disk s1) (bufs s1 ! i)" "diskw t = diskw s1 @ writes_of (bufs s1 ! i)" "io_frame s1 t"
    using ide.rw_syncs [of i s1] by blast
  let ?B = "?x\<lparr>b_valid := True, b_dirty := False\<rparr>"
  have bt: "bufs t = (bufs s)[i := ?B]"
    using t(2) unfolding b1 by (simp add: s1_def synced_def)
  have bk: "bkey ?B = key s i" by (simp add: bkey_def key_def)
  have dk: "disk t = (disk s)(b_dev ?x := (disk s (b_dev ?x))(b_blockno ?x := b_data ?x))"
    "diskw t = diskw s @ [(b_dev ?x, b_blockno ?x, b_data ?x)]"
    using t(3,4) unfolding b1 by (simp_all add: write_to_def writes_of_def s1_def)
  have fr: "bio_frame s t"
    using io_frame_bio(1) [OF t(5)] bio_frame_trans [of s s1 t] by (simp add: s1_def bio_frame_def)
  have lru: "lru t = lru s" using io_frame_bio(2) [OF t(5)] by (simp add: s1_def)
  have other: "\<forall>d b. (d, b) \<noteq> key s i \<longrightarrow> disk t d b = disk s d b"
    unfolding dk by (auto simp: key_def)
  have S: "bio_set H H i ?B s t"
    unfolding bio_set_def bk using inv i i3 sh dev bt lru other other_keys [OF inv i3 dev] bio_invD(1,2) [OF inv i3]
    by simp
  have r: "bwrite i s = Done () t"
    using t(1) rdy i bio_invD(1) [OF inv i3] i3 sh
    by (simp add: bwrite_def kop_simps io_ready_def running_def s1_def thn_Done [of "iderw i"])
  have "kdata t k = kdata s k" if "fst k \<noteq> 0" for k
    using bio_set_kdata [OF S that] bk kdata_cached [OF inv i3 _ that] by auto
  moreover have "dirty t = dirty s - {key s i}" using bio_set_dirty [OF S] by simp
  moreover have "bufs t ! j = bufs s ! j" if "j \<in> H - {i}" for j
    using bio_set_nth(1) [OF S, of j] sh that by auto
  ultimately show ?thesis
    using r bio_set_inv [OF S] io_ready_frame [OF rdy fr] fr dk bio_set_nth [OF S i3] bk
    unfolding bio_step_def by (intro exI [of _ t]) (simp add: key_def)
qed

lemma brelse_law:
  assumes inv: "bio_inv H s" and rdy: "io_ready c s" and i: "i \<in> H"
    and coh: "b_dirty (bufs s ! i) \<or> b_data (bufs s ! i) = disk s (fst (key s i)) (snd (key s i))"
  shows "\<exists>t. brelse i s = Done () t \<and> bio_step c (H - {i}) s t \<and> key t i = key s i \<and> (\<forall>j\<in>H - {i}. bufs t ! j = bufs s ! j) \<and>
     (\<forall>k. fst k \<noteq> 0 \<longrightarrow> kdata t k = kdata s k) \<and> dirty t = dirty s \<and> disk t = disk s \<and> diskw t = diskw s"
proof -
  note sh = bio_inv_shape [OF inv]
  let ?x = "bufs s ! i"
  have i3: "i < NBUF" using sh i by auto
  have dev: "b_dev ?x \<noteq> 0" using bio_invD(4) [OF inv i3] i by blast
  let ?B = "?x\<lparr>b_lock := unlocked, b_refcnt := 0\<rparr>"
  let ?t = "s\<lparr>bufs := (bufs s)[i := ?B], lru := i # remove1 i (lru s), procs := map (wake_one (ChBufLock i)) (procs s)\<rparr>"
  have h: "held s = {}" using rdy by (simp add: io_ready_def running_def)
  have rel: "releasesleep (LkBuf i) (ChBufLock i) (put_block i) s =
    Done () (s\<lparr>bufs := (bufs s)[i := ?x\<lparr>b_lock := unlocked\<rparr>], procs := map (wake_one (ChBufLock i)) (procs s)\<rparr>)"
    using bl.releasesleep_run [of i s] h by (simp add: put_block_def)
  have r: "brelse i s = Done () ?t"
    using h i i3 sh bio_invD(1,2) [OF inv i3]
    by (simp add: brelse_def kop_simps thn_Done [of "releasesleep x y z" for x y z, OF rel])
  have bk: "bkey ?B = key s i" by (simp add: bkey_def key_def)
  have fr: "bio_frame s ?t" by (simp add: bio_frame_def)
  have S: "bio_set H (H - {i}) i ?B s ?t"
    unfolding bio_set_def bk using inv i i3 sh dev coh other_keys [OF inv i3 dev] bio_invD(3) [OF inv i3 dev]
    by (simp add: unlocked_def key_def insert_absorb) blast
  have view: "\<forall>k. fst k \<noteq> 0 \<longrightarrow> kdata ?t k = kdata s k" "dirty ?t = dirty s"
    using bio_set_same_view [OF S] bk kdata_cached [OF inv i3] dirty_key [OF inv i3] dev by (simp_all add: key_def)
  have "bufs ?t ! j = bufs s ! j" if "j \<in> H - {i}" for j
    using bio_set_nth(1) [OF S, of j] sh that by auto
  then show ?thesis
    using r bio_set_inv [OF S] io_ready_frame [OF rdy fr] fr view bio_set_nth(2) [OF S i3] bk
    unfolding bio_step_def by (intro exI [of _ ?t]) simp
qed

lemma set_data_law:
  assumes inv: "bio_inv H s" and rdy: "io_ready c s" and i: "i \<in> H"
  shows "\<exists>t. upd_buf i (\<lambda>x. x\<lparr>b_data := new\<rparr>) s = Done () t \<and> bio_step c H s t \<and> key t i = key s i \<and>
     b_data (bufs t ! i) = new \<and> b_dirty (bufs t ! i) = b_dirty (bufs s ! i) \<and> (\<forall>j\<in>H - {i}. bufs t ! j = bufs s ! j) \<and>
     (\<forall>k. fst k \<noteq> 0 \<longrightarrow> kdata t k = (if k = key s i then new else kdata s k)) \<and> dirty t = dirty s \<and>
     disk t = disk s \<and> diskw t = diskw s"
proof -
  note sh = bio_inv_shape [OF inv]
  let ?x = "bufs s ! i"
  have i3: "i < NBUF" using sh i by auto
  have dev: "b_dev ?x \<noteq> 0" using bio_invD(4) [OF inv i3] i by blast
  let ?B = "?x\<lparr>b_data := new\<rparr>" let ?t = "s\<lparr>bufs := (bufs s)[i := ?B]\<rparr>"
  have bk: "bkey ?B = key s i" by (simp add: bkey_def key_def)
  have fr: "bio_frame s ?t" by (simp add: bio_frame_def)
  have S: "bio_set H H i ?B s ?t"
    unfolding bio_set_def bk using inv i i3 sh dev other_keys [OF inv i3 dev] bio_invD(1-3) [OF inv i3]
    by simp
  have "dirty ?t = dirty s"
    using bio_set_dirty [OF S] bk dirty_key [OF inv i3] by (auto simp: insert_absorb)
  moreover have "bufs ?t ! j = bufs s ! j" if "j \<in> H - {i}" for j
    using bio_set_nth(1) [OF S, of j] sh that by auto
  ultimately show ?thesis
    using bio_set_inv [OF S] io_ready_frame [OF rdy fr] fr bio_set_kdata [OF S] bio_set_nth [OF S i3] bk
    unfolding bio_step_def by (intro exI [of _ ?t]) (simp add: kop_simps)
qed
section \<open>The doubly linked list\<close>

text \<open>
  The links of the buffers, with the list head as node \<open>NBUF\<close>: \<open>next\<close> and \<open>prev\<close> are the
  components. \<open>dll_insert\<close> is the code that links a buffer in at the front (in \<open>binit\<close> and
  at the end of \<open>brelse\<close>), \<open>dll_unlink\<close> the code that takes it out.
\<close>

record links =
  lnext :: "nat \<Rightarrow> nat"
  lprev :: "nat \<Rightarrow> nat"

definition dll_insert :: "nat \<Rightarrow> links \<Rightarrow> links" where
  "dll_insert b ln =
     (let ln = ln\<lparr>lnext := (lnext ln)(b := lnext ln NBUF)\<rparr>;
          ln = ln\<lparr>lprev := (lprev ln)(b := NBUF)\<rparr>;
          ln = ln\<lparr>lprev := (lprev ln)(lnext ln NBUF := b)\<rparr>
      in ln\<lparr>lnext := (lnext ln)(NBUF := b)\<rparr>)"

definition dll_unlink :: "nat \<Rightarrow> links \<Rightarrow> links" where
  "dll_unlink b ln =
     (let ln = ln\<lparr>lprev := (lprev ln)(lnext ln b := lprev ln b)\<rparr>
      in ln\<lparr>lnext := (lnext ln)(lprev ln b := lnext ln b)\<rparr>)"

fun dll_path :: "links \<Rightarrow> nat \<Rightarrow> nat list \<Rightarrow> nat \<Rightarrow> bool" where
  "dll_path ln a [] z \<longleftrightarrow> lnext ln a = z \<and> lprev ln z = a"
| "dll_path ln a (x # xs) z \<longleftrightarrow> lnext ln a = x \<and> lprev ln x = a \<and> dll_path ln x xs z"

definition dll :: "links \<Rightarrow> nat list \<Rightarrow> bool" where
  "dll ln l \<longleftrightarrow> dll_path ln NBUF l NBUF \<and> distinct (NBUF # l)"

lemma dll_path_append:
  "dll_path ln a (xs @ b # ys) z \<longleftrightarrow> dll_path ln a xs b \<and> dll_path ln b ys z"
  by (induction xs arbitrary: a) auto

lemma dll_path_frame:
  assumes "dll_path ln a xs z" and "\<And>x. x \<in> set (a # xs) \<Longrightarrow> lnext ln' x = lnext ln x"
    and "\<And>x. x \<in> set (xs @ [z]) \<Longrightarrow> lprev ln' x = lprev ln x"
  shows "dll_path ln' a xs z"
  using assms by (induction xs arbitrary: a) auto

lemma dll_path_front:
  assumes "dll_path ln a xs z" and "distinct xs" "z \<notin> set xs"
    and "lnext ln' b = lnext ln a" "lprev ln' (lnext ln a) = b"
    and "\<And>x. x \<in> set xs \<Longrightarrow> lnext ln' x = lnext ln x"
    and "\<And>x. x \<in> set (xs @ [z]) \<Longrightarrow> x \<noteq> lnext ln a \<Longrightarrow> lprev ln' x = lprev ln x"
  shows "dll_path ln' b xs z"
proof (cases xs)
  case (Cons x ys)
  then have "dll_path ln x ys z" "lnext ln a = x" using assms(1) by auto
  have "dll_path ln' x ys z"
  proof (rule dll_path_frame [OF \<open>dll_path ln x ys z\<close>])
    show "lnext ln' y = lnext ln y" if "y \<in> set (x # ys)" for y using assms(6) that Cons by simp
    show "lprev ln' y = lprev ln y" if "y \<in> set (ys @ [z])" for y
      using assms(7) [of y] assms(2,3) that Cons \<open>lnext ln a = x\<close> by auto
  qed
  then show ?thesis using Cons assms(4,5) \<open>lnext ln a = x\<close> by simp
qed (use assms in auto)

lemma dll_insert_front:
  assumes "dll ln l" and "b \<notin> set l" "b \<noteq> NBUF"
  shows "dll (dll_insert b ln) (b # l)"
proof -
  have p: "dll_path ln NBUF l NBUF" and d: "distinct l" "NBUF \<notin> set l" using assms(1) by (auto simp: dll_def)
  have "dll_path (dll_insert b ln) b l NBUF"
    using assms d by (intro dll_path_front [OF p d]) (auto simp: dll_insert_def Let_def)
  moreover have "lnext ln NBUF \<noteq> b" using p assms by (cases l) auto
  ultimately show ?thesis using assms d by (auto simp: dll_def dll_insert_def Let_def)
qed

lemma dll_unlink_remove:
  assumes "dll ln (xs @ b # ys)"
  shows "dll (dll_unlink b ln) (xs @ ys)"
proof -
  have p: "dll_path ln NBUF xs b" "dll_path ln b ys NBUF" and d: "distinct (NBUF # xs @ b # ys)"
    using assms by (auto simp: dll_def dll_path_append)
  obtain z where z: "lnext ln b = z" "z \<in> set (ys @ [NBUF])" using p(2) by (cases ys) auto
  define ln' where "ln' = dll_unlink b ln"
  have zb: "z \<noteq> b" using z d by auto
  have ln': "lnext ln' = (lnext ln)(lprev ln b := z)" "lprev ln' = (lprev ln)(z := lprev ln b)"
    using zb by (simp_all add: ln'_def dll_unlink_def Let_def z)
  have front: "dll_path ln' w ys NBUF" if "lprev ln b = w" "w \<notin> set ys" for w
    using that d z by (intro dll_path_front [OF p(2)]) (auto simp: ln')
  have "dll_path ln' NBUF (xs @ ys) NBUF"
  proof (cases xs rule: rev_cases)
    case Nil
    then show ?thesis using front [of NBUF] p(1) d by simp
  next
    case (snoc xs' w)
    then have q: "dll_path ln NBUF xs' w" "lprev ln b = w" using p(1) by (auto simp: dll_path_append)
    have "dll_path ln' NBUF xs' w"
    proof (rule dll_path_frame [OF q(1)])
      show "lnext ln' x = lnext ln x" if "x \<in> set (NBUF # xs')" for x using that d snoc q(2) by (auto simp: ln')
      show "lprev ln' x = lprev ln x" if "x \<in> set (xs' @ [w])" for x using that d snoc z by (auto simp: ln')
    qed
    then show ?thesis using front [OF q(2)] d snoc by (simp add: dll_path_append)
  qed
  then show ?thesis using d by (auto simp: dll_def ln'_def)
qed

section \<open>The cache at boot\<close>

definition buf0 :: buf where
  "buf0 = \<lparr>b_valid = False, b_dirty = False, b_dev = 0, b_blockno = 0, b_lock = unlocked, b_refcnt = 0,
     b_data = replicate BSIZE 0\<rparr>"

definition bio_st0 :: "(nat \<Rightarrow> nat \<Rightarrow> byte list) \<Rightarrow> bio_st" where
  "bio_st0 dk = \<lparr>held = {}, procs = [proc0\<lparr>p_state := RUNNING\<rparr>], curp = Some 0, nextpid = 2, initproc = 0,
     mem = (\<lambda>_. 0), freelist = 0, use_lock = True, kend = 0xFFFF800000150000, pipes = Map.empty,
     bufs = replicate NBUF buf0, idequeue = [], havedisk1 = True, ide_regs = (\<lambda>_. 0), ide_fault = False,
     disk = dk, diskw = [], lru = []\<rparr>"

lemma binit_loop:
  assumes "length (bufs s) = NBUF" "\<forall>i<NBUF. b_lock (bufs s ! i) = unlocked" "set bs \<subseteq> {..<NBUF}"
  shows "for_each bs (\<lambda>b. steps [initsleeplock (put_block b), modify (\<lambda>s. s\<lparr>lru := b # lru s\<rparr>)]) s
    = Done () (s\<lparr>lru := rev bs @ lru s\<rparr>)"
  using assms
proof (induction bs arbitrary: s)
  case (Cons b bs)
  have "(bufs s ! b)\<lparr>b_lock := unlocked\<rparr> = bufs s ! b"
    using Cons.prems by (cases "bufs s ! b") auto
  then have "put_block b unlocked s = s" by (simp add: put_block_def)
  then show ?case using Cons by (simp add: kop_simps initsleeplock_def)
qed (simp add: kop_simps)

lemma binit_inv:
  assumes "bufs s = replicate NBUF buf0"
  shows "\<exists>t. binit s = Done () t \<and> bio_inv {} t \<and> t = s\<lparr>lru := rev [0..<NBUF]\<rparr>"
proof -
  have "binit s = Done () (s\<lparr>lru := rev [0..<NBUF]\<rparr>)"
    using assms binit_loop [of "s\<lparr>lru := []\<rparr>" "[0..<NBUF]"]
    by (simp add: binit_def kop_simps buf0_def atLeast0LessThan del: upt_conv_Cons)
  moreover have "bio_inv {} (s\<lparr>lru := rev [0..<NBUF]\<rparr>)"
    using assms by (simp add: bio_inv_def key_def buf0_def unlocked_def atLeast0LessThan del: upt_conv_Cons)
  ultimately show ?thesis by blast
qed

section \<open>Properties\<close>

text \<open>
  C20. The pointer surgery of \<open>brelse\<close> and \<open>binit\<close> is right: unlinking a buffer of the list
  and linking it in at the head leaves a well-formed circular doubly linked list in which
  that buffer comes first and the others keep their order.
\<close>

theorem brelse_moves_to_front:
  assumes "dll ln l" and "b \<in> set l"
  shows "dll (dll_insert b (dll_unlink b ln)) (b # remove1 b l)"
proof -
  obtain xs ys where l: "l = xs @ b # ys" "b \<notin> set xs" using split_list_first [OF assms(2)] by blast
  have "b \<notin> set (xs @ ys)" "b \<noteq> NBUF" using assms(1) l by (auto simp: dll_def)
  then show ?thesis
    using dll_insert_front [OF dll_unlink_remove [of ln xs b ys], of b] assms(1) l by (simp add: remove1_append)
qed
theorem brelse_moves_to_front_witness:
  "let ln = dll_insert 1 (dll_insert 0 \<lparr>lnext = (\<lambda>_. NBUF), lprev = (\<lambda>_. NBUF)\<rparr>)
   in dll (dll_insert 0 (dll_unlink 0 ln)) [0, 1]"
proof -
  let ?ln = "dll_insert 1 (dll_insert 0 \<lparr>lnext = (\<lambda>_. NBUF), lprev = (\<lambda>_. NBUF)\<rparr>)"
  have "dll ?ln [1, 0]" by (simp add: dll_def dll_insert_def Let_def)
  from brelse_moves_to_front [OF this, of 0] show ?thesis by (simp add: Let_def)
qed

text \<open>
  C19. What is written is read: writing new contents to a block through the cache and
  releasing it puts them on disk, and the next \<open>bread\<close> of the block returns them; the
  contents of every other block are as before, whatever was evicted on the way.
\<close>

theorem bwrite_bread_roundtrip:
  assumes "bio_inv {} s" "io_ready c s" "blk_ok (d, b)" "avail s (d, b)"
  shows "\<exists>j u. bnd (bread d b) (\<lambda>i. thn (upd_buf i (\<lambda>x. x\<lparr>b_data := new\<rparr>))
       (thn (bwrite i) (thn (brelse i) (bread d b)))) s = Done j u \<and>
     b_data (bufs u ! j) = new \<and> disk u d b = new \<and> diskw u = diskw s @ [(d, b, new)] \<and> bio_inv {j} u \<and>
     (\<forall>k. fst k \<noteq> 0 \<longrightarrow> k \<noteq> (d, b) \<longrightarrow> kdata u k = kdata s k)"
proof -
  obtain i s1 where 1: "bread d b s = Done i s1" "bio_step c {i} s s1" "i < NBUF" "key s1 i = (d, b)"
    "\<forall>k. fst k \<noteq> 0 \<longrightarrow> kdata s1 k = kdata s k" "diskw s1 = diskw s"
    using bread_law [OF assms] by auto
  obtain s2 where 2: "upd_buf i (\<lambda>x. x\<lparr>b_data := new\<rparr>) s1 = Done () s2" "bio_step c {i} s1 s2" "key s2 i = (d, b)"
    "b_data (bufs s2 ! i) = new" "\<forall>k. fst k \<noteq> 0 \<longrightarrow> kdata s2 k = (if k = (d, b) then new else kdata s1 k)" "diskw s2 = diskw s1"
    using set_data_law [of "{i}" s1 c i new] 1 by (auto simp: bio_step_def)
  obtain s3 where 3: "bwrite i s2 = Done () s3" "bio_step c {i} s2 s3" "key s3 i = (d, b)" "b_data (bufs s3 ! i) = new"
    "\<forall>k. fst k \<noteq> 0 \<longrightarrow> kdata s3 k = kdata s2 k" "disk s3 d b = new" "diskw s3 = diskw s2 @ [(d, b, new)]"
    using bwrite_law [of "{i}" s2 c i] 2 assms(3) by (auto simp: bio_step_def)
  obtain s4 where 4: "brelse i s3 = Done () s4" "bio_step c {} s3 s4" "key s4 i = (d, b)"
    "\<forall>k. fst k \<noteq> 0 \<longrightarrow> kdata s4 k = kdata s3 k" "disk s4 = disk s3" "diskw s4 = diskw s3"
    using brelse_law [of "{i}" s3 c i] 3 by (auto simp: bio_step_def)
  have "avail s4 (d, b)" using 4(3) 1(3) by (auto simp: avail_def)
  then obtain j s5 where 5: "bread d b s4 = Done j s5" "bio_step c {j} s4 s5" "b_data (bufs s5 ! j) = kdata s4 (d, b)"
    "\<forall>k. fst k \<noteq> 0 \<longrightarrow> kdata s5 k = kdata s4 k" "disk s5 = disk s4" "diskw s5 = diskw s4"
    using bread_law [of "{}" s4 c d b] 4(2) assms(3) by (auto simp: bio_step_def)
  have "fst (d, b) \<noteq> 0" using assms(3) by (simp add: blk_ok_def)
  then have "kdata s4 (d, b) = new" using 2 3 4 by simp
  with 1 2 3 4 5 show ?thesis
    by (intro exI [of _ j] exI [of _ s5]) (simp add: bnd_def thn_def bio_step_def)
qed

theorem bwrite_bread_roundtrip_witness:
  "\<exists>t j u. binit (bio_st0 (\<lambda>_ _. replicate BSIZE 0)) = Done () t \<and>
     bnd (bread 1 7) (\<lambda>i. thn (upd_buf i (\<lambda>x. x\<lparr>b_data := replicate BSIZE 5\<rparr>))
       (thn (bwrite i) (thn (brelse i) (bread 1 7)))) t = Done j u \<and> b_data (bufs u ! j) = replicate BSIZE 5"
proof -
  let ?s = "bio_st0 (\<lambda>_ _. replicate BSIZE 0)"
  obtain t where t: "binit ?s = Done () t" "bio_inv {} t" "t = ?s\<lparr>lru := rev [0..<NBUF]\<rparr>"
    using binit_inv [of ?s] by (auto simp: bio_st0_def)
  have "io_ready 0 t" by (simp add: t(3) io_ready_def running_def bio_st0_def proc0_def)
  moreover have "avail t (1, 7)"
    unfolding avail_def by (rule disjI2, rule exI [of _ 0]) (simp add: t(3) bio_st0_def buf0_def)
  moreover have "blk_ok (1, 7)" by (simp add: blk_ok_def)
  ultimately show ?thesis
    using bwrite_bread_roundtrip [OF t(2), of 0 1 7 "replicate BSIZE 5"] t(1) by blast
qed

end
