(* ===== verification/Log.thy ===== *)
theory Log
  imports Bio
begin

text \<open>
  The log, src/log.c, over the buffer cache, and \<open>readsb\<close> of src/fs.c, which \<open>initlog\<close> calls.
  The fields of \<open>struct log\<close> extend the state; the header's array \<open>block\<close> is a list of
  \<open>LOGSIZE\<close> block numbers of which the first \<open>n\<close> count. The contract of the log is stated over
  what the cache's clients see: the order of the disk writes of \<open>commit\<close>, and that recovery
  after a crash between any two of them finds all of a transaction or nothing of it.
\<close>

section \<open>Model\<close>

record log_st = bio_st +
  log_start :: nat
  log_size :: nat
  log_outstanding :: int
  log_committing :: bool
  log_dev :: nat
  lh_n :: int
  lh_block :: "nat list"

record superblock =
  sb_size :: nat
  sb_nblocks :: nat
  sb_ninodes :: nat
  sb_nlog :: nat
  sb_logstart :: nat
  sb_inodestart :: nat
  sb_bmapstart :: nat

definition u32_at :: "nat \<Rightarrow> byte list \<Rightarrow> nat" where
  "u32_at off d = le_val (slice off 4 d)"

definition signed32 :: "nat \<Rightarrow> int" where
  "signed32 v = (if v < 2 ^ 31 then int v else int v - 2 ^ 32)"

definition sb_of :: "byte list \<Rightarrow> superblock" where
  "sb_of d = \<lparr>sb_size = u32_at 0 d, sb_nblocks = u32_at 4 d, sb_ninodes = u32_at 8 d, sb_nlog = u32_at 12 d,
     sb_logstart = u32_at 16 d, sb_inodestart = u32_at 20 d, sb_bmapstart = u32_at 24 d\<rparr>"

definition readsb :: "nat \<Rightarrow> ('z bio_st_scheme, superblock) kop" where
  "readsb dev = bnd (bread dev 1) (\<lambda>bp. bnd (get_buf bp) (\<lambda>x. thn (brelse bp) (ret (sb_of (b_data x)))))"

text \<open>\<open>memmove(dst->data, src->data, BSIZE); bwrite(dst); brelse(src); brelse(dst)\<close>.\<close>

definition copy_buf :: "nat \<Rightarrow> nat \<Rightarrow> ('z bio_st_scheme, unit) kop" where
  "copy_buf src dst = bnd (get_buf src) (\<lambda>x. steps
     [upd_buf dst (\<lambda>y. y\<lparr>b_data := b_data x\<rparr>), bwrite dst, brelse src, brelse dst])"

definition install_trans :: "('z log_st_scheme, unit) kop" where
  "install_trans = bnd (gets lh_n) (\<lambda>n. for_each [0..<nat n] (\<lambda>tail. bnd (gets id) (\<lambda>s.
     bnd (bread (log_dev s) (log_start s + tail + 1)) (\<lambda>lbuf.
     bnd (bread (log_dev s) (lh_block s ! tail)) (\<lambda>dbuf. copy_buf lbuf dbuf)))))"

text \<open>
  The on-disk header: \<open>n\<close> and then the block numbers, each four bytes. A header whose \<open>n\<close>
  exceeds \<open>LOGSIZE\<close> would make \<open>read_head\<close> write past the end of \<open>log.lh.block\<close>.
\<close>

definition hdr_n :: "byte list \<Rightarrow> int" where
  "hdr_n d = signed32 (u32_at 0 d)"

definition hdr_block :: "byte list \<Rightarrow> nat \<Rightarrow> nat" where
  "hdr_block d i = u32_at (4 + 4 * i) d"

definition read_head :: "('z log_st_scheme, unit) kop" where
  "read_head = bnd (gets id) (\<lambda>s. bnd (bread (log_dev s) (log_start s)) (\<lambda>b. bnd (get_buf b) (\<lambda>x.
     let n = hdr_n (b_data x) in steps
     [panic_if (n > int LOGSIZE) ''read_head: write past the end of lh.block'',
      modify (\<lambda>s. s\<lparr>lh_n := n,
        lh_block := map (hdr_block (b_data x)) [0..<nat n] @ drop (nat n) (lh_block s)\<rparr>),
      brelse b])))"

fun put_blocks :: "nat list \<Rightarrow> nat \<Rightarrow> byte list \<Rightarrow> byte list" where
  "put_blocks [] i d = d"
| "put_blocks (b # bs) i d = put_blocks bs (Suc i) (put_at (4 + 4 * i) (le_bytes 4 b) d)"

definition hdr_put :: "int \<Rightarrow> nat list \<Rightarrow> byte list \<Rightarrow> byte list" where
  "hdr_put n bs d = put_blocks (take (nat n) bs) 0 (put_at 0 (le_bytes 4 (nat (n mod 2 ^ 32))) d)"

definition write_head :: "('z log_st_scheme, unit) kop" where
  "write_head = bnd (gets id) (\<lambda>s. bnd (bread (log_dev s) (log_start s)) (\<lambda>b. steps
     [upd_buf b (\<lambda>x. x\<lparr>b_data := hdr_put (lh_n s) (lh_block s) (b_data x)\<rparr>), bwrite b, brelse b]))"

definition clear_head :: "('z log_st_scheme, unit) kop" where
  "clear_head = thn (modify (\<lambda>s. s\<lparr>lh_n := 0\<rparr>)) write_head"

definition recover_from_log :: "('z log_st_scheme, unit) kop" where
  "recover_from_log = steps [read_head, install_trans, clear_head]"

definition initlog :: "nat \<Rightarrow> ('z log_st_scheme, unit) kop" where
  "initlog dev = thn (panic_if (4 + 4 * LOGSIZE \<ge> BSIZE) ''initlog: too big logheader'')
     (bnd (readsb dev) (\<lambda>sb.
       thn (modify (\<lambda>s. s\<lparr>log_start := sb_logstart sb, log_size := sb_nlog sb, log_dev := dev\<rparr>))
       recover_from_log))"

text \<open>\<open>begin_op\<close>; \<open>begin_op_resume\<close> is what a process that slept in it goes on with.\<close>

definition begin_op_loop :: "('z log_st_scheme, unit) kop" where
  "begin_op_loop = bnd (gets id) (\<lambda>s.
     if log_committing s then sleep ChLog LkLog
     else if lh_n s + (log_outstanding s + 1) * int MAXOPBLOCKS > int LOGSIZE then sleep ChLog LkLog
     else thn (modify (\<lambda>s. s\<lparr>log_outstanding := log_outstanding s + 1\<rparr>)) (release LkLog))"

definition begin_op :: "('z log_st_scheme, unit) kop" where
  "begin_op = thn (acquire LkLog) begin_op_loop"

definition begin_op_resume :: "('z log_st_scheme, unit) kop" where
  "begin_op_resume = thn (sleep_exit LkLog) begin_op_loop"

definition write_log :: "('z log_st_scheme, unit) kop" where
  "write_log = bnd (gets lh_n) (\<lambda>n. for_each [0..<nat n] (\<lambda>tail. bnd (gets id) (\<lambda>s.
     bnd (bread (log_dev s) (log_start s + tail + 1)) (\<lambda>to.
     bnd (bread (log_dev s) (lh_block s ! tail)) (\<lambda>from. copy_buf from to)))))"

definition commit :: "('z log_st_scheme, unit) kop" where
  "commit = bnd (gets lh_n) (\<lambda>n. only_if (n > 0) (steps [write_log, write_head, install_trans, clear_head]))"

definition end_op :: "('z log_st_scheme, unit) kop" where
  "end_op = thn (acquire LkLog)
     (thn (modify (\<lambda>s. s\<lparr>log_outstanding := log_outstanding s - 1\<rparr>)) (bnd (gets id) (\<lambda>s.
        thn (panic_if (log_committing s) ''log.committing'')
        (if log_outstanding s = 0
         then steps [modify (\<lambda>s. s\<lparr>log_committing := True\<rparr>), release LkLog, commit, acquire LkLog,
                modify (\<lambda>s. s\<lparr>log_committing := False\<rparr>), wakeup ChLog, release LkLog]
         else thn (wakeup ChLog) (release LkLog)))))"

text \<open>The place of a block in the header, or the end when it is not yet there.\<close>

fun absorb :: "nat \<Rightarrow> nat \<Rightarrow> nat list \<Rightarrow> nat" where
  "absorb 0 b bs = 0"
| "absorb (Suc n) b [] = 0"
| "absorb (Suc n) b (x # bs) = (if x = b then 0 else Suc (absorb n b bs))"

definition log_write :: "nat \<Rightarrow> ('z log_st_scheme, unit) kop" where
  "log_write b = bnd (gets id) (\<lambda>s. steps
     [panic_if (lh_n s \<ge> int LOGSIZE \<or> lh_n s \<ge> int (log_size s) - 1) ''too big a transaction'',
      panic_if (log_outstanding s < 1) ''log_write outside of trans'',
      acquire LkLog,
      modify (\<lambda>s. let i = absorb (nat (lh_n s)) (b_blockno (bufs s ! b)) (lh_block s) in
        s\<lparr>lh_block := (lh_block s)[i := b_blockno (bufs s ! b)],
          lh_n := (if int i = lh_n s then lh_n s + 1 else lh_n s)\<rparr>),
      upd_buf b (\<lambda>x. x\<lparr>b_dirty := True\<rparr>),
      release LkLog])"

section \<open>One block through the cache\<close>

lemma log_frame:
  fixes s t :: "'z log_st_scheme"
  assumes "bio_frame s t"
  shows "log_start t = log_start s" "log_size t = log_size s" "log_outstanding t = log_outstanding s"
    "log_committing t = log_committing s" "log_dev t = log_dev s" "lh_n t = lh_n s" "lh_block t = lh_block s"
proof -
  have eq: "t\<lparr>procs := procs s, ide_regs := ide_regs s, bufs := bufs s, disk := disk s, diskw := diskw s, lru := lru s\<rparr> = s"
    using assms by (simp add: bio_frame_def)
  show "log_start t = log_start s" using arg_cong [OF eq, of log_start] by simp
  show "log_size t = log_size s" using arg_cong [OF eq, of log_size] by simp
  show "log_outstanding t = log_outstanding s" using arg_cong [OF eq, of log_outstanding] by simp
  show "log_committing t = log_committing s" using arg_cong [OF eq, of log_committing] by simp
  show "log_dev t = log_dev s" using arg_cong [OF eq, of log_dev] by simp
  show "lh_n t = lh_n s" using arg_cong [OF eq, of lh_n] by simp
  show "lh_block t = lh_block s" using arg_cong [OF eq, of lh_block] by simp
qed

text \<open>Room in the cache: buffers that are neither dirty nor held.\<close>

lemma dirty_bufs:
  assumes "bio_inv H s"
  shows "card {i. i < NBUF \<and> b_dirty (bufs s ! i)} = card (dirty s)" "finite (dirty s)"
proof -
  let ?D = "{i. i < NBUF \<and> b_dirty (bufs s ! i)}"
  have "inj_on (key s) ?D"
  proof (rule inj_onI)
    fix i j assume a: "i \<in> ?D" "j \<in> ?D" "key s i = key s j"
    then have "b_dev (bufs s ! i) \<noteq> 0" using bio_invD(4) [OF assms, of i] by blast
    with a show "i = j" using bio_invD(6) [OF assms, of i j] by blast
  qed
  moreover have im: "dirty s = key s ` ?D" by (force simp: dirty_def)
  ultimately show "card ?D = card (dirty s)" by (simp add: card_image)
  show "finite (dirty s)" unfolding im by simp
qed

lemma avail_room:
  assumes inv: "bio_inv H s" and room: "card (dirty s) + card H < NBUF"
  shows "avail s k"
proof -
  let ?D = "{i. i < NBUF \<and> b_dirty (bufs s ! i)}"
  have H: "finite H" using bio_inv_shape [OF inv] finite_subset by blast
  have "card (?D \<union> H) < NBUF" using card_Un_le [of ?D H] room dirty_bufs [OF inv] by linarith
  then have "\<not> {..<NBUF} \<subseteq> ?D \<union> H" using H card_mono [of "?D \<union> H" "{..<NBUF}"] by auto
  then obtain i where i: "i < NBUF" "\<not> b_dirty (bufs s ! i)" "i \<notin> H" by auto
  then have "b_refcnt (bufs s ! i) = 0" using bio_invD(2) [OF inv i(1)] by simp
  with i show ?thesis unfolding avail_def by blast
qed

lemma avail_dirty: "k \<in> dirty s \<Longrightarrow> avail s k"
  by (auto simp: avail_def dirty_def)

text \<open>
  One block written through the cache: it has the new contents, is clean and on disk; the
  write is recorded; nothing else of what the clients see has changed.
\<close>

definition blk_put :: "nat \<Rightarrow> nat \<times> nat \<Rightarrow> byte list \<Rightarrow> 'z bio_st_scheme \<Rightarrow> 'z bio_st_scheme \<Rightarrow> bool" where
  "blk_put c k v s t \<longleftrightarrow> bio_step c {} s t \<and>
     (\<forall>x. fst x \<noteq> 0 \<longrightarrow> kdata t x = (if x = k then v else kdata s x)) \<and> dirty t = dirty s - {k} \<and>
     disk t = (disk s)(fst k := (disk s (fst k))(snd k := v)) \<and> diskw t = diskw s @ [(fst k, snd k, v)]"

lemma copy_buf_law:
  assumes inv: "bio_inv {i, j} s" and rdy: "io_ready c s" and ij: "i \<noteq> j" and k: "blk_ok (key s j)"
    and coh: "b_dirty (bufs s ! i) \<or> b_data (bufs s ! i) = disk s (fst (key s i)) (snd (key s i))"
  shows "\<exists>t. copy_buf i j s = Done () t \<and> blk_put c (key s j) (b_data (bufs s ! i)) s t"
proof -
  let ?v = "b_data (bufs s ! i)"
  have dev: "fst (key s j) \<noteq> 0" using k by (simp add: blk_ok_def)
  obtain s1 where 1: "upd_buf j (\<lambda>y. y\<lparr>b_data := ?v\<rparr>) s = Done () s1" "bio_step c {i, j} s s1" "key s1 j = key s j"
    "b_data (bufs s1 ! j) = ?v" "bufs s1 ! i = bufs s ! i"
    "\<forall>k. fst k \<noteq> 0 \<longrightarrow> kdata s1 k = (if k = key s j then ?v else kdata s k)" "dirty s1 = dirty s"
    "disk s1 = disk s" "diskw s1 = diskw s"
    using set_data_law [OF inv rdy, of j ?v] ij by auto
  have keyi: "key s1 i = key s i" using 1(5) by (simp add: key_def)
  obtain s2 where 2: "bwrite j s1 = Done () s2" "bio_step c {i, j} s1 s2" "key s2 j = key s j" "b_data (bufs s2 ! j) = ?v"
    "bufs s2 ! i = bufs s ! i"
    "\<forall>k. fst k \<noteq> 0 \<longrightarrow> kdata s2 k = kdata s1 k" "dirty s2 = dirty s - {key s j}"
    "disk s2 = (disk s)(fst (key s j) := (disk s (fst (key s j)))(snd (key s j) := ?v))"
    "diskw s2 = diskw s @ [(fst (key s j), snd (key s j), ?v)]"
    using bwrite_law [of "{i, j}" s1 c j] 1 k ij by (auto simp: bio_step_def)
  have keyi2: "key s2 i = key s i" using 2(5) by (simp add: key_def)
  have dif: "key s i \<noteq> key s j"
  proof
    assume "key s i = key s j"
    moreover have "i < NBUF" "j < NBUF" using bio_inv_shape [OF inv] by auto
    moreover have "b_dev (bufs s ! i) \<noteq> 0" using bio_invD(4) [OF inv, of i] calculation by auto
    ultimately show False using bio_invD(6) [OF inv, of i j] ij by blast
  qed
  have "b_dirty (bufs s2 ! i) \<or> b_data (bufs s2 ! i) = disk s2 (fst (key s2 i)) (snd (key s2 i))"
    using coh dif 2 keyi2 by (auto simp: prod_eq_iff)
  then obtain s3 where 3: "brelse i s2 = Done () s3" "bio_step c {j} s2 s3" "bufs s3 ! j = bufs s2 ! j"
    "\<forall>k. fst k \<noteq> 0 \<longrightarrow> kdata s3 k = kdata s2 k" "dirty s3 = dirty s2" "disk s3 = disk s2" "diskw s3 = diskw s2"
    using brelse_law [of "{i, j}" s2 c i] 2(2) ij by (auto simp: bio_step_def insert_Diff_if)
  have keyj3: "key s3 j = key s j" using 3(3) 2(3) by (simp add: key_def)
  have "b_data (bufs s3 ! j) = disk s3 (fst (key s3 j)) (snd (key s3 j))" using 2(4,8) 3(3,6) keyj3 by simp
  then obtain t where 4: "brelse j s3 = Done () t" "bio_step c {} s3 t"
    "\<forall>k. fst k \<noteq> 0 \<longrightarrow> kdata t k = kdata s3 k" "dirty t = dirty s3" "disk t = disk s3" "diskw t = diskw s3"
    using brelse_law [of "{j}" s3 c j] 3(2) by (auto simp: bio_step_def)
  have "bio_frame s t"
    using 1(2) 2(2) 3(2) 4(2) bio_frame_trans unfolding bio_step_def by blast
  moreover have "copy_buf i j s = Done () t"
    using 1(1) 2(1) 3(1) 4(1) by (simp add: copy_buf_def bnd_get_buf) (simp add: thn_def bnd_def ret_def)
  ultimately show ?thesis
    using 1 2 3 4 dev by (intro exI [of _ t]) (auto simp: blk_put_def bio_step_def)
qed

text \<open>Reading two different blocks into two buffers.\<close>

lemma bread_two:
  assumes inv: "bio_inv {} s" and rdy: "io_ready c s" and ok: "blk_ok (d, a)" "blk_ok (d, b)" and ab: "a \<noteq> b"
    and room: "card (dirty s) + (if (d, b) \<in> dirty s then 1 else 2) \<le> NBUF"
  shows "\<exists>i j t. bnd (bread d a) (\<lambda>i. bnd (bread d b) (f i)) s = f i j t \<and> bio_step c {i, j} s t \<and> i \<noteq> j \<and>
    key t i = (d, a) \<and> key t j = (d, b) \<and> b_data (bufs t ! i) = kdata s (d, a) \<and> b_data (bufs t ! j) = kdata s (d, b) \<and>
    b_dirty (bufs t ! i) = ((d, a) \<in> dirty s) \<and> b_dirty (bufs t ! j) = ((d, b) \<in> dirty s) \<and>
    (\<forall>k. fst k \<noteq> 0 \<longrightarrow> kdata t k = kdata s k) \<and> dirty t = dirty s \<and> disk t = disk s \<and> diskw t = diskw s"
proof -
  have "avail s (d, a)" using avail_room [OF inv, of "(d, a)"] room by (simp split: if_splits)
  then obtain i s1 where 1: "bread d a s = Done i s1" "bio_step c {i} s s1" "key s1 i = (d, a)" "b_data (bufs s1 ! i) = kdata s (d, a)"
    "b_dirty (bufs s1 ! i) = ((d, a) \<in> dirty s)"
    "\<forall>k. fst k \<noteq> 0 \<longrightarrow> kdata s1 k = kdata s k" "dirty s1 = dirty s" "disk s1 = disk s" "diskw s1 = diskw s"
    using bread_law [OF inv rdy ok(1)] by auto
  have inv1: "bio_inv {i} s1" and rdy1: "io_ready c s1" using 1(2) by (auto simp: bio_step_def)
  have "avail s1 (d, b)"
    using avail_room [OF inv1, of "(d, b)"] avail_dirty [of "(d, b)" s1] room 1(7) by (auto split: if_splits)
  then obtain j t where 2: "bread d b s1 = Done j t" "bio_step c {j, i} s1 t" "j \<notin> {i}" "key t j = (d, b)"
    "b_data (bufs t ! j) = kdata s1 (d, b)" "b_dirty (bufs t ! j) = ((d, b) \<in> dirty s1)" "bufs t ! i = bufs s1 ! i"
    "\<forall>k. fst k \<noteq> 0 \<longrightarrow> kdata t k = kdata s1 k" "dirty t = dirty s1" "disk t = disk s1" "diskw t = diskw s1"
    using bread_law [OF inv1 rdy1 ok(2)] 1(3) ab by auto
  have "bio_step c {i, j} s t"
    using 1(2) 2(2) bio_frame_trans unfolding bio_step_def by (metis insert_commute)
  moreover have "key t i = (d, a)" using 2(7) 1(3) by (simp add: key_def)
  moreover have "bnd (bread d a) (\<lambda>i. bnd (bread d b) (f i)) s = f i j t" using 1(1) 2(1) by (simp add: bnd_def)
  ultimately show ?thesis
    using 1 2 ok(2) by (intro exI [of _ i] exI [of _ j] exI [of _ t]) (auto simp: blk_ok_def)
qed

lemma blk_put_after:
  assumes "bio_step c H s t" "\<forall>k. fst k \<noteq> 0 \<longrightarrow> kdata t k = kdata s k" "dirty t = dirty s" "disk t = disk s" "diskw t = diskw s"
    "blk_put c k v t u"
  shows "blk_put c k v s u"
  using assms bio_frame_trans [of s t u] by (auto simp: blk_put_def bio_step_def)

text \<open>Copying a block to another one, read in either order.\<close>

lemma copy_law:
  assumes inv: "bio_inv {} s" and rdy: "io_ready c s" and ok: "blk_ok (d, a)" "blk_ok (d, b)" and ab: "a \<noteq> b"
    and room: "card (dirty s) + (if (d, b) \<in> dirty s then 1 else 2) \<le> NBUF"
  shows copy_first: "\<exists>t. bnd (bread d a) (\<lambda>i. bnd (bread d b) (\<lambda>j. copy_buf i j)) s = Done () t \<and> blk_put c (d, b) (kdata s (d, a)) s t"
    and copy_second: "\<exists>t. bnd (bread d a) (\<lambda>i. bnd (bread d b) (\<lambda>j. copy_buf j i)) s = Done () t \<and> blk_put c (d, a) (kdata s (d, b)) s t"
proof -
  have coh: "(d, x) \<in> dirty s \<or> kdata s (d, x) = disk s d x" if "blk_ok (d, x)" for x
    using kdata_clean [OF inv, of "(d, x)"] that by (auto simp: blk_ok_def)
  obtain i j t where 1: "bnd (bread d a) (\<lambda>i. bnd (bread d b) (\<lambda>j. copy_buf i j)) s = copy_buf i j t" "bio_step c {i, j} s t" "i \<noteq> j"
    "key t i = (d, a)" "key t j = (d, b)" "b_data (bufs t ! i) = kdata s (d, a)" "b_dirty (bufs t ! i) = ((d, a) \<in> dirty s)"
    "\<forall>k. fst k \<noteq> 0 \<longrightarrow> kdata t k = kdata s k" "dirty t = dirty s" "disk t = disk s" "diskw t = diskw s"
    using bread_two [OF assms, of "\<lambda>i j. copy_buf i j"] by blast
  have "\<exists>u. copy_buf i j t = Done () u \<and> blk_put c (key t j) (b_data (bufs t ! i)) t u"
    using 1 ok coh by (intro copy_buf_law) (auto simp: bio_step_def)
  then show "\<exists>t. bnd (bread d a) (\<lambda>i. bnd (bread d b) (\<lambda>j. copy_buf i j)) s = Done () t \<and> blk_put c (d, b) (kdata s (d, a)) s t"
    using 1 blk_put_after [OF 1(2) 1(8-11)] by auto
  obtain i j t where 2: "bnd (bread d a) (\<lambda>i. bnd (bread d b) (\<lambda>j. copy_buf j i)) s = copy_buf j i t" "bio_step c {i, j} s t" "i \<noteq> j"
    "key t i = (d, a)" "key t j = (d, b)" "b_data (bufs t ! j) = kdata s (d, b)" "b_dirty (bufs t ! j) = ((d, b) \<in> dirty s)"
    "\<forall>k. fst k \<noteq> 0 \<longrightarrow> kdata t k = kdata s k" "dirty t = dirty s" "disk t = disk s" "diskw t = diskw s"
    using bread_two [OF assms, of "\<lambda>i j. copy_buf j i"] by blast
  have "\<exists>u. copy_buf j i t = Done () u \<and> blk_put c (key t i) (b_data (bufs t ! j)) t u"
    using 2 ok coh by (intro copy_buf_law) (auto simp: bio_step_def insert_commute)
  then show "\<exists>t. bnd (bread d a) (\<lambda>i. bnd (bread d b) (\<lambda>j. copy_buf j i)) s = Done () t \<and> blk_put c (d, a) (kdata s (d, b)) s t"
    using 2 blk_put_after [OF 2(2) 2(8-11)] by auto
qed

text \<open>Reading a block, changing it and writing it back.\<close>

lemma rewrite_law:
  assumes inv: "bio_inv {} s" and rdy: "io_ready c s" and ok: "blk_ok (d, a)" and room: "card (dirty s) < NBUF"
  shows "\<exists>t. bnd (bread d a) (\<lambda>i. steps [upd_buf i (\<lambda>x. x\<lparr>b_data := g (b_data x)\<rparr>), bwrite i, brelse i]) s = Done () t \<and>
    blk_put c (d, a) (g (kdata s (d, a))) s t"
proof -
  have "avail s (d, a)" using avail_room [OF inv] room by simp
  then obtain i s1 where 1: "bread d a s = Done i s1" "bio_step c {i} s s1" "key s1 i = (d, a)" "b_data (bufs s1 ! i) = kdata s (d, a)"
    "\<forall>k. fst k \<noteq> 0 \<longrightarrow> kdata s1 k = kdata s k" "dirty s1 = dirty s" "disk s1 = disk s" "diskw s1 = diskw s"
    using bread_law [OF inv rdy ok] by auto
  let ?v = "g (kdata s (d, a))"
  obtain s2 where 2: "upd_buf i (\<lambda>x. x\<lparr>b_data := ?v\<rparr>) s1 = Done () s2" "bio_step c {i} s1 s2" "key s2 i = (d, a)"
    "b_data (bufs s2 ! i) = ?v" "\<forall>k. fst k \<noteq> 0 \<longrightarrow> kdata s2 k = (if k = (d, a) then ?v else kdata s1 k)"
    "dirty s2 = dirty s1" "disk s2 = disk s1" "diskw s2 = diskw s1"
    using set_data_law [of "{i}" s1 c i ?v] 1 by (auto simp: bio_step_def)
  obtain s3 where 3: "bwrite i s2 = Done () s3" "bio_step c {i} s2 s3" "key s3 i = (d, a)" "b_data (bufs s3 ! i) = ?v"
    "\<forall>k. fst k \<noteq> 0 \<longrightarrow> kdata s3 k = kdata s2 k" "dirty s3 = dirty s2 - {(d, a)}"
    "disk s3 = (disk s2)(d := (disk s2 d)(a := ?v))" "diskw s3 = diskw s2 @ [(d, a, ?v)]"
    using bwrite_law [of "{i}" s2 c i] 2 ok by (auto simp: bio_step_def)
  obtain t where 4: "brelse i s3 = Done () t" "bio_step c {} s3 t"
    "\<forall>k. fst k \<noteq> 0 \<longrightarrow> kdata t k = kdata s3 k" "dirty t = dirty s3" "disk t = disk s3" "diskw t = diskw s3"
    using brelse_law [of "{i}" s3 c i] 3 by (auto simp: bio_step_def)
  have u: "upd_buf i (\<lambda>x. x\<lparr>b_data := g (b_data x)\<rparr>) s1 = upd_buf i (\<lambda>x. x\<lparr>b_data := ?v\<rparr>) s1"
    using 1(4) by (simp add: upd_buf_run)
  have "bnd (bread d a) (\<lambda>i. steps [upd_buf i (\<lambda>x. x\<lparr>b_data := g (b_data x)\<rparr>), bwrite i, brelse i]) s = Done () t"
    using 1(1) 2(1) 3(1) 4(1) u by (simp add: thn_def bnd_def ret_def)
  moreover have "bio_frame s t" using 1(2) 2(2) 3(2) 4(2) bio_frame_trans unfolding bio_step_def by blast
  ultimately show ?thesis using 1 2 3 4 by (intro exI [of _ t]) (auto simp: blk_put_def bio_step_def)
qed

section \<open>Sequences of writes\<close>

definition disk2 :: "'z bio_st_scheme \<Rightarrow> nat \<times> nat \<Rightarrow> byte list" where
  "disk2 s k = disk s (fst k) (snd k)"

fun put_all :: "((nat \<times> nat) \<times> byte list) list \<Rightarrow> (nat \<times> nat \<Rightarrow> byte list) \<Rightarrow> nat \<times> nat \<Rightarrow> byte list" where
  "put_all [] f = f"
| "put_all ((k, v) # ws) f = put_all ws (f(k := v))"

lemma put_all_append: "put_all (ws @ ws') f = put_all ws' (put_all ws f)"
  by (induction ws f rule: put_all.induct) (simp_all del: fun_upd_apply)

lemma put_all_other: "k \<notin> fst ` set ws \<Longrightarrow> put_all ws f k = f k"
  by (induction ws f rule: put_all.induct) auto

lemma put_all_map:
  assumes "inj_on kf {..<n}" "i < n"
  shows "put_all (map (\<lambda>i. (kf i, v i)) [0..<n]) f (kf i) = v i"
  using assms
proof (induction n)
  case (Suc n)
  show ?case
  proof (cases "i = n")
    case True
    then show ?thesis by (simp add: put_all_append)
  next
    case False
    then have "kf i \<noteq> kf n" using Suc.prems inj_onD [of kf "{..<Suc n}" i n] by auto
    moreover have "inj_on kf {..<n}" using Suc.prems(1) by (rule inj_on_subset) auto
    ultimately show ?thesis using Suc False by (simp add: put_all_append)
  qed
qed simp

definition blk_puts :: "nat \<Rightarrow> ((nat \<times> nat) \<times> byte list) list \<Rightarrow> 'z bio_st_scheme \<Rightarrow> 'z bio_st_scheme \<Rightarrow> bool" where
  "blk_puts c ws s t \<longleftrightarrow> bio_step c {} s t \<and> (\<forall>x. fst x \<noteq> 0 \<longrightarrow> kdata t x = put_all ws (kdata s) x) \<and>
     dirty t = dirty s - fst ` set ws \<and> disk2 t = put_all ws (disk2 s) \<and>
     diskw t = diskw s @ map (\<lambda>(k, v). (fst k, snd k, v)) ws"

lemma blk_puts_nil: "bio_inv {} s \<Longrightarrow> io_ready c s \<Longrightarrow> blk_puts c [] s s"
  by (simp add: blk_puts_def bio_step_def)

lemma blk_puts_one: "blk_put c k v s t \<Longrightarrow> blk_puts c [(k, v)] s t"
  by (cases k) (auto simp: blk_puts_def blk_put_def disk2_def fun_eq_iff)

lemma put_all_cong: "(\<And>x. P x \<Longrightarrow> f x = g x) \<Longrightarrow> P x \<Longrightarrow> put_all ws f x = put_all ws g x"
proof (induction ws arbitrary: f g)
  case (Cons w ws)
  obtain k v where w: "w = (k, v)" by fastforce
  have "put_all ws (f(k := v)) x = put_all ws (g(k := v)) x"
    by (rule Cons.IH) (use Cons.prems in auto)
  then show ?case by (simp add: w del: fun_upd_apply)
qed simp

lemma blk_puts_append:
  assumes "blk_puts c ws s t" "blk_puts c ws' t u"
  shows "blk_puts c (ws @ ws') s u"
proof -
  have "put_all ws' (kdata t) x = put_all ws' (put_all ws (kdata s)) x" if "fst x \<noteq> 0" for x
    using assms(1) that by (intro put_all_cong [of "\<lambda>x. fst x \<noteq> 0"]) (auto simp: blk_puts_def)
  then show ?thesis
    using assms bio_frame_trans [of s t u] by (auto simp: blk_puts_def bio_step_def put_all_append)
qed

lemma blk_puts_ready: "blk_puts c ws s t \<Longrightarrow> bio_inv {} t \<and> io_ready c t"
  by (simp add: blk_puts_def bio_step_def)

lemma blk_puts_log:
  fixes s t :: "'z log_st_scheme"
  assumes "blk_puts c ws s t"
  shows "log_start t = log_start s" "log_dev t = log_dev s" "lh_n t = lh_n s" "lh_block t = lh_block s"
    "log_size t = log_size s" "log_outstanding t = log_outstanding s" "log_committing t = log_committing s"
  using assms log_frame [of s t] by (simp_all add: blk_puts_def bio_step_def)

lemma for_each_puts:
  assumes "bio_inv {} s" "io_ready c s"
    "\<And>i t. i < n \<Longrightarrow> blk_puts c (map w [0..<i]) s t \<Longrightarrow> \<exists>u. f i t = Done () u \<and> blk_puts c [w i] t u"
  shows "\<exists>t. for_each [0..<n] f s = Done () t \<and> blk_puts c (map w [0..<n]) s t"
  using assms(3)
proof (induction n)
  case 0
  then show ?case using blk_puts_nil [OF assms(1,2)] by (simp add: kop_simps)
next
  case (Suc n)
  obtain t where t: "for_each [0..<n] f s = Done () t" "blk_puts c (map w [0..<n]) s t"
    using Suc.IH Suc.prems by auto
  obtain u where u: "f n t = Done () u" "blk_puts c [w n] t u" using Suc.prems [OF _ t(2)] by auto
  have "for_each [0..<Suc n] f s = Done () u"
    using t(1) u(1) by (simp add: for_each_append thn_def bnd_def ret_def)
  then show ?case using blk_puts_append [OF t(2) u(2)] by auto
qed

section \<open>The header block\<close>

lemma put_blocks_length [simp]:
  "length d = BSIZE \<Longrightarrow> i + length bs \<le> LOGSIZE \<Longrightarrow> length (put_blocks bs i d) = BSIZE"
  by (induction bs i d rule: put_blocks.induct) (auto simp: put_at_def)

lemma put_blocks_n:
  "length d = BSIZE \<Longrightarrow> i + length bs \<le> LOGSIZE \<Longrightarrow> u32_at 0 (put_blocks bs i d) = u32_at 0 d"
  by (induction bs i d rule: put_blocks.induct) (auto simp: u32_at_def buf_simps)

lemma put_blocks_block:
  "length d = BSIZE \<Longrightarrow> i + length bs \<le> LOGSIZE \<Longrightarrow> j < LOGSIZE \<Longrightarrow>
     hdr_block (put_blocks bs i d) j = (if i \<le> j \<and> j < i + length bs then bs ! (j - i) mod 2 ^ 32 else hdr_block d j)"
proof (induction bs i d rule: put_blocks.induct)
  case (2 b bs i d)
  have "hdr_block (put_at (4 + 4 * i) (le_bytes 4 b) d) j = (if j = i then b mod 2 ^ 32 else hdr_block d j)"
  proof (cases "j = i")
    case True
    then show ?thesis using 2(2-4) by (simp add: hdr_block_def u32_at_def slice_put_at_same le_val_le_bytes)
  next
    case False
    then have "4 + 4 * i + 4 \<le> 4 + 4 * j \<or> 4 + 4 * j + 4 \<le> 4 + 4 * i" by linarith
    then have "slice (4 + 4 * j) 4 (put_at (4 + 4 * i) (le_bytes 4 b) d) = slice (4 + 4 * j) 4 d"
      using 2(2-4) by (intro slice_put_at_apart) auto
    then show ?thesis using False by (simp add: hdr_block_def u32_at_def)
  qed
  then show ?case using 2 by (auto simp: nth_Cons' put_at_def)
qed simp

lemma hdr_put_length [simp]: "length d = BSIZE \<Longrightarrow> nat n \<le> LOGSIZE \<Longrightarrow> length (hdr_put n bs d) = BSIZE"
  by (simp add: hdr_put_def put_at_def)

lemma hdr_put_n:
  assumes "length d = BSIZE" "0 \<le> n" "n \<le> int LOGSIZE"
  shows "hdr_n (hdr_put n bs d) = n"
proof -
  have "u32_at 0 (hdr_put n bs d) = u32_at 0 (put_at 0 (le_bytes 4 (nat (n mod 2 ^ 32))) d)"
    unfolding hdr_put_def using assms by (intro put_blocks_n) (auto simp: put_at_def)
  also have "\<dots> = nat n"
    using assms by (simp add: u32_at_def buf_simps le_val_le_bytes)
  finally show ?thesis using assms by (simp add: hdr_n_def signed32_def)
qed

lemma hdr_put_block:
  assumes "length d = BSIZE" "n \<le> int LOGSIZE" "length bs = LOGSIZE" "i < nat n" "bs ! i < 2 ^ 32"
  shows "hdr_block (hdr_put n bs d) i = bs ! i"
  using assms put_blocks_block [of "put_at 0 (le_bytes 4 (nat (n mod 2 ^ 32))) d" 0 "take (nat n) bs" i]
  by (simp add: hdr_put_def put_at_def)

section \<open>The phases of a commit\<close>

definition logged :: "'z log_st_scheme \<Rightarrow> nat list" where
  "logged s = take (nat (lh_n s)) (lh_block s)"

definition log_area :: "'z log_st_scheme \<Rightarrow> nat \<Rightarrow> bool" where
  "log_area s b \<longleftrightarrow> log_start s \<le> b \<and> b < log_start s + log_size s"

definition log_ok :: "nat \<Rightarrow> 'z log_st_scheme \<Rightarrow> bool" where
  "log_ok c s \<longleftrightarrow> bio_inv {} s \<and> io_ready c s \<and> log_dev s = 1 \<and> log_start s + log_size s \<le> FSSIZE \<and>
     length (lh_block s) = LOGSIZE \<and> 0 \<le> lh_n s \<and> lh_n s \<le> int LOGSIZE \<and> lh_n s < int (log_size s) \<and>
     (\<forall>b \<in> set (logged s). b < FSSIZE \<and> \<not> log_area s b) \<and> distinct (logged s)"

lemma log_okD:
  assumes "log_ok c s" "i < nat (lh_n s)"
  shows "blk_ok (1, log_start s + i + 1)" "blk_ok (1, lh_block s ! i)" "log_start s + i + 1 \<noteq> lh_block s ! i"
    "\<not> log_area s (lh_block s ! i)" "log_area s (log_start s + i + 1)"
    "j < nat (lh_n s) \<Longrightarrow> lh_block s ! i = lh_block s ! j \<Longrightarrow> i = j"
proof -
  have l: "length (logged s) = nat (lh_n s)" "\<And>j. j < nat (lh_n s) \<Longrightarrow> logged s ! j = lh_block s ! j"
    using assms(1) by (auto simp: log_ok_def logged_def)
  have mem: "lh_block s ! i \<in> set (logged s)" using l assms(2) by (metis nth_mem)
  then show b: "blk_ok (1, lh_block s ! i)" "\<not> log_area s (lh_block s ! i)"
    using assms(1) by (auto simp: log_ok_def blk_ok_def)
  show a: "blk_ok (1, log_start s + i + 1)" "log_area s (log_start s + i + 1)"
    using assms by (auto simp: log_ok_def blk_ok_def log_area_def)
  show "log_start s + i + 1 \<noteq> lh_block s ! i" using a b by metis
  show "i = j" if "j < nat (lh_n s)" "lh_block s ! i = lh_block s ! j"
    using that l assms nth_eq_iff_index_eq [of "logged s" i j] by (auto simp: log_ok_def)
qed

lemma log_ok_size: "log_ok c s \<Longrightarrow> 0 < log_size s"
  by (auto simp: log_ok_def)

lemma logged_mem: "log_ok c s \<Longrightarrow> i < nat (lh_n s) \<Longrightarrow> lh_block s ! i \<in> set (logged s)"
  by (auto simp: logged_def log_ok_def in_set_conv_nth intro!: exI [of _ i])

lemma blk_puts_dirty: "blk_puts c ws s t \<Longrightarrow> dirty t = dirty s - fst ` set ws"
  by (simp add: blk_puts_def)

lemma blk_puts_kdata: "blk_puts c ws s t \<Longrightarrow> kdata t (1, b) = put_all ws (kdata s) (1, b)"
  by (simp add: blk_puts_def)

lemma blk_puts_card: "bio_inv {} s \<Longrightarrow> blk_puts c ws s t \<Longrightarrow> card (dirty t) \<le> card (dirty s)"
  using dirty_bufs(2) [of "{}" s] by (auto simp: blk_puts_dirty intro!: card_mono)

lemma write_log_law:
  assumes ok: "log_ok c s" and room: "card (dirty s) < NBUF" and all: "Pair 1 ` set (logged s) \<subseteq> dirty s"
  shows "\<exists>t. write_log s = Done () t \<and>
    blk_puts c (map (\<lambda>i. ((1, log_start s + i + 1), kdata s (1, lh_block s ! i))) [0..<nat (lh_n s)]) s t"
proof -
  let ?w = "\<lambda>i. ((1, log_start s + i + 1), kdata s (1, lh_block s ! i))"
  let ?f = "\<lambda>tail. bnd (gets id) (\<lambda>s. bnd (bread (log_dev s) (log_start s + tail + 1)) (\<lambda>to.
     bnd (bread (log_dev s) (lh_block s ! tail)) (\<lambda>from. copy_buf from to)))"
  have rdy: "bio_inv {} s" "io_ready c s" using ok by (auto simp: log_ok_def)
  have "\<exists>t. for_each [0..<nat (lh_n s)] ?f s = Done () t \<and> blk_puts c (map ?w [0..<nat (lh_n s)]) s t"
  proof (rule for_each_puts [OF rdy])
    fix i t assume i: "i < nat (lh_n s)" and p: "blk_puts c (map ?w [0..<i]) s t"
    note D = log_okD [OF ok i] and L = blk_puts_log [OF p]
    have keys: "fst ` set (map ?w [0..<i]) = (\<lambda>j. (1, log_start s + j + 1)) ` {..<i}" by force
    have other: "(1, lh_block s ! i) \<notin> fst ` set (map ?w [0..<i])"
      unfolding keys using D(4) i ok by (auto simp: log_area_def log_ok_def)
    have "kdata t (1, lh_block s ! i) = kdata s (1, lh_block s ! i)"
      using p put_all_other [OF other] by (simp add: blk_puts_def)
    moreover have "(1, lh_block s ! i) \<in> dirty t"
      using blk_puts_dirty [OF p] other all logged_mem [OF ok i] by blast
    ultimately obtain u where u: "bnd (bread 1 (log_start s + i + 1)) (\<lambda>to. bnd (bread 1 (lh_block s ! i)) (\<lambda>from. copy_buf from to)) t = Done () u"
      "blk_put c (1, log_start s + i + 1) (kdata s (1, lh_block s ! i)) t u"
      using copy_second [of t c 1 "log_start s + i + 1" "lh_block s ! i"] blk_puts_ready [OF p] D room blk_puts_card [OF rdy(1) p]
      by auto
    have "?f i t = Done () u" using u(1) L ok by (simp add: kop_simps log_ok_def)
    then show "\<exists>u. ?f i t = Done () u \<and> blk_puts c [?w i] t u" using blk_puts_one [OF u(2)] by blast
  qed
  then show ?thesis by (simp add: write_log_def kop_simps)
qed

lemma install_law:
  assumes ok: "log_ok c s"
    and room: "card (dirty s) + 2 \<le> NBUF \<or> card (dirty s) < NBUF \<and> Pair 1 ` set (logged s) \<subseteq> dirty s"
  shows "\<exists>t. install_trans s = Done () t \<and>
    blk_puts c (map (\<lambda>i. ((1, lh_block s ! i), kdata s (1, log_start s + i + 1))) [0..<nat (lh_n s)]) s t"
proof -
  let ?w = "\<lambda>i. ((1, lh_block s ! i), kdata s (1, log_start s + i + 1))"
  let ?f = "\<lambda>tail. bnd (gets id) (\<lambda>s. bnd (bread (log_dev s) (log_start s + tail + 1)) (\<lambda>lbuf.
     bnd (bread (log_dev s) (lh_block s ! tail)) (\<lambda>dbuf. copy_buf lbuf dbuf)))"
  have rdy: "bio_inv {} s" "io_ready c s" using ok by (auto simp: log_ok_def)
  have "\<exists>t. for_each [0..<nat (lh_n s)] ?f s = Done () t \<and> blk_puts c (map ?w [0..<nat (lh_n s)]) s t"
  proof (rule for_each_puts [OF rdy])
    fix i t assume i: "i < nat (lh_n s)" and p: "blk_puts c (map ?w [0..<i]) s t"
    note D = log_okD [OF ok i] and L = blk_puts_log [OF p]
    have keys: "fst ` set (map ?w [0..<i]) = (\<lambda>j. (1, lh_block s ! j)) ` {..<i}" by force
    have other: "(1, log_start s + i + 1) \<notin> fst ` set (map ?w [0..<i])"
      unfolding keys using log_okD(4) [OF ok] D(5) i by auto
    have "kdata t (1, log_start s + i + 1) = kdata s (1, log_start s + i + 1)"
      using p put_all_other [OF other] by (simp add: blk_puts_def)
    moreover
    have new: "(1, lh_block s ! i) \<notin> fst ` set (map ?w [0..<i])"
    proof
      assume "(1, lh_block s ! i) \<in> fst ` set (map ?w [0..<i])"
      then obtain j where "j < i" "lh_block s ! i = lh_block s ! j" unfolding keys by blast
      then show False using D(6) [of j] i by simp
    qed
    have "Pair 1 ` set (logged s) \<subseteq> dirty s \<Longrightarrow> (1, lh_block s ! i) \<in> dirty t"
      using blk_puts_dirty [OF p] new logged_mem [OF ok i] by blast
    then have "card (dirty t) + (if (1, lh_block s ! i) \<in> dirty t then 1 else 2) \<le> NBUF"
      using room blk_puts_card [OF rdy(1) p] by (auto split: if_splits)
    ultimately obtain u where u: "bnd (bread 1 (log_start s + i + 1)) (\<lambda>l. bnd (bread 1 (lh_block s ! i)) (\<lambda>d. copy_buf l d)) t = Done () u"
      "blk_put c (1, lh_block s ! i) (kdata s (1, log_start s + i + 1)) t u"
      using copy_first [of t c 1 "log_start s + i + 1" "lh_block s ! i"] blk_puts_ready [OF p] D by auto
    have "?f i t = Done () u" using u(1) L ok by (simp add: kop_simps log_ok_def)
    then show "\<exists>u. ?f i t = Done () u \<and> blk_puts c [?w i] t u" using blk_puts_one [OF u(2)] by blast
  qed
  then show ?thesis by (simp add: install_trans_def kop_simps)
qed

lemma write_head_law:
  assumes ok: "bio_inv {} s" "io_ready c s" "log_dev s = 1" "log_start s < FSSIZE" "card (dirty s) < NBUF"
  shows "\<exists>t. write_head s = Done () t \<and>
    blk_puts c [((1, log_start s), hdr_put (lh_n s) (lh_block s) (kdata s (1, log_start s)))] s t"
proof -
  have "blk_ok (1, log_start s)" using ok(4) by (simp add: blk_ok_def)
  from rewrite_law [OF ok(1,2) this ok(5), of "hdr_put (lh_n s) (lh_block s)"]
  show ?thesis using ok(3) by (auto simp: write_head_def kop_simps intro: blk_puts_one)
qed

section \<open>Commit and recovery\<close>

text \<open>\<open>blk_puts\<close> without its frame: what a sequence of writes did to the disk and to the cache.\<close>

definition wrote :: "nat \<Rightarrow> ((nat \<times> nat) \<times> byte list) list \<Rightarrow> 'z bio_st_scheme \<Rightarrow> 'z bio_st_scheme \<Rightarrow> bool" where
  "wrote c ws s t \<longleftrightarrow> bio_inv {} t \<and> io_ready c t \<and> (\<forall>x. fst x \<noteq> 0 \<longrightarrow> kdata t x = put_all ws (kdata s) x) \<and>
     dirty t = dirty s - fst ` set ws \<and> disk2 t = put_all ws (disk2 s) \<and>
     diskw t = diskw s @ map (\<lambda>(k, v). (fst k, snd k, v)) ws"

lemma blk_puts_wrote: "blk_puts c ws s t \<Longrightarrow> wrote c ws s t"
  by (simp add: blk_puts_def wrote_def bio_step_def)

lemma wrote_append:
  assumes "wrote c ws s t" "wrote c ws' t u"
  shows "wrote c (ws @ ws') s u"
proof -
  have "put_all ws' (kdata t) x = put_all ws' (put_all ws (kdata s)) x" if "fst x \<noteq> 0" for x
    using assms(1) that by (intro put_all_cong [of "\<lambda>x. fst x \<noteq> 0"]) (auto simp: wrote_def)
  then show ?thesis using assms by (auto simp: wrote_def put_all_append)
qed

lemma lh_n_view [simp]:
  "bio_inv H (s\<lparr>lh_n := n\<rparr>) = bio_inv H s" "io_ready c (s\<lparr>lh_n := n\<rparr>) = io_ready c s"
  "kdata (s\<lparr>lh_n := n\<rparr>) = kdata s" "dirty (s\<lparr>lh_n := n\<rparr>) = dirty s" "disk2 (s\<lparr>lh_n := n\<rparr>) = disk2 s"
  by (simp_all add: bio_inv_def io_ready_def running_def kdata_def dirty_def key_def disk2_def fun_eq_iff cong: option.case_cong)

lemma lh_block_view [simp]:
  "bio_inv H (s\<lparr>lh_block := b\<rparr>) = bio_inv H s" "io_ready c (s\<lparr>lh_block := b\<rparr>) = io_ready c s"
  "kdata (s\<lparr>lh_block := b\<rparr>) = kdata s" "dirty (s\<lparr>lh_block := b\<rparr>) = dirty s" "disk2 (s\<lparr>lh_block := b\<rparr>) = disk2 s"
  by (simp_all add: bio_inv_def io_ready_def running_def kdata_def dirty_def key_def disk2_def fun_eq_iff cong: option.case_cong)

definition kept_log :: "'z log_st_scheme \<Rightarrow> 'z log_st_scheme \<Rightarrow> bool" where
  "kept_log s t \<longleftrightarrow> log_start t = log_start s \<and> log_size t = log_size s \<and> log_dev t = log_dev s \<and>
     log_outstanding t = log_outstanding s \<and> log_committing t = log_committing s \<and> lh_block t = lh_block s"

lemma kept_log_trans: "kept_log s t \<Longrightarrow> kept_log t u \<Longrightarrow> kept_log s u"
  by (simp add: kept_log_def)

lemma clear_head_law:
  assumes ok: "bio_inv {} s" "io_ready c s" "log_dev s = 1" "log_start s < FSSIZE" "card (dirty s) < NBUF"
  shows "\<exists>t. clear_head s = Done () t \<and> lh_n t = 0 \<and> kept_log s t \<and>
    wrote c [((1, log_start s), hdr_put 0 (lh_block s) (kdata s (1, log_start s)))] s t"
proof -
  let ?s = "s\<lparr>lh_n := 0\<rparr>"
  obtain t where t: "write_head ?s = Done () t"
    "blk_puts c [((1, log_start ?s), hdr_put (lh_n ?s) (lh_block ?s) (kdata ?s (1, log_start ?s)))] ?s t"
    using write_head_law [of ?s c] ok by auto
  then show ?thesis
    using blk_puts_log [OF t(2)] blk_puts_wrote [OF t(2)]
    by (auto simp: clear_head_def kop_simps wrote_def kept_log_def)
qed

text \<open>The writes of \<open>commit\<close>, in order.\<close>

definition log_ws :: "'z log_st_scheme \<Rightarrow> ((nat \<times> nat) \<times> byte list) list" where
  "log_ws s = map (\<lambda>i. ((1, log_start s + i + 1), kdata s (1, lh_block s ! i))) [0..<nat (lh_n s)]"

definition home_ws :: "'z log_st_scheme \<Rightarrow> ((nat \<times> nat) \<times> byte list) list" where
  "home_ws s = map (\<lambda>i. ((1, lh_block s ! i), kdata s (1, lh_block s ! i))) [0..<nat (lh_n s)]"

definition commit_hdr :: "'z log_st_scheme \<Rightarrow> byte list" where
  "commit_hdr s = hdr_put (lh_n s) (lh_block s) (kdata s (1, log_start s))"

definition commit_ws :: "'z log_st_scheme \<Rightarrow> ((nat \<times> nat) \<times> byte list) list" where
  "commit_ws s = log_ws s @ [((1, log_start s), commit_hdr s)] @ home_ws s @
     [((1, log_start s), hdr_put 0 (lh_block s) (commit_hdr s))]"

text \<open>Keys of the log area, of the home blocks, and what the log blocks hold afterwards.\<close>

lemma log_ws_keys: "log_ok c s \<Longrightarrow> k \<in> fst ` set (log_ws s) \<Longrightarrow> \<exists>b. k = (1, b) \<and> log_area s b \<and> b \<noteq> log_start s"
  by (auto simp: log_ws_def log_area_def log_ok_def)

lemma home_ws_keys: "fst ` set (home_ws s) = (\<lambda>i. (1, lh_block s ! i)) ` {..<nat (lh_n s)}"
  by (force simp: home_ws_def)

lemma home_ws_set:
  assumes "log_ok c s"
  shows "fst ` set (home_ws s) = Pair 1 ` set (logged s)"
proof -
  have "nat (lh_n s) \<le> length (lh_block s)" using assms by (auto simp: log_ok_def)
  then have "set (logged s) = (!) (lh_block s) ` {..<nat (lh_n s)}"
    using nth_image [of "nat (lh_n s)" "lh_block s"] by (simp add: logged_def atLeast0LessThan)
  then show ?thesis by (simp add: home_ws_keys image_image)
qed

lemma log_ws_value:
  "log_ok c s \<Longrightarrow> i < nat (lh_n s) \<Longrightarrow> put_all (log_ws s) f (1, log_start s + i + 1) = kdata s (1, lh_block s ! i)"
  unfolding log_ws_def
  by (rule put_all_map [of "\<lambda>i. (1, log_start s + i + 1)" "nat (lh_n s)" i "\<lambda>i. kdata s (1, lh_block s ! i)" f])
    (auto simp: inj_on_def)

lemma home_ws_value:
  assumes "log_ok c s" "i < nat (lh_n s)"
  shows "put_all (home_ws s) f (1, lh_block s ! i) = kdata s (1, lh_block s ! i)"
  unfolding home_ws_def using assms log_okD(6) [OF assms(1)]
  by (intro put_all_map [of "\<lambda>i. (1, lh_block s ! i)" "nat (lh_n s)" i "\<lambda>i. kdata s (1, lh_block s ! i)" f])
    (auto simp: inj_on_def)

lemma commit_law:
  assumes ok: "log_ok c s" and pos: "0 < lh_n s" and room: "card (dirty s) < NBUF"
    and all: "Pair 1 ` set (logged s) \<subseteq> dirty s"
  shows "\<exists>t. commit s = Done () t \<and> wrote c (commit_ws s) s t \<and> lh_n t = 0 \<and> kept_log s t"
proof -
  have geo: "log_dev s = 1" "log_start s < FSSIZE" "bio_inv {} s" using ok by (auto simp: log_ok_def)
  obtain s1 where 1: "write_log s = Done () s1" "blk_puts c (log_ws s) s s1"
    using write_log_law [OF ok room all] by (auto simp: log_ws_def)
  have k1: "kdata s1 (1, log_start s) = kdata s (1, log_start s)"
    using blk_puts_kdata [OF 1(2)] put_all_other [of "(1, log_start s)" "log_ws s"] log_ws_keys [OF ok] by fastforce
  obtain s2 where 2: "write_head s1 = Done () s2" "blk_puts c [((1, log_start s), commit_hdr s)] s1 s2"
    using write_head_law [of s1 c] blk_puts_ready [OF 1(2)] blk_puts_log [OF 1(2)] blk_puts_card [OF geo(3) 1(2)] room geo k1
    by (auto simp: commit_hdr_def)
  have p2: "blk_puts c (log_ws s @ [((1, log_start s), commit_hdr s)]) s s2" using blk_puts_append [OF 1(2) 2(2)] .
  note L2 = blk_puts_log [OF p2]
  have ok2: "log_ok c s2" using ok blk_puts_ready [OF p2] L2 by (simp add: log_ok_def logged_def log_area_def)
  have "k \<notin> fst ` set (log_ws s @ [((1, log_start s), commit_hdr s)])" if "k \<in> Pair 1 ` set (logged s)" for k
    using that log_ws_keys [OF ok, of k] ok by (auto simp: log_ok_def log_area_def)
  then have "Pair 1 ` set (logged s2) \<subseteq> dirty s2"
    using all blk_puts_dirty [OF p2] L2 by (auto simp: logged_def)
  then obtain s3 where 3: "install_trans s2 = Done () s3"
    "blk_puts c (map (\<lambda>i. ((1, lh_block s2 ! i), kdata s2 (1, log_start s2 + i + 1))) [0..<nat (lh_n s2)]) s2 s3"
    using install_law [OF ok2] blk_puts_card [OF geo(3) p2] room by auto
  have "kdata s2 (1, log_start s + i + 1) = kdata s (1, lh_block s ! i)" if "i < nat (lh_n s)" for i
    using blk_puts_kdata [OF p2, of "log_start s + i + 1"] log_ws_value [OF ok that, of "kdata s"]
    by (simp add: put_all_append)
  then have "map (\<lambda>i. ((1, lh_block s2 ! i), kdata s2 (1, log_start s2 + i + 1))) [0..<nat (lh_n s2)] = home_ws s"
    unfolding home_ws_def L2 by simp
  then have p3: "blk_puts c ((log_ws s @ [((1, log_start s), commit_hdr s)]) @ home_ws s) s s3"
    using blk_puts_append [OF p2] 3(2) by simp
  note L3 = blk_puts_log [OF p3]
  have "(1, log_start s) \<notin> fst ` set (home_ws s)"
    unfolding home_ws_set [OF ok] using ok by (auto simp: log_ok_def log_area_def)
  then have "kdata s3 (1, log_start s) = commit_hdr s"
    using blk_puts_kdata [OF p3, of "log_start s"] by (simp add: put_all_append put_all_other)
  then obtain t where t: "clear_head s3 = Done () t" "lh_n t = 0" "kept_log s3 t"
    "wrote c [((1, log_start s), hdr_put 0 (lh_block s) (commit_hdr s))] s3 t"
    using clear_head_law [of s3 c] blk_puts_ready [OF p3] L3 geo blk_puts_card [OF geo(3) p3] room by auto
  have "commit s = Done () t"
    using 1(1) 2(1) 3(1) t(1) pos by (simp add: commit_def kop_simps) (simp add: thn_def bnd_def ret_def)
  moreover have "wrote c (commit_ws s) s t"
    using wrote_append [OF blk_puts_wrote [OF p3] t(4)] by (simp add: commit_ws_def)
  moreover have "kept_log s t" using t(3) L3 by (simp add: kept_log_def)
  ultimately show ?thesis using t(2) by blast
qed

lemma read_head_law:
  fixes r :: "'z log_st_scheme"
  assumes inv: "bio_inv {} r" and rdy: "io_ready c r" and cl: "dirty r = {}" and geo: "log_dev r = 1" "log_start r < FSSIZE"
    and n: "hdr_n (disk r 1 (log_start r)) \<le> int LOGSIZE"
  shows "\<exists>t. read_head r = Done () t \<and> wrote c [] r t \<and> log_dev t = 1 \<and> log_start t = log_start r \<and> log_size t = log_size r \<and>
    lh_n t = hdr_n (disk r 1 (log_start r)) \<and>
    lh_block t = map (hdr_block (disk r 1 (log_start r))) [0..<nat (hdr_n (disk r 1 (log_start r)))] @
      drop (nat (hdr_n (disk r 1 (log_start r)))) (lh_block r)"
proof -
  let ?h = "disk r 1 (log_start r)"
  have ok: "blk_ok (1, log_start r)" using geo by (simp add: blk_ok_def)
  have "avail r (1, log_start r)" using avail_room [OF inv] cl by simp
  then obtain i s1 where 1: "bread 1 (log_start r) r = Done i s1" "bio_step c {i} r s1" "key s1 i = (1, log_start r)"
    "b_data (bufs s1 ! i) = kdata r (1, log_start r)"
    "\<forall>k. fst k \<noteq> 0 \<longrightarrow> kdata s1 k = kdata r k" "dirty s1 = dirty r" "disk s1 = disk r" "diskw s1 = diskw r"
    using bread_law [OF inv rdy ok] by auto
  have d: "b_data (bufs s1 ! i) = ?h"
    using kdata_clean [OF inv, of "(1, log_start r)"] cl 1(4) by simp
  note L1 = log_frame [of r s1]
  define s2 where "s2 = s1\<lparr>lh_n := hdr_n ?h,
     lh_block := map (hdr_block ?h) [0..<nat (hdr_n ?h)] @ drop (nat (hdr_n ?h)) (lh_block s1)\<rparr>"
  have v2: "bio_inv {i} s2" "io_ready c s2" "kdata s2 = kdata s1" "dirty s2 = dirty s1" "disk s2 = disk s1" "diskw s2 = diskw s1"
    "key s2 i = key s1 i" "bufs s2 = bufs s1"
    using 1(2) unfolding s2_def by (simp_all add: bio_step_def key_def)
  obtain t where t: "brelse i s2 = Done () t" "bio_step c {} s2 t"
    "\<forall>k. fst k \<noteq> 0 \<longrightarrow> kdata t k = kdata s2 k" "dirty t = dirty s2" "disk t = disk s2" "diskw t = diskw s2"
    using brelse_law [OF v2(1,2), of i] v2 d 1 by auto
  have L: "log_dev t = log_dev s2" "log_start t = log_start s2" "log_size t = log_size s2" "lh_n t = lh_n s2" "lh_block t = lh_block s2"
    using log_frame [of s2 t] t(2) by (simp_all add: bio_step_def)
  have L1': "log_dev s1 = 1" "log_start s1 = log_start r" "log_size s1 = log_size r" "lh_block s1 = lh_block r"
    using L1 1(2) geo by (simp_all add: bio_step_def)
  have "read_head r = Done () t"
    using 1(1) d t(1) n geo 
    by (simp add: read_head_def kop_simps bnd_Done [of "bread 1 (log_start r)"] s2_def Let_def del: One_nat_def)
      (simp add: thn_def bnd_def ret_def)
  moreover have "wrote c [] r t"
    using 1 v2 t inv rdy by (auto simp: wrote_def bio_step_def disk2_def fun_eq_iff)
  ultimately show ?thesis using L L1' by (intro exI [of _ t]) (simp add: s2_def)
qed

text \<open>A header that recovery can follow.\<close>

definition hdr_ok :: "'z log_st_scheme \<Rightarrow> byte list \<Rightarrow> bool" where
  "hdr_ok s h \<longleftrightarrow> 0 \<le> hdr_n h \<and> hdr_n h \<le> int LOGSIZE \<and> hdr_n h < int (log_size s) \<and>
     (\<forall>i < nat (hdr_n h). hdr_block h i < FSSIZE \<and> \<not> log_area s (hdr_block h i)) \<and>
     distinct (map (hdr_block h) [0..<nat (hdr_n h)])"

definition rebooted :: "nat \<Rightarrow> 'z log_st_scheme \<Rightarrow> (nat \<times> nat \<Rightarrow> byte list) \<Rightarrow> 'z log_st_scheme \<Rightarrow> bool" where
  "rebooted c s D r \<longleftrightarrow> bio_inv {} r \<and> io_ready c r \<and> dirty r = {} \<and> log_dev r = 1 \<and>
     log_start r = log_start s \<and> log_size r = log_size s \<and> length (lh_block r) = LOGSIZE \<and> disk2 r = D"

lemma recover_law:
  fixes r s :: "'z log_st_scheme"
  assumes re: "rebooted c s D r" and geo: "log_start s + log_size s \<le> FSSIZE"
    and h: "hdr_ok s (D (1, log_start s))" and n: "n = nat (hdr_n (D (1, log_start s)))"
  shows "\<exists>t X. recover_from_log r = Done () t \<and>
    disk2 t = put_all (map (\<lambda>i. ((1, hdr_block (D (1, log_start s)) i), D (1, log_start s + i + 1))) [0..<n] @ [((1, log_start s), X)]) D"
proof -
  let ?h = "D (1, log_start s)"
  have R: "bio_inv {} r" "io_ready c r" "dirty r = {}" "log_dev r = 1" "length (lh_block r) = LOGSIZE"
    and lr: "log_start r = log_start s" and lsz: "log_size r = log_size s" and d2: "disk2 r = D"
    using re unfolding rebooted_def by blast+
  have D: "disk r 1 b = D (1, b)" for b using fun_cong [OF d2, of "(1, b)"] by (simp add: disk2_def)
  have st: "log_start s < FSSIZE" using geo h by (auto simp: hdr_ok_def)
  obtain t1 where 1: "read_head r = Done () t1" "wrote c [] r t1" "log_dev t1 = 1" "log_start t1 = log_start s"
    "lh_n t1 = hdr_n ?h" "lh_block t1 = map (hdr_block ?h) [0..<n] @ drop n (lh_block r)" "log_size t1 = log_size s"
    using read_head_law [of r c, unfolded lr lsz D] R st h n by (auto simp: hdr_ok_def)
  have W: "bio_inv {} t1" "io_ready c t1" "dirty t1 = {}" "disk2 t1 = D"
    using 1(2) R(3) d2 by (simp_all add: wrote_def)
  have lg: "logged t1 = map (hdr_block ?h) [0..<n]" using 1(5,6) n by (simp add: logged_def)
  have nl: "n \<le> LOGSIZE" using n h by (auto simp: hdr_ok_def)
  have ok: "log_ok c t1"
    using W 1 R geo h nl n unfolding log_ok_def lg by (auto simp: hdr_ok_def log_area_def)
  have kd: "kdata t1 (1, b) = D (1, b)" for b
    using kdata_clean [OF W(1), of "(1, b)"] W(3,4) by (auto simp: disk2_def)
  have bl: "i < n \<Longrightarrow> lh_block t1 ! i = hdr_block ?h i" for i using 1(6) by (simp add: nth_append)
  obtain t2 where 2: "install_trans t1 = Done () t2"
    "blk_puts c (map (\<lambda>i. ((1, lh_block t1 ! i), kdata t1 (1, log_start t1 + i + 1))) [0..<nat (lh_n t1)]) t1 t2"
    using install_law [OF ok] W(3) by auto
  have ws: "map (\<lambda>i. ((1, lh_block t1 ! i), kdata t1 (1, log_start t1 + i + 1))) [0..<nat (lh_n t1)] =
      map (\<lambda>i. ((1, hdr_block ?h i), D (1, log_start s + i + 1))) [0..<n]"
    using bl n 1(4,5) kd by simp
  note p2 = 2(2) [unfolded ws]
  obtain t X where t: "clear_head t2 = Done () t" "wrote c [((1, log_start s), X)] t2 t"
    using clear_head_law [of t2 c] blk_puts_ready [OF p2] blk_puts_log [OF p2] 1 st blk_puts_dirty [OF p2] W(3) by auto
  have "recover_from_log r = Done () t"
    using 1(1) 2(1) t(1) by (simp add: recover_from_log_def) (simp add: thn_def bnd_def ret_def)
  then show ?thesis using p2 t(2) W(4) by (auto simp: wrote_def blk_puts_def put_all_append)
qed

section \<open>Crashes\<close>

text \<open>The disk after a crash: only the first of the writes have reached it.\<close>

fun apply_writes :: "(nat \<times> nat \<times> byte list) list \<Rightarrow> (nat \<times> nat \<Rightarrow> byte list) \<Rightarrow> nat \<times> nat \<Rightarrow> byte list" where
  "apply_writes [] f = f"
| "apply_writes ((d, b, v) # ws) f = apply_writes ws (f((d, b) := v))"

lemma apply_writes_put_all: "apply_writes (map (\<lambda>(k, v). (fst k, snd k, v)) ws) f = put_all ws f"
  by (induction ws f rule: put_all.induct) (simp_all del: fun_upd_apply)

text \<open>A transaction ready to commit: its blocks, and no others, are dirty, and the log on disk is empty.\<close>

definition to_commit :: "nat \<Rightarrow> 'z log_st_scheme \<Rightarrow> bool" where
  "to_commit c s \<longleftrightarrow> log_ok c s \<and> 0 < lh_n s \<and> lh_n s < int NBUF \<and> dirty s = Pair 1 ` set (logged s) \<and>
     hdr_n (disk s 1 (log_start s)) = 0 \<and> length (disk s 1 (log_start s)) = BSIZE"

lemma to_commitD:
  assumes "to_commit c s"
  shows "log_ok c s" "0 < lh_n s" "card (dirty s) < NBUF" "Pair 1 ` set (logged s) \<subseteq> dirty s"
    "kdata s (1, log_start s) = disk s 1 (log_start s)"
    "b \<notin> set (logged s) \<Longrightarrow> kdata s (1, b) = disk s 1 b"
proof -
  have T: "log_ok c s" "0 < lh_n s" "lh_n s < int NBUF" and d: "dirty s = Pair 1 ` set (logged s)"
    using assms by (auto simp: to_commit_def)
  show "log_ok c s" "0 < lh_n s" "Pair 1 ` set (logged s) \<subseteq> dirty s" using T d by auto
  have "card (dirty s) \<le> length (logged s)"
    unfolding d by (rule order_trans [OF card_image_le card_length]) simp
  then show "card (dirty s) < NBUF" using T by (simp add: logged_def) linarith
  have inv: "bio_inv {} s" using T by (simp add: log_ok_def)
  show cl: "kdata s (1, b) = disk s 1 b" if "b \<notin> set (logged s)" for b
    using kdata_clean [OF inv, of "(1, b)"] that d by auto
  have "log_start s \<notin> set (logged s)" using T by (auto simp: log_ok_def log_area_def)
  then show "kdata s (1, log_start s) = disk s 1 (log_start s)" by (rule cl)
qed

lemma commit_hdr_ok:
  assumes "to_commit c s"
  shows "hdr_n (commit_hdr s) = lh_n s" "\<And>i. i < nat (lh_n s) \<Longrightarrow> hdr_block (commit_hdr s) i = lh_block s ! i"
    "hdr_ok s (commit_hdr s)" "hdr_n (hdr_put 0 (lh_block s) (commit_hdr s)) = 0"
proof -
  note ok = to_commitD(1) [OF assms]
  have n: "0 \<le> lh_n s" "lh_n s \<le> int LOGSIZE" "length (lh_block s) = LOGSIZE" using ok by (auto simp: log_ok_def)
  have len: "length (kdata s (1, log_start s)) = BSIZE"
    using to_commitD(5) [OF assms] assms by (simp add: to_commit_def)
  show hn: "hdr_n (commit_hdr s) = lh_n s" using hdr_put_n [OF len n(1,2)] by (simp add: commit_hdr_def)
  show hb: "hdr_block (commit_hdr s) i = lh_block s ! i" if "i < nat (lh_n s)" for i
    using hdr_put_block [OF len n(2,3) that] log_okD(2) [OF ok that] by (simp add: commit_hdr_def blk_ok_def)
  have "map (hdr_block (commit_hdr s)) [0..<nat (lh_n s)] = logged s"
    using n by (intro nth_equalityI) (auto simp: hb logged_def)
  then show "hdr_ok s (commit_hdr s)"
    using hn hb n log_okD(2,4) [OF ok] ok unfolding hdr_ok_def hn by (auto simp: log_ok_def blk_ok_def)
  have "length (commit_hdr s) = BSIZE" using len n by (auto simp: commit_hdr_def)
  then show "hdr_n (hdr_put 0 (lh_block s) (commit_hdr s)) = 0" by (intro hdr_put_n) auto
qed

lemma log_ws_other:
  assumes "log_ok c s" "\<not> log_area s b \<or> b = log_start s"
  shows "put_all (take k (log_ws s)) f (1, b) = f (1, b)"
proof (rule put_all_other)
  show "(1, b) \<notin> fst ` set (take k (log_ws s))"
  proof
    assume "(1, b) \<in> fst ` set (take k (log_ws s))"
    then have "(1, b) \<in> fst ` set (log_ws s)" using set_take_subset by fastforce
    then show False using log_ws_keys [OF assms(1)] assms(2) by auto
  qed
qed

lemma home_ws_at:
  assumes "log_ok c s"
  shows "put_all (home_ws s) f (1, b) = (if b \<in> set (logged s) then kdata s (1, b) else f (1, b))"
proof (cases "b \<in> set (logged s)")
  case True
  then obtain i where "i < nat (lh_n s)" "lh_block s ! i = b"
    using assms by (auto simp: logged_def in_set_conv_nth)
  then show ?thesis using home_ws_value [OF assms, of i f] True by simp
next
  case False
  then show ?thesis using put_all_other [of "(1, b)" "home_ws s" f] home_ws_set [OF assms] by auto
qed

lemma home_ws_log_area:
  assumes "log_ok c s" "log_area s b"
  shows "put_all (take k (home_ws s)) f (1, b) = f (1, b)"
proof (rule put_all_other)
  show "(1, b) \<notin> fst ` set (take k (home_ws s))"
  proof
    assume "(1, b) \<in> fst ` set (take k (home_ws s))"
    then have "(1, b) \<in> fst ` set (home_ws s)" using set_take_subset by fastforce
    then show False using home_ws_set [OF assms(1)] assms by (auto simp: log_ok_def)
  qed
qed

lemma crash_before:
  fixes s r :: "'z log_st_scheme"
  assumes tc: "to_commit c s" and k: "k \<le> nat (lh_n s)" and re: "rebooted c s (put_all (take k (commit_ws s)) (disk2 s)) r"
  shows "\<exists>u. recover_from_log r = Done () u \<and> (\<forall>b. \<not> log_area s b \<longrightarrow> disk u 1 b = disk s 1 b)"
proof -
  note ok = to_commitD(1) [OF tc]
  define D where "D = put_all (take k (log_ws s)) (disk2 s)"
  have "take k (commit_ws s) = take k (log_ws s)" using k by (simp add: commit_ws_def log_ws_def)
  then have re': "rebooted c s D r" using re by (simp add: D_def)
  have "D (1, log_start s) = disk s 1 (log_start s)"
    unfolding D_def using log_ws_other [OF ok, of "log_start s"] by (simp add: disk2_def)
  then have h: "hdr_ok s (D (1, log_start s))" "nat (hdr_n (D (1, log_start s))) = 0"
    using tc log_ok_size [OF ok] by (auto simp: to_commit_def hdr_ok_def)
  have geo: "log_start s + log_size s \<le> FSSIZE" using ok by (simp add: log_ok_def)
  obtain u X where u: "recover_from_log r = Done () u" "disk2 u = put_all [((1, log_start s), X)] D"
    using recover_law [OF re' geo h(1) h(2) [symmetric]] by auto
  have "disk u 1 b = disk s 1 b" if "\<not> log_area s b" for b
  proof -
    have "disk u 1 b = D (1, b)" using fun_cong [OF u(2), of "(1, b)"] that log_ok_size [OF ok] by (auto simp: disk2_def log_area_def)
    then show ?thesis unfolding D_def using log_ws_other [OF ok, of b] that by (simp add: disk2_def)
  qed
  with u(1) show ?thesis by blast
qed

lemma crash_installing:
  fixes s r :: "'z log_st_scheme"
  assumes tc: "to_commit c s"
    and re: "rebooted c s (put_all (log_ws s @ [((1, log_start s), commit_hdr s)] @ take k (home_ws s)) (disk2 s)) r"
  shows "\<exists>u. recover_from_log r = Done () u \<and> (\<forall>b. \<not> log_area s b \<longrightarrow> disk u 1 b = kdata s (1, b))"
proof -
  note ok = to_commitD(1) [OF tc] and hdr = commit_hdr_ok [OF tc]
  define D where "D = put_all (log_ws s @ [((1, log_start s), commit_hdr s)] @ take k (home_ws s)) (disk2 s)"
  have re': "rebooted c s D r" using re by (simp add: D_def)
  have geo: "log_start s + log_size s \<le> FSSIZE" using ok by (simp add: log_ok_def)
  have h: "D (1, log_start s) = commit_hdr s"
    unfolding D_def using home_ws_log_area [OF ok, of "log_start s"] log_ok_size [OF ok] by (simp add: put_all_append log_area_def)
  have l: "D (1, log_start s + i + 1) = kdata s (1, lh_block s ! i)" if "i < nat (lh_n s)" for i
    unfolding D_def using home_ws_log_area [OF ok log_okD(5) [OF ok that]] log_ws_value [OF ok that]
    by (simp add: put_all_append)
  obtain u X where u: "recover_from_log r = Done () u" "disk2 u = put_all (map (\<lambda>i. ((1, hdr_block (commit_hdr s) i), D (1, log_start s + i + 1)))
      [0..<nat (lh_n s)] @ [((1, log_start s), X)]) D"
    using recover_law [OF re' geo] h hdr(1,3) by auto
  have "map (\<lambda>i. ((1, hdr_block (commit_hdr s) i), D (1, log_start s + i + 1))) [0..<nat (lh_n s)] = home_ws s"
    unfolding home_ws_def using l hdr(2) by simp
  then have u2: "disk2 u = put_all (home_ws s @ [((1, log_start s), X)]) D" using u(2) by simp
  have "disk u 1 b = kdata s (1, b)" if b: "\<not> log_area s b" for b
  proof -
    have "disk u 1 b = (if b \<in> set (logged s) then kdata s (1, b) else D (1, b))"
      using fun_cong [OF u2, of "(1, b)"] b log_ok_size [OF ok] home_ws_at [OF ok, of D b] by (auto simp: disk2_def log_area_def put_all_append)
    moreover have "D (1, b) = disk s 1 b" if nb: "b \<notin> set (logged s)"
    proof -
      have "(1, b) \<notin> fst ` set (home_ws s)" using nb home_ws_set [OF ok] by auto
      then have "(1, b) \<notin> fst ` set (take k (home_ws s))" using set_take_subset by fastforce
      then show ?thesis
        unfolding D_def using b log_ok_size [OF ok] log_ws_other [OF ok, of b "length (log_ws s)"]
        by (simp add: put_all_append put_all_other disk2_def log_area_def) auto
    qed
    ultimately show ?thesis using to_commitD(6) [OF tc, of b] by (auto split: if_splits)
  qed
  with u(1) show ?thesis by blast
qed

lemma committed_disk:
  assumes tc: "to_commit c s" and b: "\<not> log_area s b"
  shows "put_all (commit_ws s) (disk2 s) (1, b) = kdata s (1, b)"
proof -
  note ok = to_commitD(1) [OF tc]
  have "b \<noteq> log_start s" using b log_ok_size [OF ok] by (auto simp: log_area_def)
  then have "put_all (commit_ws s) (disk2 s) (1, b) = (if b \<in> set (logged s) then kdata s (1, b) else disk s 1 b)"
    using home_ws_at [OF ok, of _ b] log_ws_other [OF ok, of b "length (log_ws s)"] b
    by (simp add: commit_ws_def put_all_append disk2_def)
  then show ?thesis using to_commitD(6) [OF tc, of b] by (auto split: if_splits)
qed

lemma crash_after:
  fixes s r :: "'z log_st_scheme"
  assumes tc: "to_commit c s" and re: "rebooted c s (put_all (commit_ws s) (disk2 s)) r"
  shows "\<exists>u. recover_from_log r = Done () u \<and> (\<forall>b. \<not> log_area s b \<longrightarrow> disk u 1 b = kdata s (1, b))"
proof -
  note ok = to_commitD(1) [OF tc]
  define D where "D = put_all (commit_ws s) (disk2 s)"
  have re': "rebooted c s D r" using re by (simp add: D_def)
  have geo: "log_start s + log_size s \<le> FSSIZE" using ok by (simp add: log_ok_def)
  have "D (1, log_start s) = hdr_put 0 (lh_block s) (commit_hdr s)" by (simp add: D_def commit_ws_def put_all_append)
  then have h: "hdr_ok s (D (1, log_start s))" "nat (hdr_n (D (1, log_start s))) = 0"
    using commit_hdr_ok(4) [OF tc] log_ok_size [OF ok] by (auto simp: hdr_ok_def)
  obtain u X where u: "recover_from_log r = Done () u" "disk2 u = put_all [((1, log_start s), X)] D"
    using recover_law [OF re' geo h(1) h(2) [symmetric]] by auto
  have "disk u 1 b = kdata s (1, b)" if "\<not> log_area s b" for b
    using fun_cong [OF u(2), of "(1, b)"] that log_ok_size [OF ok] committed_disk [OF tc that] by (auto simp: disk2_def log_area_def D_def)
  with u(1) show ?thesis by blast
qed

text \<open>
  C30. Transactions are atomic: \<open>commit\<close> returns with the contents of every block of the
  transaction on disk, and if the machine stops after any number \<open>k\<close> of its disk writes,
  recovery from the disk as it is then returns and leaves all data blocks as they were before
  the transaction, when the header had not been written, and as the transaction left them,
  when it had.
\<close>

theorem commit_atomic:
  fixes s :: "'z log_st_scheme"
  assumes "to_commit c s"
  shows "\<exists>t W. commit s = Done () t \<and> diskw t = diskw s @ W \<and>
    (\<forall>b. \<not> log_area s b \<longrightarrow> disk t 1 b = kdata s (1, b)) \<and>
    (\<forall>k r. rebooted c s (apply_writes (take k W) (disk2 s)) r \<longrightarrow>
      (\<exists>u. recover_from_log r = Done () u \<and>
        (\<forall>b. \<not> log_area s b \<longrightarrow> disk u 1 b = (if k \<le> nat (lh_n s) then disk s 1 b else kdata s (1, b)))))"
proof -
  note D = to_commitD [OF assms]
  obtain t where t: "commit s = Done () t" "wrote c (commit_ws s) s t" using commit_law [OF D(1-4)] by blast
  let ?W = "map (\<lambda>(k, v). (fst k, snd k, v)) (commit_ws s)"
  have "disk t 1 b = kdata s (1, b)" if "\<not> log_area s b" for b
    using t(2) committed_disk [OF assms that] by (simp add: wrote_def disk2_def fun_eq_iff)
  moreover have "\<exists>u. recover_from_log r = Done () u \<and>
      (\<forall>b. \<not> log_area s b \<longrightarrow> disk u 1 b = (if k \<le> nat (lh_n s) then disk s 1 b else kdata s (1, b)))"
    if re: "rebooted c s (apply_writes (take k ?W) (disk2 s)) r" for k r
  proof -
    have re': "rebooted c s (put_all (take k (commit_ws s)) (disk2 s)) r"
      using re by (simp add: take_map apply_writes_put_all)
    let ?n = "nat (lh_n s)"
    have len: "length (log_ws s) = ?n" "length (home_ws s) = ?n" by (simp_all add: log_ws_def home_ws_def)
    consider "k \<le> ?n" | "?n < k" "k \<le> 2 * ?n + 1" | "2 * ?n + 2 \<le> k" by linarith
    then show ?thesis
    proof cases
      case 1
      then show ?thesis using crash_before [OF assms 1 re'] by simp
    next
      case 2
      then have "take k (commit_ws s) = log_ws s @ [((1, log_start s), commit_hdr s)] @ take (k - Suc ?n) (home_ws s)"
        using len by (simp add: commit_ws_def take_Cons' Suc_diff_Suc)
      then show ?thesis using crash_installing [OF assms] re' 2 by simp
    next
      case 3
      then have "take k (commit_ws s) = commit_ws s" using len by (simp add: commit_ws_def)
      then show ?thesis using crash_after [OF assms] re' 3 by simp
    qed
  qed
  ultimately show ?thesis using t by (intro exI [of _ t] exI [of _ ?W]) (simp add: wrote_def)
qed

text \<open>A disk of zeroes and a transaction of one block, with new contents in the cache.\<close>

definition log_boot :: "(nat \<times> nat \<Rightarrow> byte list) \<Rightarrow> log_st" where
  "log_boot D = \<lparr>held = {}, procs = [proc0\<lparr>p_state := RUNNING\<rparr>], curp = Some 0, nextpid = 2, initproc = 0,
     mem = (\<lambda>_. 0), freelist = 0, use_lock = True, kend = 0xFFFF800000150000, pipes = Map.empty,
     bufs = replicate NBUF buf0, idequeue = [], havedisk1 = True, ide_regs = (\<lambda>_. 0), ide_fault = False,
     disk = (\<lambda>d b. D (d, b)), diskw = [], lru = [0..<NBUF], log_start = 2, log_size = 30, log_outstanding = 0,
     log_committing = False, log_dev = 1, lh_n = 0, lh_block = replicate LOGSIZE 0\<rparr>"

definition new_block :: "byte list" where
  "new_block = replicate BSIZE 7"

definition one_block :: log_st where
  "one_block = (log_boot (\<lambda>_. replicate BSIZE 0))
     \<lparr>bufs := (replicate NBUF buf0)[0 := buf0\<lparr>b_valid := True, b_dirty := True, b_dev := 1, b_blockno := 50, b_data := new_block\<rparr>],
      lh_n := 1, lh_block := 50 # replicate 29 0\<rparr>"

lemma log_boot_rebooted: "rebooted 0 one_block D (log_boot D)"
  by (auto simp: rebooted_def log_boot_def one_block_def bio_inv_def io_ready_def running_def proc0_def dirty_def
      key_def buf0_def unlocked_def disk2_def fun_eq_iff)

lemma one_block_bufs:
  "i < NBUF \<Longrightarrow> bufs one_block ! i =
     (if i = 0 then buf0\<lparr>b_valid := True, b_dirty := True, b_dev := 1, b_blockno := 50, b_data := new_block\<rparr> else buf0)"
  by (cases i) (simp_all add: one_block_def)

lemma one_block_inv: "bio_inv {} one_block"
  by (auto simp: bio_inv_def key_def one_block_bufs buf0_def unlocked_def)
    (simp_all add: one_block_def log_boot_def atLeast0LessThan)

lemma one_block_dirty: "dirty one_block = {(1, 50)}"
proof -
  have "b_dirty (bufs one_block ! i) \<longleftrightarrow> i = 0" "i = 0 \<Longrightarrow> key one_block i = (1, 50)" if "i < NBUF" for i
    using one_block_bufs [OF that] by (simp_all add: buf0_def key_def)
  then show ?thesis by (auto simp: dirty_def intro: exI [of _ 0])
qed

lemma one_block_to_commit: "to_commit 0 one_block"
proof -
  have "le_val (slice 0 4 (replicate BSIZE (0 :: byte))) = 0" by (simp add: slice_def)
  then have "hdr_n (replicate BSIZE 0) = 0" by (simp add: hdr_n_def u32_at_def signed32_def)
  moreover have "logged one_block = [50]" by (simp add: logged_def one_block_def)
  moreover have "io_ready 0 one_block" by (simp add: io_ready_def running_def one_block_def log_boot_def proc0_def)
  ultimately show ?thesis
    using one_block_inv one_block_dirty
    by (simp add: to_commit_def log_ok_def log_area_def) (simp add: one_block_def log_boot_def)
qed

lemma one_block_kdata: "kdata one_block (1, 50) = new_block"
  using kdata_cached [OF one_block_inv, of 0 "(1, 50)"] by (simp add: one_block_def key_def)

theorem commit_atomic_witness:
  "to_commit 0 one_block \<and>
   (\<exists>t W u v. commit one_block = Done () t \<and> disk t 1 50 = new_block \<and>
      recover_from_log (log_boot (apply_writes (take 1 W) (disk2 one_block))) = Done () u \<and> disk u 1 50 = replicate BSIZE 0 \<and>
      recover_from_log (log_boot (apply_writes (take 2 W) (disk2 one_block))) = Done () v \<and> disk v 1 50 = new_block)"
proof -
  have b: "\<not> log_area one_block 50" "lh_n one_block = 1" "disk one_block 1 50 = replicate BSIZE 0"
    by (simp_all add: log_area_def one_block_def log_boot_def)
  obtain t W where t: "commit one_block = Done () t" "\<forall>b. \<not> log_area one_block b \<longrightarrow> disk t 1 b = kdata one_block (1, b)"
    and r: "\<And>k r. rebooted 0 one_block (apply_writes (take k W) (disk2 one_block)) r \<Longrightarrow>
      \<exists>u. recover_from_log r = Done () u \<and>
        (\<forall>b. \<not> log_area one_block b \<longrightarrow> disk u 1 b = (if k \<le> nat (lh_n one_block) then disk one_block 1 b else kdata one_block (1, b)))"
    using commit_atomic [OF one_block_to_commit] by blast
  obtain u where u: "recover_from_log (log_boot (apply_writes (take 1 W) (disk2 one_block))) = Done () u"
    "disk u 1 50 = replicate BSIZE 0"
    using r [OF log_boot_rebooted, of 1] b by auto
  obtain v where v: "recover_from_log (log_boot (apply_writes (take 2 W) (disk2 one_block))) = Done () v"
    "disk v 1 50 = new_block"
    using r [OF log_boot_rebooted, of 2] b one_block_kdata by auto
  have "disk t 1 50 = new_block" using t(2) b(1) one_block_kdata by simp
  with one_block_to_commit t(1) u v show ?thesis by blast
qed

section \<open>The reservation of log space\<close>

lemma absorb_less: "absorb n b bs \<le> n"
  by (induction n b bs rule: absorb.induct) auto

lemma absorb_found: "n \<le> length bs \<Longrightarrow> absorb n b bs < n \<longleftrightarrow> b \<in> set (take n bs)"
  by (induction n b bs rule: absorb.induct) auto

lemma absorb_at: "n \<le> length bs \<Longrightarrow> absorb n b bs < n \<Longrightarrow> bs ! absorb n b bs = b"
  by (induction n b bs rule: absorb.induct) (auto split: if_splits)

text \<open>What \<open>log_write\<close> does to the list of logged blocks: a block is entered once.\<close>

lemma log_write_run:
  assumes "LkLog \<notin> held s" "0 \<le> lh_n s" "lh_n s < int LOGSIZE" "lh_n s < int (log_size s) - 1" "1 \<le> log_outstanding s"
    "length (lh_block s) = LOGSIZE"
  shows "\<exists>t. log_write i s = Done () t \<and> held t = held s \<and> log_outstanding t = log_outstanding s \<and>
    log_committing t = log_committing s \<and> length (lh_block t) = LOGSIZE \<and> log_size t = log_size s \<and>
    logged t = (if b_blockno (bufs s ! i) \<in> set (logged s) then logged s else logged s @ [b_blockno (bufs s ! i)]) \<and>
    lh_n t = int (length (logged t)) \<and> bufs t = (bufs s)[i := (bufs s ! i)\<lparr>b_dirty := True\<rparr>] \<and>
    t\<lparr>bufs := bufs s, lh_n := lh_n s, lh_block := lh_block s\<rparr> = s"
proof -
  let ?b = "b_blockno (bufs s ! i)" let ?n = "nat (lh_n s)"
  define a where "a = absorb ?n ?b (lh_block s)"
  let ?t = "s\<lparr>lh_block := (lh_block s)[a := ?b], lh_n := (if int a = lh_n s then lh_n s + 1 else lh_n s),
     bufs := (bufs s)[i := (bufs s ! i)\<lparr>b_dirty := True\<rparr>]\<rparr>"
  have run: "log_write i s = Done () ?t"
    using assms by (simp add: log_write_def kop_simps a_def Let_def)
  have n: "?n < LOGSIZE" "?n \<le> length (lh_block s)" using assms by auto
  have "logged ?t = (if ?b \<in> set (logged s) then logged s else logged s @ [?b])"
  proof (cases "?b \<in> set (logged s)")
    case True
    then have "a < ?n" "lh_block s ! a = ?b"
      using absorb_found [OF n(2), of ?b] absorb_at [OF n(2), of ?b] by (auto simp: a_def logged_def)
    moreover from this have "int a \<noteq> lh_n s" using assms(2) by simp
    moreover from calculation have "(lh_block s)[a := ?b] = lh_block s" using list_update_id [of "lh_block s" a] by simp
    ultimately show ?thesis using True by (simp add: logged_def)
  next
    case False
    then have "a = ?n"
      using absorb_found [OF n(2), of ?b] absorb_less [of ?n ?b "lh_block s"] by (simp add: a_def logged_def)
    moreover have "nat (lh_n s + 1) = Suc ?n" using assms(2) by simp
    ultimately show ?thesis using False n assms by (simp add: logged_def take_Suc_conv_app_nth)
  qed
  moreover have "lh_n ?t = int (length (logged ?t))"
    using n assms absorb_less [of ?n ?b "lh_block s"] by (auto simp: logged_def a_def)
  ultimately show ?thesis using run assms(6) by (intro exI [of _ ?t]) simp
qed

text \<open>
  The system calls between \<open>begin_op\<close> and \<open>end_op\<close>, in every interleaving: \<open>B\<close> holds, for each of
  them, how many more blocks it may enter into the log, at first \<open>MAXOPBLOCKS\<close>. Between these
  operations anything may happen that leaves \<open>struct log\<close> alone.
\<close>

definition same_log :: "log_st \<Rightarrow> log_st \<Rightarrow> bool" where
  "same_log s t \<longleftrightarrow> log_size t = log_size s \<and> log_outstanding t = log_outstanding s \<and>
     log_committing t = log_committing s \<and> lh_n t = lh_n s \<and> lh_block t = lh_block s"

definition last_end :: "log_st \<Rightarrow> log_st" where
  "last_end s = s\<lparr>log_outstanding := 0, log_committing := True\<rparr>"

inductive log_sys :: "nat \<Rightarrow> log_st \<Rightarrow> nat list \<Rightarrow> bool" for c where
  start: "lh_n s = 0 \<Longrightarrow> log_outstanding s = 0 \<Longrightarrow> \<not> log_committing s \<Longrightarrow> length (lh_block s) = LOGSIZE \<Longrightarrow>
    LOGSIZE < log_size s \<Longrightarrow> log_sys c s []"
| other: "log_sys c s B \<Longrightarrow> same_log s t \<Longrightarrow> log_sys c t B"
| begin_some: "log_sys c s B \<Longrightarrow> begin_op s = Done () t \<Longrightarrow> log_sys c t (MAXOPBLOCKS # B)"
| write_some: "log_sys c s B \<Longrightarrow> i < length B \<Longrightarrow> 0 < B ! i \<Longrightarrow> log_write b s = Done () t \<Longrightarrow>
    log_sys c t (B[i := B ! i - (if lh_n t = lh_n s then 0 else 1)])"
| end_some: "log_sys c s (B @ x # B') \<Longrightarrow> B @ B' \<noteq> [] \<Longrightarrow> end_op s = Done () t \<Longrightarrow> log_sys c t (B @ B')"
| end_last: "log_sys c s [x] \<Longrightarrow> lh_n s = 0 \<or> to_commit c (last_end s) \<Longrightarrow> end_op s = Done () t \<Longrightarrow> log_sys c t []"

definition log_room :: "log_st \<Rightarrow> nat list \<Rightarrow> bool" where
  "log_room s B \<longleftrightarrow> 0 \<le> lh_n s \<and> lh_n s + int (sum_list B) \<le> int LOGSIZE \<and> log_outstanding s = int (length B) \<and>
     (\<forall>x \<in> set B. x \<le> MAXOPBLOCKS) \<and> length (lh_block s) = LOGSIZE \<and> LOGSIZE < log_size s"

lemma begin_op_Done:
  assumes "begin_op s = Done () t"
  shows "lh_n s + (log_outstanding s + 1) * int MAXOPBLOCKS \<le> int LOGSIZE \<and> \<not> log_committing s \<and>
    t = s\<lparr>log_outstanding := log_outstanding s + 1\<rparr>"
proof -
  have "LkLog \<notin> held s" using assms by (auto simp: begin_op_def kop_simps)
  have no_sleep: "sleep ChLog LkLog u \<noteq> Done () v" for u v :: "'a log_st_scheme"
    by (auto simp: sleep_def sched_def swtch_def thn_Done_iff)
  show ?thesis
    using assms no_sleep \<open>LkLog \<notin> held s\<close>
    by (auto simp: begin_op_def begin_op_loop_def kop_simps split: if_splits)
qed

lemma sum_list_bound: "(\<forall>x \<in> set B. x \<le> m) \<Longrightarrow> sum_list B \<le> length B * (m :: nat)"
  by (induction B) auto

lemma end_op_some:
  fixes s t :: log_st
  assumes "end_op s = Done () t" "log_outstanding s \<noteq> 1"
  shows "log_outstanding t = log_outstanding s - 1 \<and> lh_n t = lh_n s \<and> lh_block t = lh_block s \<and> log_size t = log_size s"
proof -
  have l: "LkLog \<notin> held s" using assms(1) by (auto simp: end_op_def kop_simps)
  have p: "LkPtable \<notin> held s"
  proof
    assume "LkPtable \<in> held s"
    then have "wakeup ChLog u = Panicked ''acquire''" if "held u = insert LkLog (held s)" for u :: log_st
      using that by (simp add: wakeup_def kop_simps)
    then show False using assms l by (auto simp: end_op_def kop_simps thn_stop split: if_splits)
  qed
  show ?thesis using assms l p by (auto simp: end_op_def kop_simps split: if_splits)
qed

lemma end_op_last:
  fixes s t :: log_st
  assumes "end_op s = Done () t" "log_outstanding s = 1" "lh_n s = 0 \<or> to_commit c (last_end s)"
  shows "log_outstanding t = 0 \<and> lh_n t = 0 \<and> lh_block t = lh_block s \<and> log_size t = log_size s"
proof -
  have l: "LkLog \<notin> held s" using assms(1) by (auto simp: end_op_def kop_simps)
  have "\<exists>u. commit (last_end s) = Done () u \<and> lh_n u = 0 \<and> kept_log (last_end s) u"
  proof (cases "lh_n s = 0")
    case True
    then show ?thesis by (simp add: commit_def kop_simps last_end_def kept_log_def)
  next
    case False
    then have "to_commit c (last_end s)" using assms(3) by blast
    then show ?thesis using commit_law [OF to_commitD(1-4)] by blast
  qed
  then obtain u where u: "commit (last_end s) = Done () u" "lh_n u = 0" "kept_log (last_end s) u" by blast
  have c: "\<not> log_committing s" using assms(1,2) l by (auto simp: end_op_def kop_simps split: if_splits)
  have "end_op s = steps [acquire LkLog, modify (\<lambda>s. s\<lparr>log_committing := False\<rparr>), wakeup ChLog, release LkLog] u"
    using l c assms(2) u(1) by (simp add: end_op_def kop_simps last_end_def) (simp add: thn_def bnd_def)
  then have e: "steps [acquire LkLog, modify (\<lambda>s. s\<lparr>log_committing := False\<rparr>), wakeup ChLog, release LkLog] u = Done () t"
    using assms(1) by simp
  have l': "LkLog \<notin> held u" using e by (auto simp: kop_simps)
  have "LkPtable \<notin> held u"
  proof
    assume "LkPtable \<in> held u"
    then have "wakeup ChLog v = Panicked ''acquire''" if "held v = insert LkLog (held u)" for v :: log_st
      using that by (simp add: wakeup_def kop_simps)
    then show False using e l' by (auto simp: kop_simps thn_stop)
  qed
  then show ?thesis using e l' u(2,3) by (auto simp: kop_simps kept_log_def last_end_def)
qed

lemma log_sys_room: "log_sys c s B \<Longrightarrow> log_room s B"
proof (induction rule: log_sys.induct)
  case (start s)
  then show ?case by (simp add: log_room_def)
next
  case (other s B t)
  then show ?case by (simp add: log_room_def same_log_def)
next
  case (begin_some s B t)
  then show ?case
    using begin_op_Done [OF begin_some(2)] sum_list_bound [of B MAXOPBLOCKS] by (auto simp: log_room_def)
next
  case (write_some s B i b t)
  note R = write_some.IH [unfolded log_room_def]
  have "B ! i \<le> sum_list B" using write_some(2) by (simp add: member_le_sum_list)
  then have n: "lh_n s < int LOGSIZE" using R write_some(3) by linarith
  have "LkLog \<notin> held s"
    using write_some(4) by (auto simp: log_write_def kop_simps split: if_splits)
  then obtain u where u: "log_write b s = Done () u" "log_outstanding u = log_outstanding s" "length (lh_block u) = LOGSIZE"
    "log_size u = log_size s" "lh_n u = int (length (logged u))"
    "logged u = (if b_blockno (bufs s ! b) \<in> set (logged s) then logged s else logged s @ [b_blockno (bufs s ! b)])"
    using log_write_run [of s b] R n write_some(2) by (cases B) auto
  have "length (logged s) = nat (lh_n s)" using R n by (simp add: logged_def)
  then have step: "lh_n t = lh_n s \<or> lh_n t = lh_n s + 1" using u write_some(4) R by auto
  have "sum_list (B[i := B ! i - 1]) = sum_list B - 1" using write_some(2,3) by (simp add: sum_list_update)
  moreover have "\<forall>x \<in> set (B[i := B ! i - 1]). x \<le> MAXOPBLOCKS"
  proof
    fix x assume "x \<in> set (B[i := B ! i - 1])"
    then have "x = B ! i - 1 \<or> x \<in> set B" using set_update_subset_insert by fastforce
    then show "x \<le> MAXOPBLOCKS" using R nth_mem [OF write_some(2)] by fastforce
  qed
  ultimately show ?case
    using R u step write_some(2-4) \<open>B ! i \<le> sum_list B\<close>
    by (auto simp: log_room_def)
next
  case (end_some s B x B' t)
  have "log_outstanding s \<noteq> 1" using end_some(2) end_some.IH by (cases B; cases B') (auto simp: log_room_def)
  then show ?case using end_op_some [OF end_some(3)] end_some.IH by (auto simp: log_room_def)
next
  case (end_last s x t)
  then show ?case using end_op_last [OF end_last(3) _ end_last(2)] by (auto simp: log_room_def)
qed



text \<open>
  The cache has as many buffers as the log has blocks: when a transaction of \<open>NBUF\<close> blocks has
  made every buffer dirty, \<open>commit\<close> finds no buffer for the log block and panics.
\<close>

theorem full_log_panics:
  fixes s :: "'z log_st_scheme"
  assumes "bio_inv {} s" "running c s" "0 < lh_n s" "\<forall>i<NBUF. b_dirty (bufs s ! i)"
    "\<forall>i<NBUF. key s i \<noteq> (log_dev s, log_start s + 1)"
  shows "commit s = Panicked ''bget: no buffers''"
proof -
  have sh: "set (lru s) = {..<NBUF}" using bio_inv_shape [OF assms(1)] by simp
  have "find (\<lambda>b. b_dev (bufs s ! b) = log_dev s \<and> b_blockno (bufs s ! b) = log_start s + 1) (lru s) = None"
    using assms(5) sh by (auto simp: find_None_iff key_def)
  moreover have "find (\<lambda>b. b_refcnt (bufs s ! b) = 0 \<and> \<not> b_dirty (bufs s ! b)) (rev (lru s)) = None"
    using assms(4) sh by (auto simp: find_None_iff)
  ultimately have "bread (log_dev s) (log_start s + 1) s = Panicked ''bget: no buffers''"
    using assms(2) by (simp add: bread_def bget_def kop_simps running_def)
  moreover obtain n where "nat (lh_n s) = Suc n" using assms(3) by (cases "nat (lh_n s)") auto
  ultimately have "write_log s = Panicked ''bget: no buffers''"
    by (simp add: write_log_def kop_simps upt_conv_Cons del: upt_Suc) (simp add: thn_def bnd_def gets_def)
  then show ?thesis using assms(3) by (simp add: commit_def kop_simps thn_stop)
qed

end
