(* ===== verification/Vm.thy ===== *)
theory Vm
  imports Log
begin

text \<open>
  Page tables, src/vm.c and the page-table macros of src/mmu.h. The four-level tables live in
  the kernel's byte-addressed memory, as in the source: an entry is a 64-bit word, a table a page
  from \<open>kalloc\<close>. A null pointer is 0, and reading or writing through it in the kernel is a fault
  that \<open>trap\<close> turns into a panic. \<open>loaduvm\<close>, which reads from an inode, is in theory \<open>Exec\<close>.
\<close>

section \<open>Model\<close>

definition PMX :: "addr \<Rightarrow> addr" where "PMX va = drop_bit 39 va AND 0x1FF"
definition PDPX :: "addr \<Rightarrow> addr" where "PDPX va = drop_bit 30 va AND 0x1FF"
definition PDX :: "addr \<Rightarrow> addr" where "PDX va = drop_bit 21 va AND 0x1FF"
definition PTX :: "addr \<Rightarrow> addr" where "PTX va = drop_bit 12 va AND 0x1FF"

abbreviation (input) PTE_P :: addr where "PTE_P \<equiv> 1"
abbreviation (input) PTE_W :: addr where "PTE_W \<equiv> 2"
abbreviation (input) PTE_U :: addr where "PTE_U \<equiv> 4"
abbreviation (input) PTE_PWT :: addr where "PTE_PWT \<equiv> 8"
abbreviation (input) PTE_PCD :: addr where "PTE_PCD \<equiv> 0x10"
abbreviation (input) PTE_PS :: addr where "PTE_PS \<equiv> 0x80"

definition PTE_ADDR :: "addr \<Rightarrow> addr" where "PTE_ADDR pte = pte AND NOT 0xFFF"
definition PTE_FLAGS :: "addr \<Rightarrow> addr" where "PTE_FLAGS pte = pte AND 0xFFF"

record vm_st = log_st +
  kpml4 :: addr
  kpdpt :: addr
  cr3 :: addr
  cpu_local :: addr

definition deref :: "addr \<Rightarrow> ('s, 'a) kop \<Rightarrow> ('s, 'a) kop" where
  "deref p m = (if p = 0 then panic ''trap'' else m)"

definition get64 :: "addr \<Rightarrow> ('z kmem_st_scheme, addr) kop" where
  "get64 a = gets (\<lambda>s. load64 (mem s) a)"

definition set64 :: "addr \<Rightarrow> addr \<Rightarrow> ('z kmem_st_scheme, unit) kop" where
  "set64 a v = modify (\<lambda>s. s\<lparr>mem := store64 a v (mem s)\<rparr>)"

definition zero_page :: "addr \<Rightarrow> ('z kmem_st_scheme, unit) kop" where
  "zero_page p = modify (\<lambda>s. s\<lparr>mem := memset p 0 PGSIZE (mem s)\<rparr>)"

text \<open>
  One level of \<open>walkpgdir\<close>: the table that the entry at address \<open>ea\<close> points to, made if it is
  missing and \<open>alloc\<close> is set; \<open>None\<close> when the walk returns 0.
\<close>

definition walk_level :: "bool \<Rightarrow> addr \<Rightarrow> ('z kmem_st_scheme, addr option) kop" where
  "walk_level alloc ea = bnd (get64 ea) (\<lambda>e.
     if e AND PTE_P \<noteq> 0 then ret (Some (P2V (PTE_ADDR e)))
     else if \<not> alloc then ret None
     else bnd kalloc (\<lambda>p. if p = 0 then ret None
       else thn (zero_page p) (thn (set64 ea (V2P p OR PTE_P OR PTE_W OR PTE_U)) (ret (Some p)))))"

definition walkpgdir :: "addr \<Rightarrow> addr \<Rightarrow> bool \<Rightarrow> ('z kmem_st_scheme, addr) kop" where
  "walkpgdir pml4 va alloc =
     bnd (walk_level alloc (pml4 + 8 * PMX va)) (\<lambda>pdp. case pdp of None \<Rightarrow> ret 0 | Some pdp \<Rightarrow>
     bnd (walk_level alloc (pdp + 8 * PDPX va)) (\<lambda>pd. case pd of None \<Rightarrow> ret 0 | Some pd \<Rightarrow>
     bnd (walk_level alloc (pd + 8 * PDX va)) (\<lambda>pgtab. case pgtab of None \<Rightarrow> ret 0 | Some pgtab \<Rightarrow>
       ret (pgtab + 8 * PTX va))))"

text \<open>
  The loop of \<open>mappages\<close> from \<open>a\<close> to \<open>last\<close>, both page-aligned: it comes to \<open>last\<close> after \<open>n\<close> further
  rounds.
\<close>

fun mappages_loop :: "addr \<Rightarrow> addr \<Rightarrow> addr \<Rightarrow> addr \<Rightarrow> nat \<Rightarrow> ('z kmem_st_scheme, int) kop" where
  "mappages_loop pgdir a pa perm n = bnd (walkpgdir pgdir a True) (\<lambda>pte.
     if pte = 0 then ret (- 1)
     else bnd (get64 pte) (\<lambda>e. thn (panic_if (e AND PTE_P \<noteq> 0) ''remap'')
       (thn (set64 pte (pa OR perm OR PTE_P))
       (case n of 0 \<Rightarrow> ret 0 | Suc n \<Rightarrow> mappages_loop pgdir (a + PGSIZE) (pa + PGSIZE) perm n))))"

definition mappages :: "addr \<Rightarrow> addr \<Rightarrow> addr \<Rightarrow> addr \<Rightarrow> addr \<Rightarrow> ('z kmem_st_scheme, int) kop" where
  "mappages pgdir va sz pa perm =
     (let a = PGROUNDDOWN va; last = PGROUNDDOWN (va + sz - 1)
      in mappages_loop pgdir a pa perm (unat (last - a) div 4096))"

definition inituvm :: "addr \<Rightarrow> addr \<Rightarrow> uint32 \<Rightarrow> ('z kmem_st_scheme, unit) kop" where
  "inituvm pgdir init sz = thn (panic_if (ucast sz \<ge> PGSIZE) ''inituvm: more than a page'')
     (bnd kalloc (\<lambda>p. deref p (thn (zero_page p)
       (thn (mappages pgdir PGSIZE PGSIZE (V2P p) (PTE_W OR PTE_U))
       (modify (\<lambda>s. s\<lparr>mem := memmove p init sz (mem s)\<rparr>))))))"

text \<open>The pages \<open>a\<close>, \<open>a + PGSIZE\<close>, ... below \<open>lim\<close>, in the order of the loops over user memory.\<close>

definition user_pages :: "addr \<Rightarrow> addr \<Rightarrow> addr list" where
  "user_pages a lim = (if a < lim then pages_from a ((unat (lim - a) + 4095) div 4096) else [])"

definition dealloc_page :: "addr \<Rightarrow> addr \<Rightarrow> ('z kmem_st_scheme, unit) kop" where
  "dealloc_page pgdir a = bnd (walkpgdir pgdir a False) (\<lambda>pte.
     only_if (pte \<noteq> 0) (bnd (get64 pte) (\<lambda>e. only_if (e AND PTE_P \<noteq> 0) (steps
       [panic_if (PTE_ADDR e = 0) ''kfree'', kfree (P2V (PTE_ADDR e)), set64 pte 0]))))"

definition deallocuvm :: "addr \<Rightarrow> uint64 \<Rightarrow> uint64 \<Rightarrow> ('z kmem_st_scheme, uint64) kop" where
  "deallocuvm pgdir oldsz newsz =
     (if newsz \<ge> oldsz then ret oldsz
      else thn (for_each (user_pages (PGROUNDUP newsz) oldsz) (dealloc_page pgdir)) (ret newsz))"

fun allocuvm_loop :: "addr \<Rightarrow> uint64 \<Rightarrow> uint64 \<Rightarrow> addr list \<Rightarrow> ('z kmem_st_scheme, uint64) kop" where
  "allocuvm_loop pgdir oldsz newsz [] = ret newsz"
| "allocuvm_loop pgdir oldsz newsz (a # as) = bnd kalloc (\<lambda>p.
     if p = 0 then thn (deallocuvm pgdir newsz oldsz) (ret 0)
     else thn (zero_page p) (bnd (mappages pgdir a PGSIZE (V2P p) (PTE_W OR PTE_U)) (\<lambda>r.
       if r < 0 then thn (deallocuvm pgdir newsz oldsz) (thn (kfree p) (ret 0))
       else allocuvm_loop pgdir oldsz newsz as)))"

definition allocuvm :: "addr \<Rightarrow> uint64 \<Rightarrow> uint64 \<Rightarrow> ('z kmem_st_scheme, uint64) kop" where
  "allocuvm pgdir oldsz newsz =
     (if newsz \<ge> KERNBASE then ret 0
      else if newsz < oldsz then ret oldsz
      else allocuvm_loop pgdir oldsz newsz (user_pages (PGROUNDUP oldsz) newsz))"

text \<open>The nested loops of \<open>freevm\<close>; \<open>present f\<close> runs \<open>f\<close> on the table of a present entry.\<close>

definition present :: "addr \<Rightarrow> (addr \<Rightarrow> ('z kmem_st_scheme, unit) kop) \<Rightarrow> ('z kmem_st_scheme, unit) kop" where
  "present ea f = bnd (get64 ea) (\<lambda>e. only_if (e AND PTE_P \<noteq> 0) (f (P2V (PTE_ADDR e))))"

definition freevm :: "addr \<Rightarrow> ('z kmem_st_scheme, unit) kop" where
  "freevm pml4 = steps [panic_if (pml4 = 0) ''freevm: no pgdir'',
     for_each [0..<256] (\<lambda>i. present (pml4 + 8 * of_nat i) (\<lambda>pdp. thn
       (for_each [0..<512] (\<lambda>j. present (pdp + 8 * of_nat j) (\<lambda>pd. thn
         (for_each [0..<512] (\<lambda>k. present (pd + 8 * of_nat k) (\<lambda>pt. thn
           (for_each [0..<512] (\<lambda>l. present (pt + 8 * of_nat l) kfree))
           (kfree pt))))
         (kfree pd))))
       (kfree pdp))),
     kfree pml4]"

definition clearpteu :: "addr \<Rightarrow> addr \<Rightarrow> ('z kmem_st_scheme, unit) kop" where
  "clearpteu pgdir uva = bnd (walkpgdir pgdir uva False) (\<lambda>pte.
     thn (panic_if (pte = 0) ''clearpteu'') (bnd (get64 pte) (\<lambda>e. set64 pte (e AND NOT PTE_U))))"

definition uva2ka :: "addr \<Rightarrow> addr \<Rightarrow> ('z kmem_st_scheme, addr) kop" where
  "uva2ka pgdir uva = bnd (walkpgdir pgdir uva False) (\<lambda>pte. deref pte (bnd (get64 pte) (\<lambda>e.
     if e AND PTE_P = 0 then ret 0
     else if e AND PTE_U = 0 then ret 0
     else ret (P2V (PTE_ADDR e)))))"

text \<open>
  \<open>copyout\<close> of the bytes \<open>bs\<close>: each round copies up to the end of the page of \<open>va\<close>.
\<close>

lemma page_offset: "va - PGROUNDDOWN va = va mod PGSIZE"
  by (simp add: PGROUNDDOWN_mod)

lemma page_offset_less: "unat (va - PGROUNDDOWN va) < 4096"
  unfolding page_offset by (simp add: unat_mod_distrib)

function copyout :: "addr \<Rightarrow> addr \<Rightarrow> byte list \<Rightarrow> ('z kmem_st_scheme, int) kop" where
  "copyout pgdir va bs = (if bs = [] then ret 0
     else let va0 = PGROUNDDOWN va in bnd (uva2ka pgdir va0) (\<lambda>pa0.
       if pa0 = 0 then ret (- 1)
       else let n = min (length bs) (4096 - unat (va - va0)) in
         thn (modify (\<lambda>s. s\<lparr>mem := mwrite (pa0 + (va - va0)) (take n bs) (mem s)\<rparr>))
           (copyout pgdir (va0 + PGSIZE) (drop n bs))))"
  by pat_completeness auto

termination copyout
  by (relation "measure (\<lambda>(pgdir, va, bs). length bs)") (auto simp: page_offset_less)

declare copyout.simps [simp del]

text \<open>The kernel's own tables, and the tables of a new process, which share the kernel half.\<close>

definition setupkvm :: "('z vm_st_scheme, addr) kop" where
  "setupkvm = bnd kalloc (\<lambda>pml4. deref pml4 (thn (zero_page pml4) (bnd (gets kpdpt) (\<lambda>k.
     thn (set64 (pml4 + 8 * 256) (V2P k OR PTE_P OR PTE_W)) (ret pml4)))))"

definition switchkvm :: "('z vm_st_scheme, unit) kop" where
  "switchkvm = modify (\<lambda>s. s\<lparr>cr3 := V2P (kpml4 s)\<rparr>)"

definition kvmalloc :: "('z vm_st_scheme, unit) kop" where
  "kvmalloc = bnd kalloc (\<lambda>p4. thn (modify (\<lambda>s. s\<lparr>kpml4 := p4\<rparr>)) (deref p4 (thn (zero_page p4)
     (bnd kalloc (\<lambda>p3. thn (modify (\<lambda>s. s\<lparr>kpdpt := p3\<rparr>)) (deref p3 (thn (zero_page p3) (steps
       [set64 (p4 + 8 * PMX KERNBASE) (V2P p3 OR PTE_P OR PTE_W),
        set64 p3 (PTE_PS OR PTE_P OR PTE_W),
        set64 (p3 + 8 * 3) (0xC0000000 OR PTE_PS OR PTE_P OR PTE_W OR PTE_PWT OR PTE_PCD),
        switchkvm]))))))))"

definition switchuvm :: "nat \<Rightarrow> ('z vm_st_scheme, unit) kop" where
  "switchuvm p = bnd (gets id) (\<lambda>s. let q = procs s ! p; stktop = p_kstack q + 4096; tss = cpu_local s + 1024 in steps
     [panic_if (p_pgdir q = 0) ''switchuvm: no pgdir'',
      modify (\<lambda>s. s\<lparr>mem := store32 (tss + 4) (ucast stktop) (mem s)\<rparr>),
      modify (\<lambda>s. s\<lparr>mem := store32 (tss + 8) (ucast (drop_bit 32 stktop)) (mem s)\<rparr>),
      modify (\<lambda>s. s\<lparr>cr3 := V2P (p_pgdir q)\<rparr>)])"

text \<open>\<open>copyuvm\<close> takes the size as a 32-bit \<open>uint\<close>.\<close>

fun copyuvm_loop :: "addr \<Rightarrow> addr \<Rightarrow> addr list \<Rightarrow> ('z vm_st_scheme, addr) kop" where
  "copyuvm_loop pgdir d [] = ret d"
| "copyuvm_loop pgdir d (i # is) = bnd (walkpgdir pgdir i False) (\<lambda>pte.
     thn (panic_if (pte = 0) ''copyuvm: pte should exist'') (bnd (get64 pte) (\<lambda>e.
     thn (panic_if (e AND PTE_P = 0) ''copyuvm: page not present'') (bnd kalloc (\<lambda>p.
       if p = 0 then thn (freevm d) (ret 0)
       else thn (modify (\<lambda>s. s\<lparr>mem := memmove p (P2V (PTE_ADDR e)) 4096 (mem s)\<rparr>))
         (bnd (mappages d i PGSIZE (V2P p) (PTE_FLAGS e)) (\<lambda>r.
            if r < 0 then thn (freevm d) (ret 0) else copyuvm_loop pgdir d is)))))))"

definition copyuvm :: "addr \<Rightarrow> uint32 \<Rightarrow> ('z vm_st_scheme, addr) kop" where
  "copyuvm pgdir sz = bnd setupkvm (\<lambda>d. if d = 0 then ret 0
     else copyuvm_loop pgdir d (user_pages PGSIZE (ucast sz)))"

section \<open>Addresses through the page table\<close>

text \<open>
  What the processor does with the tables: \<open>vwalk\<close> is the address of the entry of \<open>va\<close>, if the
  tables above it are present, \<open>vaddr\<close> the place in the kernel's mapping of physical memory that \<open>va\<close>
  is translated to. The upper half is the kernel's own mapping. In kernel mode an address that
  is not mapped faults, which \<open>trap\<close> turns into a panic.
\<close>

definition next_tab :: "mem \<Rightarrow> addr \<Rightarrow> addr option" where
  "next_tab m ea = (let e = load64 m ea in if e AND PTE_P \<noteq> 0 then Some (P2V (PTE_ADDR e)) else None)"

definition vwalk :: "mem \<Rightarrow> addr \<Rightarrow> addr \<Rightarrow> addr option" where
  "vwalk m pml4 va = (case next_tab m (pml4 + 8 * PMX va) of None \<Rightarrow> None | Some pdp \<Rightarrow>
     (case next_tab m (pdp + 8 * PDPX va) of None \<Rightarrow> None | Some pd \<Rightarrow>
     (case next_tab m (pd + 8 * PDX va) of None \<Rightarrow> None | Some pt \<Rightarrow> Some (pt + 8 * PTX va))))"

definition vaddr :: "mem \<Rightarrow> addr \<Rightarrow> addr \<Rightarrow> addr option" where
  "vaddr m pml4 va = (if va \<ge> KERNBASE then Some va else if va \<ge> 0x800000000000 then None
     else case vwalk m pml4 va of None \<Rightarrow> None | Some pte \<Rightarrow>
       map_option (\<lambda>p. p + (va AND 0xFFF)) (next_tab m pte))"

fun vread :: "mem \<Rightarrow> addr \<Rightarrow> addr \<Rightarrow> nat \<Rightarrow> byte list option" where
  "vread m pml4 va 0 = Some []"
| "vread m pml4 va (Suc n) = (case vaddr m pml4 va of None \<Rightarrow> None
     | Some a \<Rightarrow> map_option ((#) (m a)) (vread m pml4 (va + 1) n))"

definition uread :: "addr \<Rightarrow> nat \<Rightarrow> ('z vm_st_scheme, byte list) kop" where
  "uread va n = bnd (gets id) (\<lambda>s. case vread (mem s) (P2V (cr3 s)) va n of None \<Rightarrow> panic ''trap'' | Some bs \<Rightarrow> ret bs)"

fun uwrite :: "addr \<Rightarrow> byte list \<Rightarrow> ('z vm_st_scheme, unit) kop" where
  "uwrite va [] = ret ()"
| "uwrite va (b # bs) = bnd (gets id) (\<lambda>s. case vaddr (mem s) (P2V (cr3 s)) va of None \<Rightarrow> panic ''trap''
     | Some a \<Rightarrow> thn (modify (\<lambda>s. s\<lparr>mem := (mem s)(a := b)\<rparr>)) (uwrite (va + 1) bs))"

declare mappages_loop.simps [simp del]

end
