(* ===== verification/Pagetable.thy ===== *)
theory Pagetable
  imports Vm
begin

text \<open>
  The mapping contract of \<open>vm.c\<close>. The page table of a process is a four-level tree of pages in the memory
  that also holds the free list of \<open>kalloc.c\<close>. \<open>vm_ok\<close> says that it is a tree (every table but the root
  is pointed to by exactly one present entry), disjoint from the free pages. The laws of \<open>walk_level\<close> and
  \<open>walkpgdir\<close> keep it while they add tables, so that different pages have different entries
  (\<open>vwalk_inj\<close>); from this follows what \<open>mappages\<close> does to the translation \<open>vaddr\<close> of every user address.
\<close>


section \<open>Entries of page tables\<close>

definition slot :: "addr \<Rightarrow> addr \<Rightarrow> addr" where
  "slot t i = t + 8 * i"

lemma aligned_page:
  assumes "t mod PGSIZE = 0"
  obtains a where "unat t = 4096 * a" "a < 4503599627370496"
proof -
  have "unat t mod 4096 = 0" using assms unat_mod_distrib [of t 4096] by simp
  then have "unat t = 4096 * (unat t div 4096)" by auto
  moreover have "unat t div 4096 < 4503599627370496" using unat_addr_less [of t] by (intro less_mult_imp_div_less) simp
  ultimately show ?thesis using that by blast
qed

lemma unat_slot:
  assumes "t mod PGSIZE = 0" "i < 512"
  shows "unat (slot t i) = unat t + 8 * unat i"
proof -
  have i: "unat i < 512" using assms(2) by (simp add: word_less_nat_alt)
  obtain a where a: "unat t = 4096 * a" "a < 4503599627370496" by (rule aligned_page [OF assms(1)])
  have "unat t + 8 * unat i < 2 ^ 64" using i a by simp
  moreover have "unat (8 * i) = 8 * unat i" using i by (simp add: unat_word_ariths)
  ultimately show ?thesis by (simp add: slot_def unat_word_ariths)
qed

lemma slot_eq_iff:
  assumes "t mod PGSIZE = 0" "i < 512" "u mod PGSIZE = 0" "j < 512"
  shows "slot t i = slot u j \<longleftrightarrow> t = u \<and> i = j"
proof
  assume "slot t i = slot u j"
  then have "unat t + 8 * unat i = unat u + 8 * unat j" using unat_slot assms by metis
  moreover have "unat i < 512" "unat j < 512" using assms by (simp_all add: word_less_nat_alt)
  moreover obtain a where a: "unat t = 4096 * a" by (rule aligned_page [OF assms(1)])
  moreover obtain b where b: "unat u = 4096 * b" by (rule aligned_page [OF assms(3)])
  ultimately have "a = b" by linarith
  with a b \<open>unat t + 8 * unat i = unat u + 8 * unat j\<close> have "unat t = unat u \<and> unat i = unat j" by simp
  then show "t = u \<and> i = j" by (simp add: word_unat_eq_iff)
qed simp

lemma words_apart:
  fixes a b :: addr
  assumes "unat a = 8 * x" "unat b = 8 * y" "a \<noteq> b"
  shows "apart a 8 b 8"
proof -
  have "x \<noteq> y" using assms by (auto simp: word_unat_eq_iff)
  then have "8 * x < 8 * y \<or> 8 * y < 8 * x" by linarith
  moreover have "x < 2305843009213693952" "y < 2305843009213693952"
    using assms(1,2) unat_addr_less [of a] unat_addr_less [of b] by linarith+
  ultimately show ?thesis
    using assms(1,2) \<open>x \<noteq> y\<close> unfolding apart_def by (auto simp: unat_sub_if_size word_size)
qed

lemma slots_apart:
  assumes "t mod PGSIZE = 0" "i < 512" "u mod PGSIZE = 0" "j < 512" "(t, i) \<noteq> (u, j)"
  shows "apart (slot t i) 8 (slot u j) 8"
proof -
  obtain a where a: "unat t = 4096 * a" by (rule aligned_page [OF assms(1)])
  obtain b where b: "unat u = 4096 * b" by (rule aligned_page [OF assms(3)])
  have "unat (slot t i) = 8 * (512 * a + unat i)" "unat (slot u j) = 8 * (512 * b + unat j)"
    using a b by (simp_all add: unat_slot assms)
  then show ?thesis using words_apart slot_eq_iff [OF assms(1-4)] assms(5) by (metis Pair_inject)
qed

lemma in_page_slot:
  assumes "i < 512" "k < 8"
  shows "in_page t (slot t i + of_nat k)"
proof -
  have i: "unat i < 512" using assms(1) by (simp add: word_less_nat_alt)
  have e: "slot t i + of_nat k - t = 8 * i + of_nat k" by (simp add: slot_def)
  have "unat (8 * i + of_nat k) = 8 * unat i + k" using i assms(2) by (simp add: unat_word_ariths unat_of_nat)
  with i assms(2) show ?thesis by (simp add: in_page_def e)
qed

lemma in_page_iff:
  assumes "p mod PGSIZE = 0"
  shows "in_page p x \<longleftrightarrow> PGROUNDDOWN x = p"
proof -
  obtain a where a: "unat p = 4096 * a" "a < 4503599627370496" by (rule aligned_page [OF assms])
  define q r where "q = unat x div 4096" and "r = unat x mod 4096"
  have x: "unat x = 4096 * q + r" "r < 4096" by (simp_all add: q_def r_def)
  have "in_page p x \<longleftrightarrow> q = a"
  proof (cases "unat p \<le> unat x")
    case True
    then have "unat (x - p) = unat x - unat p" by (simp add: unat_sub_if_size)
    with True a x show ?thesis unfolding in_page_def by linarith
  next
    case False
    then have "unat (x - p) = unat x + 2 ^ 64 - unat p" by (simp add: unat_sub_if_size word_size)
    moreover have "q < a" using False a x by linarith
    ultimately show ?thesis using a x unfolding in_page_def by simp
  qed
  also have "\<dots> \<longleftrightarrow> PGROUNDDOWN x = p" using a by (simp add: word_unat_eq_iff unat_PGROUNDDOWN q_def)
  finally show ?thesis .
qed

lemma load64_same:
  assumes "\<And>x. in_page t x \<Longrightarrow> m' x = m x" "i < 512"
  shows "load64 m' (slot t i) = load64 m (slot t i)"
proof -
  have "mread m' (slot t i) 8 = mread m (slot t i) 8"
    using assms(1) in_page_slot [OF assms(2)] by (intro nth_equalityI) auto
  then show ?thesis by (simp add: load64_def)
qed

lemma index_less: "x AND 0x1FF < (512 :: addr)"
proof -
  have "x AND 0x1FF = take_bit 9 x" by (simp add: take_bit_eq_mask mask_eq_exp_minus_1)
  then show ?thesis by (simp add: take_bit_eq_mod word_less_nat_alt unat_mod_distrib)
qed

lemma unat_index: "unat (drop_bit k va AND 0x1FF) = unat (va :: addr) div 2 ^ k mod 512"
proof -
  have "drop_bit k va AND 0x1FF = take_bit 9 (drop_bit k va)" by (simp add: take_bit_eq_mask mask_eq_exp_minus_1)
  then have "drop_bit k va AND 0x1FF = drop_bit k va mod 512" by (simp add: take_bit_eq_mod)
  then have "unat (drop_bit k va AND 0x1FF) = unat (drop_bit k va) mod 512" by (simp add: unat_mod_distrib)
  moreover have "unat (drop_bit k va) = unat va div 2 ^ k" by (metis unat_drop_bit_eq drop_bit_eq_div)
  ultimately show ?thesis by simp
qed

lemma same_digits: "x div 512 = y div 512 \<Longrightarrow> x mod 512 = y mod 512 \<Longrightarrow> x = (y :: nat)"
  using div_mult_mod_eq [of x 512] div_mult_mod_eq [of y 512] by linarith

lemma page_indices:
  assumes "va < 0x800000000000" "vb < 0x800000000000"
    "PMX va = PMX vb" "PDPX va = PDPX vb" "PDX va = PDX vb" "PTX va = PTX vb"
  shows "PGROUNDDOWN va = PGROUNDDOWN vb"
proof -
  define u v where "u = unat va div 4096" and "v = unat vb div 4096"
  have ix: "unat (PMX a) = unat a div 4096 div 512 div 512 div 512 mod 512" "unat (PDPX a) = unat a div 4096 div 512 div 512 mod 512"
    "unat (PDX a) = unat a div 4096 div 512 mod 512" "unat (PTX a) = unat a div 4096 mod 512" for a
    by (simp_all add: PMX_def PDPX_def PDX_def PTX_def unat_index div_mult2_eq [symmetric])
  have lt: "u div 512 div 512 div 512 < 512" "v div 512 div 512 div 512 < 512"
    using assms(1,2) by (simp_all add: u_def v_def div_mult2_eq [symmetric] less_mult_imp_div_less word_less_nat_alt)
  have "u div 512 div 512 div 512 mod 512 = v div 512 div 512 div 512 mod 512"
    using arg_cong [OF assms(3), of unat] by (simp only: ix u_def v_def)
  then have "u div 512 div 512 div 512 = v div 512 div 512 div 512" using lt by simp
  moreover have "u div 512 div 512 mod 512 = v div 512 div 512 mod 512" "u div 512 mod 512 = v div 512 mod 512" "u mod 512 = v mod 512"
    using arg_cong [OF assms(4), of unat] arg_cong [OF assms(5), of unat] arg_cong [OF assms(6), of unat]
    by (simp_all only: ix u_def v_def)
  ultimately have "u = v" by (blast intro: same_digits)
  then show ?thesis by (simp add: word_unat_eq_iff unat_PGROUNDDOWN u_def v_def)
qed

lemma aligned_diff:
  fixes a b :: addr
  assumes "a mod PGSIZE = 0" "b mod PGSIZE = 0"
  shows "(a - b) mod PGSIZE = 0"
proof -
  obtain x where x: "unat a = 4096 * x" by (rule aligned_page [OF assms(1)])
  obtain y where y: "unat b = 4096 * y" by (rule aligned_page [OF assms(2)])
  have "unat (a - b) = 4096 * (if unat b \<le> unat a then x - y else x + 4503599627370496 - y)"
    using x y by (simp add: unat_sub_if_size word_size diff_mult_distrib2)
  then have "unat ((a - b) mod PGSIZE) = 0" by (simp add: unat_mod_distrib)
  then show ?thesis by (simp add: unat_eq_zero)
qed

lemma and_4095: "(x :: addr) AND 0xFFF = x mod PGSIZE"
  using take_bit_eq_mask [of 12 x] by (simp add: take_bit_eq_mod mask_eq_exp_minus_1)

lemma small_and_not: "f < PGSIZE \<Longrightarrow> f AND NOT 0xFFF = 0"
proof -
  assume "f < PGSIZE"
  then have "f AND 0xFFF = f" unfolding and_4095 by (simp add: word_less_nat_alt word_unat_eq_iff unat_mod_distrib)
  then show ?thesis using and_split [of f "0xFFF"] by simp
qed

lemma PTE_ADDR_or:
  assumes "x mod PGSIZE = 0" "f AND NOT 0xFFF = 0"
  shows "PTE_ADDR (x OR f) = x"
proof -
  have "x AND NOT 0xFFF = x" using and_split [of x "0xFFF"] assms(1) by (simp add: and_4095)
  then show ?thesis using assms(2) by (simp add: PTE_ADDR_def bit.conj_disj_distrib2)
qed


section \<open>Trees of page tables\<close>

text \<open>
  \<open>T l\<close> are the tables of level \<open>l\<close> of the tree under \<open>root\<close>: 4 is the root, 1 the tables whose entries
  are pages. Every table but the root is pointed to by exactly one present entry. Of the root, only
  the lower half belongs to the process.
\<close>

definition ents :: "nat \<Rightarrow> addr" where
  "ents l = (if l = 4 then 256 else 512)"

definition tables :: "(nat \<Rightarrow> addr set) \<Rightarrow> addr set" where
  "tables T = T 1 \<union> T 2 \<union> T 3 \<union> T 4"

definition pt_ok :: "mem \<Rightarrow> addr \<Rightarrow> (nat \<Rightarrow> addr set) \<Rightarrow> bool" where
  "pt_ok m root T \<longleftrightarrow> T 4 = {root} \<and>
     (\<forall>l k. 1 \<le> l \<longrightarrow> l \<le> 4 \<longrightarrow> 1 \<le> k \<longrightarrow> k \<le> 4 \<longrightarrow> l \<noteq> k \<longrightarrow> T l \<inter> T k = {}) \<and>
     (\<forall>l. 1 \<le> l \<longrightarrow> l \<le> 3 \<longrightarrow> (\<forall>t\<in>T (Suc l). \<forall>i<ents (Suc l). \<forall>p. next_tab m (slot t i) = Some p \<longrightarrow> p \<in> T l)) \<and>
     (\<forall>l. 1 \<le> l \<longrightarrow> l \<le> 3 \<longrightarrow> (\<forall>p\<in>T l. \<exists>!e. fst e \<in> T (Suc l) \<and> snd e < ents (Suc l) \<and> next_tab m (slot (fst e) (snd e)) = Some p))"

definition vm_ok :: "'z kmem_st_scheme \<Rightarrow> addr list \<Rightarrow> addr \<Rightarrow> (nat \<Rightarrow> addr set) \<Rightarrow> bool" where
  "vm_ok s ps root T \<longleftrightarrow> kmem_inv s ps \<and> pt_ok (mem s) root T \<and> tables T \<inter> set ps = {} \<and>
     (\<forall>t\<in>tables T. page_ok (kend s) t)"

text \<open>Nothing but memory and the free list has changed.\<close>

definition mem_frame :: "'z kmem_st_scheme \<Rightarrow> 'z kmem_st_scheme \<Rightarrow> bool" where
  "mem_frame s s' \<longleftrightarrow> s' = s\<lparr>mem := mem s', freelist := freelist s'\<rparr>"

lemma mem_frame_trans: "mem_frame s t \<Longrightarrow> mem_frame t u \<Longrightarrow> mem_frame s u"
  unfolding mem_frame_def by (cases s, cases t, cases u) simp

text \<open>
  \<open>vm_ext\<close>: the tree has grown by empty tables taken from the free pages; no entry that was present
  and no entry for a page has changed, nor has memory outside the tables and the free pages.
\<close>

definition vm_ext :: "'z kmem_st_scheme \<Rightarrow> addr list \<Rightarrow> (nat \<Rightarrow> addr set) \<Rightarrow> 'z kmem_st_scheme \<Rightarrow> addr list \<Rightarrow> (nat \<Rightarrow> addr set) \<Rightarrow> bool" where
  "vm_ext s ps T s' ps' T' \<longleftrightarrow> (\<forall>l. 1 \<le> l \<longrightarrow> l \<le> 4 \<longrightarrow> T l \<subseteq> T' l) \<and> set ps' \<subseteq> set ps \<and> tables T' \<subseteq> tables T \<union> set ps \<and>
     (\<forall>l. 1 \<le> l \<longrightarrow> l \<le> 3 \<longrightarrow> (\<forall>t\<in>T (Suc l). \<forall>i<512. next_tab (mem s) (slot t i) \<noteq> None \<longrightarrow> load64 (mem s') (slot t i) = load64 (mem s) (slot t i))) \<and>
     (\<forall>t\<in>T 1. \<forall>i<512. load64 (mem s') (slot t i) = load64 (mem s) (slot t i)) \<and>
     (\<forall>t\<in>T' 1 - T 1. \<forall>i<512. load64 (mem s') (slot t i) = 0) \<and>
     (\<forall>x. PGROUNDDOWN x \<notin> tables T \<union> set ps \<longrightarrow> mem s' x = mem s x) \<and>
     mem_frame s s'"

lemma vm_ext_refl: "vm_ext s ps T s ps T"
  by (simp add: vm_ext_def mem_frame_def)

lemma vm_extD:
  assumes "vm_ext s ps T s' ps' T'"
  shows "1 \<le> l \<Longrightarrow> l \<le> 4 \<Longrightarrow> t \<in> T l \<Longrightarrow> t \<in> T' l" and "set ps' \<subseteq> set ps" and "tables T' \<subseteq> tables T \<union> set ps"
    and "1 \<le> l \<Longrightarrow> l \<le> 3 \<Longrightarrow> t \<in> T (Suc l) \<Longrightarrow> i < 512 \<Longrightarrow> next_tab (mem s) (slot t i) \<noteq> None \<Longrightarrow>
      load64 (mem s') (slot t i) = load64 (mem s) (slot t i)"
    and "t \<in> T 1 \<Longrightarrow> i < 512 \<Longrightarrow> load64 (mem s') (slot t i) = load64 (mem s) (slot t i)"
    and "t \<in> T' 1 \<Longrightarrow> t \<notin> T 1 \<Longrightarrow> i < 512 \<Longrightarrow> load64 (mem s') (slot t i) = 0"
    and "PGROUNDDOWN x \<notin> tables T \<Longrightarrow> PGROUNDDOWN x \<notin> set ps \<Longrightarrow> mem s' x = mem s x"
    and "mem_frame s s'"
  using assms unfolding vm_ext_def by blast+

lemma vm_ext_trans:
  assumes a: "vm_ext s ps T s1 ps1 T1" and b: "vm_ext s1 ps1 T1 s2 ps2 T2"
  shows "vm_ext s ps T s2 ps2 T2"
  unfolding vm_ext_def
proof (intro conjI ballI allI impI)
  fix l :: nat assume "1 \<le> l" "l \<le> 4"
  then show "T l \<subseteq> T2 l" using vm_extD(1) [OF a] vm_extD(1) [OF b] by blast
next
  fix l :: nat and t i :: addr assume h: "1 \<le> l" "l \<le> 3" "t \<in> T (Suc l)" "i < 512" "next_tab (mem s) (slot t i) \<noteq> None"
  have e: "load64 (mem s1) (slot t i) = load64 (mem s) (slot t i)" using vm_extD(4) [OF a, of l t i] h by simp
  then have "next_tab (mem s1) (slot t i) \<noteq> None" using h(5) by (simp add: next_tab_def)
  moreover have "t \<in> T1 (Suc l)" using vm_extD(1) [OF a, of "Suc l" t] h by simp
  ultimately show "load64 (mem s2) (slot t i) = load64 (mem s) (slot t i)" using vm_extD(4) [OF b, of l t i] h e by simp
next
  fix t and i :: addr assume "t \<in> T 1" "i < 512"
  then show "load64 (mem s2) (slot t i) = load64 (mem s) (slot t i)"
    using vm_extD(5) [OF a] vm_extD(5) [OF b] vm_extD(1) [OF a, of 1] by simp
next
  fix t and i :: addr assume "t \<in> T2 1 - T 1" "i < 512"
  then show "load64 (mem s2) (slot t i) = 0" using vm_extD(5) [OF b] vm_extD(6) [OF a] vm_extD(6) [OF b] by (cases "t \<in> T1 1") auto
next
  show "mem_frame s s2" using mem_frame_trans vm_extD(8) [OF a] vm_extD(8) [OF b] by blast
next
  show "set ps2 \<subseteq> set ps" "tables T2 \<subseteq> tables T \<union> set ps"
    using vm_extD(2,3) [OF a] vm_extD(2,3) [OF b] by auto
next
  fix x assume x: "PGROUNDDOWN x \<notin> tables T \<union> set ps"
  then have "PGROUNDDOWN x \<notin> tables T1" "PGROUNDDOWN x \<notin> set ps1" using vm_extD(2,3) [OF a] by auto
  then show "mem s2 x = mem s x" using vm_extD(7) [OF a, of x] vm_extD(7) [OF b, of x] x by simp
qed

lemma pt_okD:
  assumes "pt_ok m root T"
  shows "T 4 = {root}"
    and "1 \<le> l \<Longrightarrow> l \<le> 3 \<Longrightarrow> t \<in> T (Suc l) \<Longrightarrow> i < ents (Suc l) \<Longrightarrow> next_tab m (slot t i) = Some p \<Longrightarrow> p \<in> T l"
    and "1 \<le> l \<Longrightarrow> l \<le> 3 \<Longrightarrow> p \<in> T l \<Longrightarrow> \<exists>t i. t \<in> T (Suc l) \<and> i < ents (Suc l) \<and> next_tab m (slot t i) = Some p"
    and "1 \<le> l \<Longrightarrow> l \<le> 3 \<Longrightarrow> p \<in> T l \<Longrightarrow> t \<in> T (Suc l) \<Longrightarrow> i < ents (Suc l) \<Longrightarrow> next_tab m (slot t i) = Some p \<Longrightarrow>
      u \<in> T (Suc l) \<Longrightarrow> j < ents (Suc l) \<Longrightarrow> next_tab m (slot u j) = Some p \<Longrightarrow> t = u \<and> i = j"
    and "1 \<le> l \<Longrightarrow> l \<le> 4 \<Longrightarrow> 1 \<le> k \<Longrightarrow> k \<le> 4 \<Longrightarrow> t \<in> T l \<Longrightarrow> t \<in> T k \<Longrightarrow> l = k"
proof -
  note a = assms [unfolded pt_ok_def]
  show "T 4 = {root}" using a by blast
  show "1 \<le> l \<Longrightarrow> l \<le> 3 \<Longrightarrow> t \<in> T (Suc l) \<Longrightarrow> i < ents (Suc l) \<Longrightarrow> next_tab m (slot t i) = Some p \<Longrightarrow> p \<in> T l"
    using a by blast
  have ex1: "1 \<le> l \<Longrightarrow> l \<le> 3 \<Longrightarrow> p \<in> T l \<Longrightarrow>
    \<exists>!e. fst e \<in> T (Suc l) \<and> snd e < ents (Suc l) \<and> next_tab m (slot (fst e) (snd e)) = Some p" using a by blast
  show "1 \<le> l \<Longrightarrow> l \<le> 3 \<Longrightarrow> p \<in> T l \<Longrightarrow> \<exists>t i. t \<in> T (Suc l) \<and> i < ents (Suc l) \<and> next_tab m (slot t i) = Some p"
    using ex1 by blast
  show "1 \<le> l \<Longrightarrow> l \<le> 3 \<Longrightarrow> p \<in> T l \<Longrightarrow> t \<in> T (Suc l) \<Longrightarrow> i < ents (Suc l) \<Longrightarrow> next_tab m (slot t i) = Some p \<Longrightarrow>
      u \<in> T (Suc l) \<Longrightarrow> j < ents (Suc l) \<Longrightarrow> next_tab m (slot u j) = Some p \<Longrightarrow> t = u \<and> i = j"
    using ex1 by (metis fst_conv snd_conv)
  show "1 \<le> l \<Longrightarrow> l \<le> 4 \<Longrightarrow> 1 \<le> k \<Longrightarrow> k \<le> 4 \<Longrightarrow> t \<in> T l \<Longrightarrow> t \<in> T k \<Longrightarrow> l = k"
    using a by blast
qed

lemma vwalk_iff:
  "vwalk m root va = Some pte \<longleftrightarrow> (\<exists>p3 p2 p1. next_tab m (slot root (PMX va)) = Some p3 \<and>
     next_tab m (slot p3 (PDPX va)) = Some p2 \<and> next_tab m (slot p2 (PDX va)) = Some p1 \<and> pte = slot p1 (PTX va))"
  by (auto simp: vwalk_def slot_def split: option.splits)

lemma PMX_user: "va < 0x800000000000 \<Longrightarrow> PMX va < ents 4"
proof -
  assume "va < 0x800000000000"
  then have "unat va div 2 ^ 39 < 256" by (simp add: word_less_nat_alt less_mult_imp_div_less)
  then have "unat (PMX va) < 256" by (simp add: PMX_def unat_index)
  then show ?thesis by (simp add: ents_def word_less_nat_alt)
qed

lemma indices_less: "PDPX va < 512" "PDX va < 512" "PTX va < 512"
  by (simp_all add: PDPX_def PDX_def PTX_def index_less)

lemma ents_le: "i < ents l \<Longrightarrow> i < 512"
  by (simp add: ents_def word_less_nat_alt split: if_splits)

text \<open>The tables on the way to an address.\<close>

lemma vwalk_path:
  assumes "pt_ok m root T" "va < 0x800000000000" "vwalk m root va = Some pte"
  obtains p3 p2 p1 where "p3 \<in> T 3" "p2 \<in> T 2" "p1 \<in> T 1" "pte = slot p1 (PTX va)"
    "next_tab m (slot root (PMX va)) = Some p3" "next_tab m (slot p3 (PDPX va)) = Some p2" "next_tab m (slot p2 (PDX va)) = Some p1"
proof -
  obtain p3 p2 p1 where p: "next_tab m (slot root (PMX va)) = Some p3" "next_tab m (slot p3 (PDPX va)) = Some p2"
    "next_tab m (slot p2 (PDX va)) = Some p1" "pte = slot p1 (PTX va)" using assms(3) unfolding vwalk_iff by blast
  have r: "root \<in> T (Suc 3)" using pt_okD(1) [OF assms(1)] by simp
  have 3: "p3 \<in> T 3" using pt_okD(2) [OF assms(1) _ _ r _ p(1)] PMX_user [OF assms(2)] by (simp add: eval_nat_numeral)
  have 2: "p2 \<in> T 2" using pt_okD(2) [OF assms(1), of 2 p3 "PDPX va" p2] 3 p(2) indices_less by (simp add: ents_def)
  have 1: "p1 \<in> T 1" using pt_okD(2) [OF assms(1), of 1 p2 "PDX va" p1] 2 p(3) indices_less by (simp add: ents_def numeral_2_eq_2)
  show ?thesis using that 1 2 3 p by blast
qed

text \<open>A different page has a different entry.\<close>

lemma vwalk_inj:
  assumes ok: "pt_ok m root T" and al: "\<forall>t\<in>tables T. t mod PGSIZE = 0"
    and va: "va < 0x800000000000" "vwalk m root va = Some pte" and vb: "vb < 0x800000000000" "vwalk m root vb = Some pte"
  shows "PGROUNDDOWN va = PGROUNDDOWN vb"
proof -
  obtain p3 p2 p1 where p: "p3 \<in> T 3" "p2 \<in> T 2" "p1 \<in> T 1" "pte = slot p1 (PTX va)"
    "next_tab m (slot root (PMX va)) = Some p3" "next_tab m (slot p3 (PDPX va)) = Some p2" "next_tab m (slot p2 (PDX va)) = Some p1"
    by (rule vwalk_path [OF ok va])
  obtain q3 q2 q1 where q: "q3 \<in> T 3" "q2 \<in> T 2" "q1 \<in> T 1" "pte = slot q1 (PTX vb)"
    "next_tab m (slot root (PMX vb)) = Some q3" "next_tab m (slot q3 (PDPX vb)) = Some q2" "next_tab m (slot q2 (PDX vb)) = Some q1"
    by (rule vwalk_path [OF ok vb])
  have 1: "p1 = q1" "PTX va = PTX vb"
    using slot_eq_iff [of p1 "PTX va" q1 "PTX vb"] p(3,4) q(3,4) al indices_less by (auto simp: tables_def)
  have 2: "p2 = q2" "PDX va = PDX vb"
    using pt_okD(4) [OF ok, of 1 p1 p2 "PDX va" q2 "PDX vb"] p q 1 indices_less by (auto simp: ents_def numeral_2_eq_2)
  have 3: "p3 = q3" "PDPX va = PDPX vb"
    using pt_okD(4) [OF ok, of 2 p2 p3 "PDPX va" q3 "PDPX vb"] p q 2 indices_less by (auto simp: ents_def numeral_3_eq_3)
  have "PMX va = PMX vb"
    using pt_okD(4) [OF ok, of 3 p3 root "PMX va" root "PMX vb"] pt_okD(1) [OF ok] p q 3 PMX_user va(1) vb(1) by auto
  then show ?thesis using 1 2 3 page_indices va(1) vb(1) by blast
qed


section \<open>Walking and allocating\<close>

lemma load64_zero: "(\<And>k. k < 8 \<Longrightarrow> m (a + of_nat k) = 0) \<Longrightarrow> load64 m a = 0"
proof -
  assume "\<And>k. k < 8 \<Longrightarrow> m (a + of_nat k) = 0"
  then have "mread m a 8 = replicate 8 0" by (intro nth_equalityI) auto
  then show ?thesis by (simp add: load64_def)
qed

text \<open>A fresh table \<open>p\<close> hung into entry \<open>i\<close> of table \<open>t\<close>.\<close>

definition hang :: "addr \<Rightarrow> addr \<Rightarrow> mem \<Rightarrow> mem" where
  "hang ea p m = store64 ea (V2P p OR 7) (memset p 0 PGSIZE m)"

lemma hang_filled: "hang ea p m = store64 ea (V2P p OR 7) (filled p 0 4096 m)"
  using memset_filled [of PGSIZE p 0 m] by (simp add: hang_def)

lemma store64_outside: "in_page t ea \<Longrightarrow> t mod PGSIZE = 0 \<Longrightarrow> ea = slot t i \<Longrightarrow> i < 512 \<Longrightarrow> PGROUNDDOWN x \<noteq> t \<Longrightarrow> store64 ea w m x = m x"
proof -
  assume h: "t mod PGSIZE = 0" "ea = slot t i" "i < 512" "PGROUNDDOWN x \<noteq> t"
  have "\<not> unat (x - ea) < 8"
  proof
    assume lt: "unat (x - ea) < 8"
    have "x = slot t i + of_nat (unat (x - ea))" using h(2) by simp
    then have "in_page t x" using in_page_slot [OF h(3) lt, of t] by simp
    with h(1,4) show False by (simp add: in_page_iff)
  qed
  then show ?thesis by (simp add: store64_def mwrite_def)
qed

lemma hang_entries:
  assumes p: "p mod PGSIZE = 0" and t: "t mod PGSIZE = 0" and tp: "t \<noteq> p" and i: "i < 512"
  shows "u mod PGSIZE = 0 \<Longrightarrow> u \<noteq> p \<Longrightarrow> j < 512 \<Longrightarrow> (u, j) \<noteq> (t, i) \<Longrightarrow> load64 (hang (slot t i) p m) (slot u j) = load64 m (slot u j)"
    and "j < 512 \<Longrightarrow> load64 (hang (slot t i) p m) (slot p j) = 0"
    and "next_tab (hang (slot t i) p m) (slot t i) = Some p"
    and "PGROUNDDOWN x \<noteq> p \<Longrightarrow> PGROUNDDOWN x \<noteq> t \<Longrightarrow> hang (slot t i) p m x = m x"
proof -
  have f: "filled p 0 4096 m x = m x" if "\<not> in_page p x" for x using that by (simp add: filled_def in_page_def)
  have other: "in_page u x \<Longrightarrow> \<not> in_page p x" if "u mod PGSIZE = 0" "u \<noteq> p" for u x
    using that p by (simp add: in_page_iff)
  show "load64 (hang (slot t i) p m) (slot u j) = load64 m (slot u j)" if h: "u mod PGSIZE = 0" "u \<noteq> p" "j < 512" "(u, j) \<noteq> (t, i)"
  proof -
    have "load64 (hang (slot t i) p m) (slot u j) = load64 (filled p 0 4096 m) (slot u j)"
      unfolding hang_filled using slots_apart [OF t i h(1,3)] h(4) by (auto intro: load64_store64_apart)
    also have "\<dots> = load64 m (slot u j)" using f other h by (intro load64_same) auto
    finally show ?thesis .
  qed
  show "load64 (hang (slot t i) p m) (slot p j) = 0" if j: "j < 512"
  proof -
    have "load64 (hang (slot t i) p m) (slot p j) = load64 (filled p 0 4096 m) (slot p j)"
      unfolding hang_filled using slots_apart [OF t i p j] tp by (simp add: load64_store64_apart)
    also have "\<dots> = 0" using in_page_slot [OF j, of _ p] by (intro load64_zero) (simp add: filled_def in_page_def)
    finally show ?thesis .
  qed
  have V: "V2P p mod PGSIZE = 0" unfolding V2P_def by (rule aligned_diff [OF p]) simp
  have A: "PTE_ADDR (V2P p OR 7) = V2P p" by (rule PTE_ADDR_or [OF V]) simp
  have P: "(V2P p OR 7) AND 1 \<noteq> 0" by (simp add: bit.conj_disj_distrib2)
  show "next_tab (hang (slot t i) p m) (slot t i) = Some p"
    using P by (simp add: next_tab_def hang_def load64_store64_same A) (simp add: P2V_def V2P_def)
  show "hang (slot t i) p m x = m x" if h: "PGROUNDDOWN x \<noteq> p" "PGROUNDDOWN x \<noteq> t"
    unfolding hang_filled using store64_outside [OF _ t refl i h(2)] in_page_slot [OF i, of 0 t] h(1) p f by (simp add: in_page_iff)
qed

lemma tables_insert: "1 \<le> l \<Longrightarrow> l \<le> 3 \<Longrightarrow> tables (T(l := insert p (T l))) = insert p (tables T)"
proof -
  assume "1 \<le> l" "l \<le> 3"
  then consider "l = 1" | "l = 2" | "l = 3" by linarith
  then show ?thesis by cases (auto simp: tables_def)
qed

lemma tables_mem: "1 \<le> l \<Longrightarrow> l \<le> 4 \<Longrightarrow> t \<in> T l \<Longrightarrow> t \<in> tables T"
proof -
  assume "1 \<le> l" "l \<le> 4" "t \<in> T l"
  moreover from this have "l = 1 \<or> l = 2 \<or> l = 3 \<or> l = 4" by linarith
  ultimately show ?thesis by (auto simp: tables_def)
qed

lemma hang_pt_ok:
  assumes ok: "pt_ok m root T" and al: "\<forall>t\<in>tables T. t mod PGSIZE = 0" and p: "p mod PGSIZE = 0" "p \<notin> tables T"
    and l: "1 \<le> l" "l \<le> 3" and t: "t \<in> T (Suc l)" and i: "i < ents (Suc l)" and none: "next_tab m (slot t i) = None"
  shows "pt_ok (hang (slot t i) p m) root (T(l := insert p (T l)))"
proof -
  let ?m = "hang (slot t i) p m" and ?T = "T(l := insert p (T l))"
  have tt: "t \<in> tables T" "t mod PGSIZE = 0" "t \<noteq> p" "i < 512"
    using tables_mem [of "Suc l"] t l al p(2) ents_le [OF i] by auto
  note H = hang_entries [OF p(1) tt(2-4), where m = m]
  have old: "u \<in> T k" "u \<noteq> p" "u mod PGSIZE = 0" if "u \<in> ?T k" "u \<noteq> p \<or> k \<noteq> l" "1 \<le> k" "k \<le> 4" for u k
    using that p al tables_mem [of k u T] by (auto split: if_splits)
  have pnew: "next_tab ?m (slot p j) = None" if "j < 512" for j using H(2) [OF that] by (simp add: next_tab_def)
  have keep: "next_tab ?m (slot u j) = next_tab m (slot u j)" if "u mod PGSIZE = 0" "u \<noteq> p" "j < 512" "(u, j) \<noteq> (t, i)" for u j
    using H(1) [OF that] by (simp add: next_tab_def)
  have ent: "(u = t \<and> j = i \<and> q = p \<and> k = l) \<or> (u \<in> T (Suc k) \<and> u \<noteq> p \<and> (u, j) \<noteq> (t, i) \<and> next_tab m (slot u j) = Some q)"
    if h: "1 \<le> k" "k \<le> 3" "u \<in> ?T (Suc k)" "j < ents (Suc k)" "next_tab ?m (slot u j) = Some q" for k u j q
  proof (cases "(u, j) = (t, i)")
    case True
    then have "u \<in> T (Suc k)" using old(1) [of u "Suc k"] h tt by auto
    then have "k = l" using pt_okD(5) [OF ok, of "Suc k" "Suc l" t] t True h l by simp
    then show ?thesis using True h(5) H(3) by simp
  next
    case False
    have j: "j < 512" using ents_le h(4) .
    have "u \<noteq> p" using pnew [OF j] h(5) by auto
    then show ?thesis using old [of u "Suc k"] keep [OF _ _ j False] h False by simp
  qed
  show ?thesis unfolding pt_ok_def
  proof (intro conjI allI impI ballI)
    show "?T 4 = {root}" using pt_okD(1) [OF ok] l by simp
    fix k k' :: nat assume "1 \<le> k" "k \<le> 4" "1 \<le> k'" "k' \<le> 4" "k \<noteq> k'"
    then show "?T k \<inter> ?T k' = {}" using pt_okD(5) [OF ok, of k k'] tables_mem [of k p T] tables_mem [of k' p T] p(2) by auto
  next
    fix k u j q assume "1 \<le> k" "k \<le> 3" "u \<in> ?T (Suc k)" "j < ents (Suc k)" "next_tab ?m (slot u j) = Some q"
    from ent [OF this] show "q \<in> ?T k" using pt_okD(2) [OF ok \<open>1 \<le> k\<close> \<open>k \<le> 3\<close> _ \<open>j < ents (Suc k)\<close>] by auto
  next
    fix k q assume k: "1 \<le> k" "k \<le> 3" and q: "q \<in> ?T k"
    show "\<exists>!e. fst e \<in> ?T (Suc k) \<and> snd e < ents (Suc k) \<and> next_tab ?m (slot (fst e) (snd e)) = Some q"
    proof (cases "q = p")
      case True
      then have "k = l" using q k p(2) tables_mem [of k p T] by (auto split: if_splits)
      then have "t \<in> ?T (Suc k)" using t by simp
      moreover have "e = (t, i)" if "fst e \<in> ?T (Suc k)" "snd e < ents (Suc k)" "next_tab ?m (slot (fst e) (snd e)) = Some q" for e
        using ent [OF k that] True pt_okD(2) [OF ok k _ that(2), of "fst e" p] tables_mem [of k p T] k p(2) by (cases e) auto
      ultimately show ?thesis using \<open>k = l\<close> i H(3) True by (intro ex1I [of _ "(t, i)"]) auto
    next
      case False
      then have q': "q \<in> T k" using q by (auto split: if_splits)
      obtain u j where u: "u \<in> T (Suc k)" "j < ents (Suc k)" "next_tab m (slot u j) = Some q"
        using pt_okD(3) [OF ok k q'] by blast
      have ne: "(u, j) \<noteq> (t, i)" using u(3) none by auto
      have um: "u mod PGSIZE = 0" "u \<noteq> p" using tables_mem [of "Suc k" u T] u(1) k al p(2) by auto
      have "next_tab ?m (slot u j) = Some q" using keep [OF um ents_le [OF u(2)] ne] u(3) by simp
      moreover have "e = (u, j)" if "fst e \<in> ?T (Suc k)" "snd e < ents (Suc k)" "next_tab ?m (slot (fst e) (snd e)) = Some q" for e
        using ent [OF k that] False pt_okD(4) [OF ok k q' _ that(2) _ u] by (cases e) auto
      moreover have "u \<in> ?T (Suc k)" using u(1) by auto
      ultimately show ?thesis using u(2) by (intro ex1I [of _ "(u, j)"]) auto
    qed
  qed
qed


lemma vm_okD:
  assumes "vm_ok s ps root T"
  shows "kmem_inv s ps" "pt_ok (mem s) root T" "tables T \<inter> set ps = {}" "t \<in> tables T \<Longrightarrow> page_ok (kend s) t"
    "\<forall>t\<in>tables T. t mod PGSIZE = 0" "t \<in> tables T \<Longrightarrow> t mod PGSIZE = 0"
  using assms by (auto simp: vm_ok_def page_ok_def)

lemma walk_level_run:
  "next_tab (mem s) ea = Some p \<Longrightarrow> walk_level alloc ea s = Done (Some p) s"
  "next_tab (mem s) ea = None \<Longrightarrow> walk_level False ea s = Done None s"
  "next_tab (mem s) ea = None \<Longrightarrow> kmem_inv s [] \<Longrightarrow> walk_level True ea s = Done None s"
  by (auto simp: walk_level_def next_tab_def get64_def kop_simps bnd_Done [OF kalloc_empty] Let_def split: if_splits)

lemma walk_level_new:
  assumes "next_tab (mem s) ea = None" "kmem_inv s (p # ps)"
  shows "walk_level True ea s = Done (Some p) (s\<lparr>freelist := load64 (mem s) p, mem := hang ea p (mem s)\<rparr>)"
proof -
  have "load64 (mem s) ea AND PTE_P = 0" using assms(1) by (simp add: next_tab_def Let_def split: if_splits)
  moreover have "p \<noteq> 0" using assms(2) by (simp add: kmem_inv_def)
  ultimately show ?thesis
    by (simp add: walk_level_def get64_def set64_def zero_page_def kop_simps bnd_Done [where m = kalloc, OF kalloc_pop(1) [OF assms(2)]] hang_def)
qed

lemma walk_level_law:
  fixes s :: "'z kmem_st_scheme"
  assumes vm: "vm_ok s ps root T" and l: "1 \<le> l" "l \<le> 3" and t: "t \<in> T (Suc l)" and i: "i < ents (Suc l)"
  shows "\<exists>r s' ps' T'. walk_level True (slot t i) s = Done r s' \<and> vm_ok s' ps' root T' \<and> vm_ext s ps T s' ps' T' \<and>
    length ps \<le> Suc (length ps') \<and> (case r of None \<Rightarrow> ps' = [] | Some p \<Rightarrow> p \<in> T' l \<and> next_tab (mem s') (slot t i) = Some p)"
proof (cases "next_tab (mem s) (slot t i)")
  case (Some p)
  then have "p \<in> T l" using pt_okD(2) [OF vm_okD(2) [OF vm] l t i] by simp
  then show ?thesis using walk_level_run(1) [OF Some] vm vm_ext_refl [of s ps T] Some
    by (intro exI [of _ "Some p"] exI [of _ s] exI [of _ ps] exI [of _ T]) simp
next
  case None
  show ?thesis
  proof (cases ps)
    case Nil
    then show ?thesis using walk_level_run(3) [OF None] vm vm_okD(1) [OF vm] vm_ext_refl [of s ps T] by fastforce
  next
    case (Cons p qs)
    define m where "m = hang (slot t i) p (mem s)"
    define s' where "s' = s\<lparr>freelist := load64 (mem s) p, mem := m\<rparr>"
    let ?T = "T(l := insert p (T l))"
    note inv = vm_okD(1) [OF vm, unfolded Cons]
    have run: "walk_level True (slot t i) s = Done (Some p) s'"
      using walk_level_new [OF None inv] by (simp add: s'_def m_def)
    have pok: "page_ok (kend s) p" "p mod PGSIZE = 0" "p \<notin> tables T" "p \<notin> set qs"
      using inv vm_okD(3) [OF vm] Cons by (auto simp: kmem_inv_def page_ok_def)
    have tt: "t \<in> tables T" "t mod PGSIZE = 0" "t \<noteq> p" "i < 512" "page_ok (kend s) t"
      using tables_mem [of "Suc l" t T] t l vm_okD(4,6) [OF vm] pok(3) ents_le [OF i] by auto
    note H = hang_entries [OF pok(2) tt(2-4), where m = "mem s", folded m_def]
    have pt: "pt_ok m root ?T"
      unfolding m_def using hang_pt_ok [OF vm_okD(2,5) [OF vm] pok(2,3) l t i None] .
    have "kmem_inv (s\<lparr>freelist := load64 (mem s) p\<rparr>) qs" using kalloc_pop(2) [OF inv] .
    then have "kmem_inv ((s\<lparr>freelist := load64 (mem s) p\<rparr>)\<lparr>mem := m\<rparr>) qs"
    proof (rule flist_client_write [where out = "{p, t}"])
      show "set qs \<inter> {p, t} = {}" using pok(4) tt(1) vm_okD(3) [OF vm] Cons by auto
      show "m x = mem (s\<lparr>freelist := load64 (mem s) p\<rparr>) x" if "\<And>q. q \<in> {p, t} \<Longrightarrow> \<not> in_page q x" for x
        using that [of p] that [of t] H(4) [of x] pok(2) tt(2) by (simp add: in_page_iff)
    qed (use pok(1) tt(5) in auto)
    moreover have "tables ?T = insert p (tables T)" using tables_insert l by blast
    moreover have "tables T \<inter> set qs = {}" using vm_okD(3) [OF vm] Cons by auto
    ultimately have ok: "vm_ok s' qs root ?T"
      using pt pok vm_okD(4) [OF vm] by (auto simp: vm_ok_def s'_def)
    have old: "load64 m (slot u j) = load64 (mem s) (slot u j)" if "u \<in> tables T" "j < 512" "(u, j) \<noteq> (t, i)" for u j
      using H(1) [of u j] that vm_okD(6) [OF vm] pok(3) by blast
    have "vm_ext s ps T s' qs ?T" unfolding vm_ext_def
    proof (intro conjI allI impI ballI)
      fix k u and j :: addr assume u: "1 \<le> k" "k \<le> (3::nat)" "u \<in> T (Suc k)" "j < 512" "next_tab (mem s) (slot u j) \<noteq> None"
      then have "(u, j) \<noteq> (t, i)" using None by auto
      then show "load64 (mem s') (slot u j) = load64 (mem s) (slot u j)"
        using old [OF tables_mem [of "Suc k" u T]] u by (simp add: s'_def)
    next
      fix u and j :: addr assume u: "u \<in> T 1" "j < 512"
      then have "u \<noteq> t" using pt_okD(5) [OF vm_okD(2) [OF vm], of 1 "Suc l" u] t l by auto
      then show "load64 (mem s') (slot u j) = load64 (mem s) (slot u j)"
        using old [of u j] u tables_mem [of 1 u T] by (simp add: s'_def)
    next
      fix u and j :: addr assume "u \<in> ?T 1 - T 1" "j < 512"
      then show "load64 (mem s') (slot u j) = 0" using H(2) [of j] by (auto simp: s'_def split: if_splits)
    qed (use Cons tables_insert [OF l, of T p] H(4) tt(1) in \<open>auto simp: s'_def mem_frame_def\<close>)
    moreover have "next_tab (mem s') (slot t i) = Some p" using H(3) by (simp add: s'_def)
    ultimately show ?thesis using run ok Cons by (intro exI [of _ "Some p"] exI [of _ s'] exI [of _ qs] exI [of _ ?T]) simp
  qed
qed

text \<open>A tree that grows by empty tables translates every user address as before.\<close>

lemma ext_next:
  assumes ext: "vm_ext s ps T s' ps' T'" and l: "1 \<le> l" "l \<le> 3" and t: "t \<in> T (Suc l)" "i < 512" and n: "next_tab (mem s) (slot t i) = Some p"
  shows "next_tab (mem s') (slot t i) = Some p"
  using vm_extD(4) [OF ext l t] n by (simp add: next_tab_def)

lemma ext_vwalk:
  assumes ext: "vm_ext s ps T s' ps' T'" and ok: "pt_ok (mem s) root T" and va: "va < 0x800000000000" and w: "vwalk (mem s) root va = Some pte"
  shows "vwalk (mem s') root va = Some pte"
proof -
  obtain p3 p2 p1 where p: "p3 \<in> T 3" "p2 \<in> T 2" "p1 \<in> T 1" "pte = slot p1 (PTX va)"
    "next_tab (mem s) (slot root (PMX va)) = Some p3" "next_tab (mem s) (slot p3 (PDPX va)) = Some p2" "next_tab (mem s) (slot p2 (PDX va)) = Some p1"
    by (rule vwalk_path [OF ok va w])
  have "next_tab (mem s') (slot root (PMX va)) = Some p3"
    using ext_next [OF ext, of 3 root "PMX va"] pt_okD(1) [OF ok] ents_le [OF PMX_user [OF va]] p(5) by simp
  moreover have "next_tab (mem s') (slot p3 (PDPX va)) = Some p2" using ext_next [OF ext, of 2 p3 "PDPX va"] p indices_less by simp
  moreover have "next_tab (mem s') (slot p2 (PDX va)) = Some p1"
    using ext_next [OF ext, of 1 p2 "PDX va"] p indices_less by (simp add: numeral_2_eq_2)
  ultimately show ?thesis using p(4) by (simp add: vwalk_iff)
qed

text \<open>A parent that was in the tree before is still the only one.\<close>

lemma ext_parent:
  assumes ext: "vm_ext s ps T s' ps' T'" and ok: "pt_ok (mem s) root T" "pt_ok (mem s') root T'"
    and l: "1 \<le> l" "l \<le> 3" and p: "p \<in> T l" and t: "t \<in> T' (Suc l)" "i < ents (Suc l)" "next_tab (mem s') (slot t i) = Some p"
  shows "t \<in> T (Suc l) \<and> next_tab (mem s) (slot t i) = Some p"
proof -
  obtain u j where u: "u \<in> T (Suc l)" "j < ents (Suc l)" "next_tab (mem s) (slot u j) = Some p"
    using pt_okD(3) [OF ok(1) l p] by blast
  have "next_tab (mem s') (slot u j) = Some p" using ext_next [OF ext l u(1) ents_le [OF u(2)] u(3)] .
  moreover have "u \<in> T' (Suc l)" "p \<in> T' l" using vm_extD(1) [OF ext] u(1) p l by simp_all
  ultimately have "t = u \<and> i = j" using pt_okD(4) [OF ok(2) l _ t _ u(2)] by blast
  then show ?thesis using u by simp
qed

lemma ext_vaddr:
  assumes ext: "vm_ext s ps T s' ps' T'" and ok: "pt_ok (mem s) root T" "pt_ok (mem s') root T'" and va: "va < 0x800000000000"
  shows "vaddr (mem s') root va = vaddr (mem s) root va"
proof (cases "vwalk (mem s') root va")
  case None
  then have "vwalk (mem s) root va = None" using ext_vwalk [OF ext ok(1) va] by (cases "vwalk (mem s) root va") auto
  with None show ?thesis by (simp add: vaddr_def)
next
  case (Some pte)
  obtain p3 p2 p1 where p: "p3 \<in> T' 3" "p2 \<in> T' 2" "p1 \<in> T' 1" "pte = slot p1 (PTX va)"
    "next_tab (mem s') (slot root (PMX va)) = Some p3" "next_tab (mem s') (slot p3 (PDPX va)) = Some p2" "next_tab (mem s') (slot p2 (PDX va)) = Some p1"
    by (rule vwalk_path [OF ok(2) va Some])
  show ?thesis
  proof (cases "p1 \<in> T 1")
    case True
    have 2: "p2 \<in> T 2 \<and> next_tab (mem s) (slot p2 (PDX va)) = Some p1"
      using ext_parent [OF ext ok, of 1 p1 p2 "PDX va"] True p indices_less by (simp add: ents_def numeral_2_eq_2)
    then have 3: "p3 \<in> T 3 \<and> next_tab (mem s) (slot p3 (PDPX va)) = Some p2"
      using ext_parent [OF ext ok, of 2 p2 p3 "PDPX va"] p indices_less by (simp add: ents_def numeral_3_eq_3)
    then have "next_tab (mem s) (slot root (PMX va)) = Some p3"
      using ext_parent [OF ext ok, of 3 p3 root "PMX va"] p pt_okD(1) [OF ok(2)] PMX_user [OF va] by simp
    then have "vwalk (mem s) root va = Some pte" using 2 3 p(4) by (simp add: vwalk_iff)
    moreover have "next_tab (mem s') pte = next_tab (mem s) pte"
      using vm_extD(5) [OF ext True, of "PTX va"] indices_less p(4) by (simp add: next_tab_def)
    ultimately show ?thesis using Some by (simp add: vaddr_def)
  next
    case False
    have "next_tab (mem s') pte = None" using vm_extD(6) [OF ext p(3) False, of "PTX va"] indices_less p(4) by (simp add: next_tab_def)
    moreover have "vwalk (mem s) root va = None"
    proof (rule ccontr)
      assume "vwalk (mem s) root va \<noteq> None"
      then obtain q where q: "vwalk (mem s) root va = Some q" by blast
      then have "q = pte" using ext_vwalk [OF ext ok(1) va q] Some by simp
      obtain q1 where "q1 \<in> T 1" "q = slot q1 (PTX va)" by (rule vwalk_path [OF ok(1) va q])
      with \<open>q = pte\<close> p(4) False show False by (simp add: slot_def)
    qed
    ultimately show ?thesis using Some by (simp add: vaddr_def)
  qed
qed


lemma vm_ok_slot_nonzero: "vm_ok s ps root T \<Longrightarrow> t \<in> tables T \<Longrightarrow> i < 512 \<Longrightarrow> slot t i \<noteq> 0"
proof -
  assume a: "vm_ok s ps root T" "t \<in> tables T" "i < 512"
  then have "unat (slot t i) = unat t + 8 * unat i" using unat_slot vm_okD(6) by blast
  moreover have "unat t \<noteq> 0" using page_ok_nonzero vm_okD(4) a unat_eq_zero by blast
  ultimately show ?thesis by (metis add_is_0 unat_0)
qed

lemma walkpgdir_law:
  fixes s :: "'z kmem_st_scheme"
  assumes vm: "vm_ok s ps root T" and va: "va < 0x800000000000"
  shows "\<exists>pte s' ps' T'. walkpgdir root va True s = Done pte s' \<and> vm_ok s' ps' root T' \<and> vm_ext s ps T s' ps' T' \<and>
    length ps \<le> length ps' + 3 \<and> (if pte = 0 then ps' = [] else vwalk (mem s') root va = Some pte)"
proof -
  have r4: "root \<in> T (Suc 3)" using pt_okD(1) [OF vm_okD(2) [OF vm]] by simp
  obtain r1 s1 ps1 T1 where 1: "walk_level True (slot root (PMX va)) s = Done r1 s1" "vm_ok s1 ps1 root T1" "vm_ext s ps T s1 ps1 T1"
    "case r1 of None \<Rightarrow> ps1 = [] | Some p \<Rightarrow> p \<in> T1 3 \<and> next_tab (mem s1) (slot root (PMX va)) = Some p" "length ps \<le> Suc (length ps1)"
    using walk_level_law [OF vm _ _ r4, of "PMX va"] PMX_user [OF va] by (auto simp: eval_nat_numeral)
  show ?thesis
  proof (cases r1)
    case None
    then show ?thesis using 1 by (intro exI [of _ 0] exI [of _ s1] exI [of _ ps1] exI [of _ T1]) (simp add: walkpgdir_def bnd_Done slot_def [symmetric] ret_def)
  next
    case (Some p3)
    then have p3: "p3 \<in> T1 (Suc 2)" using 1(4) by (simp add: eval_nat_numeral)
    obtain r2 s2 ps2 T2 where 2: "walk_level True (slot p3 (PDPX va)) s1 = Done r2 s2" "vm_ok s2 ps2 root T2" "vm_ext s1 ps1 T1 s2 ps2 T2"
      "case r2 of None \<Rightarrow> ps2 = [] | Some p \<Rightarrow> p \<in> T2 2 \<and> next_tab (mem s2) (slot p3 (PDPX va)) = Some p" "length ps1 \<le> Suc (length ps2)"
      using walk_level_law [OF 1(2) _ _ p3, of "PDPX va"] indices_less by (auto simp: ents_def)
    have ext2: "vm_ext s ps T s2 ps2 T2" using vm_ext_trans [OF 1(3) 2(3)] .
    have n3: "next_tab (mem s2) (slot root (PMX va)) = Some p3"
      using ext_next [OF 2(3), of 3 root "PMX va"] 1(4) Some pt_okD(1) [OF vm_okD(2) [OF 1(2)]] ents_le [OF PMX_user [OF va]] by simp
    show ?thesis
    proof (cases r2)
      case None
      then show ?thesis using 1 2 \<open>r1 = Some p3\<close> ext2
        by (intro exI [of _ 0] exI [of _ s2] exI [of _ ps2] exI [of _ T2]) (simp add: walkpgdir_def bnd_Done slot_def [symmetric] ret_def)
    next
      case (Some p2)
      then have p2: "p2 \<in> T2 (Suc 1)" using 2(4) by (simp add: eval_nat_numeral)
      obtain r3 s3 ps3 T3 where 3: "walk_level True (slot p2 (PDX va)) s2 = Done r3 s3" "vm_ok s3 ps3 root T3" "vm_ext s2 ps2 T2 s3 ps3 T3"
        "case r3 of None \<Rightarrow> ps3 = [] | Some p \<Rightarrow> p \<in> T3 1 \<and> next_tab (mem s3) (slot p2 (PDX va)) = Some p" "length ps2 \<le> Suc (length ps3)"
        using walk_level_law [OF 2(2) _ _ p2, of "PDX va"] indices_less by (auto simp: ents_def)
      have ext3: "vm_ext s ps T s3 ps3 T3" using vm_ext_trans [OF ext2 3(3)] .
      have n3': "next_tab (mem s3) (slot root (PMX va)) = Some p3"
        using ext_next [OF 3(3), of 3 root "PMX va"] n3 pt_okD(1) [OF vm_okD(2) [OF 2(2)]] ents_le [OF PMX_user [OF va]] by simp
      have n2: "next_tab (mem s3) (slot p3 (PDPX va)) = Some p2"
        using ext_next [OF 3(3), of 2 p3 "PDPX va"] 2(4) Some vm_extD(1) [OF 2(3), of 3 p3] p3 indices_less by simp
      have run: "walkpgdir root va True s = Done (case r3 of None \<Rightarrow> 0 | Some p1 \<Rightarrow> slot p1 (PTX va)) s3"
        using 1(1) 2(1) 3(1) \<open>r1 = Some p3\<close> Some
        by (simp add: walkpgdir_def bnd_Done slot_def [symmetric] ret_def split: option.splits)
      have "if (case r3 of None \<Rightarrow> 0 | Some p1 \<Rightarrow> slot p1 (PTX va)) = 0 then ps3 = [] else
          vwalk (mem s3) root va = Some (case r3 of None \<Rightarrow> 0 | Some p1 \<Rightarrow> slot p1 (PTX va))"
        using 3(4) n3' n2 vm_ok_slot_nonzero [OF 3(2)] tables_mem [of 1 _ T3] indices_less
        by (auto simp: vwalk_iff split: option.splits)
      moreover have "length ps \<le> length ps3 + 3" using 1(5) 2(5) 3(5) by simp
      ultimately show ?thesis using run 3(2) ext3 by blast
    qed
  qed
qed

lemma pt_ok_cong:
  assumes "\<And>l t i. 1 \<le> l \<Longrightarrow> l \<le> 3 \<Longrightarrow> t \<in> T (Suc l) \<Longrightarrow> i < 512 \<Longrightarrow> load64 m' (slot t i) = load64 m (slot t i)"
    and "pt_ok m root T"
  shows "pt_ok m' root T"
proof -
  have e: "next_tab m' (slot t i) = next_tab m (slot t i)" if "1 \<le> l" "l \<le> 3" "t \<in> T (Suc l)" "i < ents (Suc l)" for l t i
    using assms(1) [OF that(1-3) ents_le [OF that(4)]] by (simp add: next_tab_def)
  note ok = assms(2)
  show ?thesis unfolding pt_ok_def
  proof (intro conjI allI impI ballI)
    show "T 4 = {root}" using pt_okD(1) [OF ok] .
    show "T l \<inter> T k = {}" if "1 \<le> l" "l \<le> 4" "1 \<le> k" "k \<le> 4" "l \<noteq> k" for l k
      using pt_okD(5) [OF ok that(1-4)] that(5) by blast
    show "p \<in> T l" if "1 \<le> l" "l \<le> 3" "t \<in> T (Suc l)" "i < ents (Suc l)" "next_tab m' (slot t i) = Some p" for l t i p
      using pt_okD(2) [OF ok that(1-4)] e [OF that(1-4)] that(5) by simp
    show "\<exists>!x. fst x \<in> T (Suc l) \<and> snd x < ents (Suc l) \<and> next_tab m' (slot (fst x) (snd x)) = Some p"
      if l: "1 \<le> l" "l \<le> 3" and p: "p \<in> T l" for l p
    proof -
      obtain t i where t: "t \<in> T (Suc l)" "i < ents (Suc l)" "next_tab m (slot t i) = Some p" using pt_okD(3) [OF ok l p] by blast
      show ?thesis
      proof (rule ex1I [of _ "(t, i)"])
        show "fst (t, i) \<in> T (Suc l) \<and> snd (t, i) < ents (Suc l) \<and> next_tab m' (slot (fst (t, i)) (snd (t, i))) = Some p"
          using t e [OF l t(1,2)] by simp
        fix x assume "fst x \<in> T (Suc l) \<and> snd x < ents (Suc l) \<and> next_tab m' (slot (fst x) (snd x)) = Some p"
        then show "x = (t, i)" using pt_okD(4) [OF ok l p t, of "fst x" "snd x"] e [OF l, of "fst x" "snd x"] by (simp add: prod_eq_iff)
      qed
    qed
  qed
qed

text \<open>Storing an entry for a page.\<close>

lemma same_page_walk:
  assumes "PGROUNDDOWN x = PGROUNDDOWN y"
  shows "vwalk m root x = vwalk m root y"
proof -
  have "unat x div 4096 = unat y div 4096" using arg_cong [OF assms, of unat] by (simp add: unat_PGROUNDDOWN)
  moreover have "unat a div 2 ^ (12 + k) = unat a div 4096 div 2 ^ k" for a :: addr and k by (simp add: power_add div_mult2_eq)
  ultimately have "unat x div 2 ^ (12 + k) mod 512 = unat y div 2 ^ (12 + k) mod 512" for k by metis
  from this [of 27] this [of 18] this [of 9] this [of 0]
  have "PMX x = PMX y" "PDPX x = PDPX y" "PDX x = PDX y" "PTX x = PTX y"
    unfolding PMX_def PDPX_def PDX_def PTX_def word_unat_eq_iff unat_index by simp_all
  then show ?thesis unfolding vwalk_def by (simp only:)
qed

lemma vaddr_user:
  "va < 0x800000000000 \<Longrightarrow> vaddr m root va = (case vwalk m root va of None \<Rightarrow> None
     | Some pte \<Rightarrow> map_option (\<lambda>p. p + (va AND 0xFFF)) (next_tab m pte))"
proof -
  assume "va < 0x800000000000"
  then have "\<not> KERNBASE \<le> va" "\<not> 0x800000000000 \<le> va" by (simp_all add: word_less_nat_alt word_le_nat_alt)
  then show ?thesis by (simp add: vaddr_def)
qed

lemma walk_cong:
  assumes ok: "pt_ok m root T" and x: "x < 0x800000000000"
    and up: "\<And>l t i. 1 \<le> l \<Longrightarrow> l \<le> 3 \<Longrightarrow> t \<in> T (Suc l) \<Longrightarrow> i < 512 \<Longrightarrow> load64 m' (slot t i) = load64 m (slot t i)"
  shows "vwalk m' root x = vwalk m root x"
proof -
  have "next_tab m' (slot root (PMX x)) = next_tab m (slot root (PMX x))"
    using up [of 3 root "PMX x"] pt_okD(1) [OF ok] ents_le [OF PMX_user [OF x]] by (simp add: next_tab_def)
  moreover have "next_tab m' (slot q (PDPX x)) = next_tab m (slot q (PDPX x))" if "q \<in> T 3" for q
    using up [of 2 q "PDPX x"] that indices_less by (simp add: next_tab_def eval_nat_numeral)
  moreover have "next_tab m' (slot q (PDX x)) = next_tab m (slot q (PDX x))" if "q \<in> T 2" for q
    using up [of 1 q "PDX x"] that indices_less by (simp add: next_tab_def eval_nat_numeral)
  moreover have "q \<in> T 3" if "next_tab m (slot root (PMX x)) = Some q" for q
    using pt_okD(2) [OF ok, of 3 root "PMX x" q] pt_okD(1) [OF ok] PMX_user [OF x] that by simp
  moreover have "q \<in> T 2" if "next_tab m (slot r (PDPX x)) = Some q" "r \<in> T 3" for q r
    using pt_okD(2) [OF ok, of 2 r "PDPX x" q] that indices_less by (simp add: ents_def)
  ultimately show ?thesis by (simp add: vwalk_def slot_def [symmetric] split: option.splits)
qed

text \<open>Writing the entry of a page: the entry is in one leaf table, so every other entry keeps its value.\<close>

lemma leaf_store:
  fixes s :: "'z kmem_st_scheme"
  assumes vm: "vm_ok s ps root T" and va: "va < 0x800000000000" and w: "vwalk (mem s) root va = Some pte"
  shows "t \<in> T 1 \<Longrightarrow> i < 512 \<Longrightarrow> slot t i \<noteq> pte \<Longrightarrow> load64 (store64 pte e (mem s)) (slot t i) = load64 (mem s) (slot t i)"
    and "1 \<le> l \<Longrightarrow> l \<le> 3 \<Longrightarrow> t \<in> T (Suc l) \<Longrightarrow> i < 512 \<Longrightarrow> load64 (store64 pte e (mem s)) (slot t i) = load64 (mem s) (slot t i)"
    and "PGROUNDDOWN y \<notin> tables T \<Longrightarrow> store64 pte e (mem s) y = mem s y"
proof -
  note ok = vm_okD(2) [OF vm] and al = vm_okD(6) [OF vm]
  obtain p3 p2 p1 where p: "p1 \<in> T 1" "pte = slot p1 (PTX va)" by (rule vwalk_path [OF ok va w])
  have p1: "p1 \<in> tables T" "p1 mod PGSIZE = 0" using tables_mem [of 1 p1 T] p(1) al by auto
  have other: "load64 (store64 pte e (mem s)) (slot t i) = load64 (mem s) (slot t i)"
    if "t \<in> tables T" "i < 512" "(t, i) \<noteq> (p1, PTX va)" for t i
    using slots_apart [OF p1(2) indices_less(3) al [OF that(1)] that(2), of va] that(3) p(2) by (auto intro: load64_store64_apart)
  show "load64 (store64 pte e (mem s)) (slot t i) = load64 (mem s) (slot t i)" if "t \<in> T 1" "i < 512" "slot t i \<noteq> pte"
    using other [OF tables_mem [of 1 t T] that(2)] that p(2) by auto
  show "load64 (store64 pte e (mem s)) (slot t i) = load64 (mem s) (slot t i)" if "1 \<le> l" "l \<le> 3" "t \<in> T (Suc l)" "i < 512"
  proof -
    have "t \<noteq> p1" using pt_okD(5) [OF ok, of 1 "Suc l" p1] p(1) that by auto
    then show ?thesis using other [OF tables_mem [of "Suc l" t T]] that by simp
  qed
  show "store64 pte e (mem s) y = mem s y" if "PGROUNDDOWN y \<notin> tables T"
  proof -
    have "PGROUNDDOWN y \<noteq> p1" using that p1(1) by blast
    then show ?thesis
      using store64_outside [OF _ p1(2) p(2) indices_less(3), of y] in_page_slot [OF indices_less(3), of 0 p1 va] p(2) by simp
  qed
qed

lemma set_entry:
  fixes s :: "'z kmem_st_scheme" and e :: addr
  assumes vm: "vm_ok s ps root T" and va: "va < 0x800000000000" and w: "vwalk (mem s) root va = Some pte"
  defines "m' \<equiv> store64 pte e (mem s)"
  shows "vm_ok (s\<lparr>mem := m'\<rparr>) ps root T"
    and "x < 0x800000000000 \<Longrightarrow> vaddr m' root x = (if PGROUNDDOWN x = PGROUNDDOWN va
      then if e AND PTE_P \<noteq> 0 then Some (P2V (PTE_ADDR e) + (x AND 0xFFF)) else None else vaddr (mem s) root x)"
    and "PGROUNDDOWN y \<notin> tables T \<Longrightarrow> m' y = mem s y"
proof -
  note ok = vm_okD(2) [OF vm] and S = leaf_store [OF vm va w, where e = e, folded m'_def]
  show frame: "m' y = mem s y" if "PGROUNDDOWN y \<notin> tables T" for y using S(3) that .
  have "kmem_inv (s\<lparr>mem := m'\<rparr>) ps"
  proof (rule flist_client_write [OF vm_okD(1) [OF vm], of "tables T"])
    show "set ps \<inter> tables T = {}" using vm_okD(3) [OF vm] by blast
    show "m' x = mem s x" if "\<And>q. q \<in> tables T \<Longrightarrow> \<not> in_page q x" for x
      using that frame vm_okD(6) [OF vm] in_page_iff by blast
  qed (rule vm_okD(4) [OF vm])
  then show "vm_ok (s\<lparr>mem := m'\<rparr>) ps root T" using pt_ok_cong [OF S(2) ok] vm by (simp add: vm_ok_def)
  assume x: "x < 0x800000000000"
  have walk: "vwalk m' root x = vwalk (mem s) root x" by (rule walk_cong [OF ok x S(2)])
  have keep: "load64 m' q = load64 (mem s) q" if q: "vwalk (mem s) root x = Some q" "PGROUNDDOWN x \<noteq> PGROUNDDOWN va" for q
  proof -
    obtain q1 where "q1 \<in> T 1" "q = slot q1 (PTX x)" by (rule vwalk_path [OF ok x q(1)])
    moreover have "q \<noteq> pte" using vwalk_inj [OF ok vm_okD(5) [OF vm] x q(1) va] w q(2) by auto
    ultimately show ?thesis using S(1) indices_less(3) by simp
  qed
  show "vaddr m' root x = (if PGROUNDDOWN x = PGROUNDDOWN va
      then if e AND PTE_P \<noteq> 0 then Some (P2V (PTE_ADDR e) + (x AND 0xFFF)) else None else vaddr (mem s) root x)"
  proof (cases "PGROUNDDOWN x = PGROUNDDOWN va")
    case True
    then have "vwalk m' root x = Some pte" using walk same_page_walk [OF True] w by simp
    then show ?thesis using True x by (simp add: vaddr_user next_tab_def m'_def load64_store64_same Let_def)
  next
    case False
    then show ?thesis using walk keep x by (simp add: vaddr_user next_tab_def split: option.splits)
  qed
qed


section \<open>Mapping pages\<close>

text \<open>
  What any of the operations that allocate tables leaves alone: everything outside the tables and
  the free pages; pages only leave the free list.
\<close>

definition vm_grown :: "'z kmem_st_scheme \<Rightarrow> addr list \<Rightarrow> (nat \<Rightarrow> addr set) \<Rightarrow> 'z kmem_st_scheme \<Rightarrow> addr list \<Rightarrow> (nat \<Rightarrow> addr set) \<Rightarrow> bool" where
  "vm_grown s ps T s' ps' T' \<longleftrightarrow> set ps' \<subseteq> set ps \<and> tables T' \<subseteq> tables T \<union> set ps \<and>
     (\<forall>x. PGROUNDDOWN x \<notin> tables T \<union> set ps \<longrightarrow> mem s' x = mem s x) \<and> mem_frame s s'"

lemma vm_grown_trans: "vm_grown s ps T s1 ps1 T1 \<Longrightarrow> vm_grown s1 ps1 T1 s2 ps2 T2 \<Longrightarrow> vm_grown s ps T s2 ps2 T2"
proof -
  assume a: "vm_grown s ps T s1 ps1 T1" and b: "vm_grown s1 ps1 T1 s2 ps2 T2"
  have "mem_frame s s2" using a b mem_frame_trans unfolding vm_grown_def by blast
  moreover have "set ps2 \<subseteq> set ps" "tables T2 \<subseteq> tables T \<union> set ps" using a b unfolding vm_grown_def by auto
  moreover have "mem s2 x = mem s x" if x: "PGROUNDDOWN x \<notin> tables T \<union> set ps" for x
  proof -
    have "PGROUNDDOWN x \<notin> tables T1 \<union> set ps1" using a x unfolding vm_grown_def by blast
    then show ?thesis using a b x unfolding vm_grown_def by metis
  qed
  ultimately show ?thesis unfolding vm_grown_def by blast
qed

lemma vm_ext_grown: "vm_ext s ps T s' ps' T' \<Longrightarrow> vm_grown s ps T s' ps' T'"
  by (simp add: vm_ext_def vm_grown_def)

definition map_step :: "addr \<Rightarrow> addr \<Rightarrow> addr \<Rightarrow> ('z kmem_st_scheme, int) kop \<Rightarrow> ('z kmem_st_scheme, int) kop" where
  "map_step root a e k = bnd (walkpgdir root a True) (\<lambda>pte.
     if pte = 0 then ret (- 1)
     else bnd (get64 pte) (\<lambda>e'. thn (panic_if (e' AND PTE_P \<noteq> 0) ''remap'') (thn (set64 pte e) k)))"

lemma mappages_loop_step:
  "mappages_loop root a pa perm n s = map_step root a (pa OR perm OR PTE_P)
     (case n of 0 \<Rightarrow> ret 0 | Suc n \<Rightarrow> mappages_loop root (a + PGSIZE) (pa + PGSIZE) perm n) s"
  by (subst mappages_loop.simps) (simp add: map_step_def)

lemma map_step_law:
  fixes s :: "'z kmem_st_scheme"
  assumes vm: "vm_ok s ps root T" and a: "a < 0x800000000000" and none: "vaddr (mem s) root a = None" and e: "e AND PTE_P \<noteq> 0"
  shows "\<exists>s' ps' T'. vm_ok s' ps' root T' \<and> vm_grown s ps T s' ps' T' \<and> length ps \<le> length ps' + 3 \<and>
    ((\<forall>k. map_step root a e k s = Done (- 1) s') \<and> ps' = [] \<and> (\<forall>x<0x800000000000. vaddr (mem s') root x = vaddr (mem s) root x) \<or>
     (\<forall>k. map_step root a e k s = k s') \<and> (\<forall>x<0x800000000000. vaddr (mem s') root x =
        (if PGROUNDDOWN x = PGROUNDDOWN a then Some (P2V (PTE_ADDR e) + (x AND 0xFFF)) else vaddr (mem s) root x)))"
proof -
  obtain pte s1 ps1 T1 where 1: "walkpgdir root a True s = Done pte s1" "vm_ok s1 ps1 root T1" "vm_ext s ps T s1 ps1 T1"
    "if pte = 0 then ps1 = [] else vwalk (mem s1) root a = Some pte" "length ps \<le> length ps1 + 3" using walkpgdir_law [OF vm a] by blast
  have same: "vaddr (mem s1) root x = vaddr (mem s) root x" if "x < 0x800000000000" for x
    using ext_vaddr [OF 1(3) vm_okD(2) [OF vm] vm_okD(2) [OF 1(2)] that] .
  show ?thesis
  proof (cases "pte = 0")
    case True
    then have "map_step root a e k s = Done (- 1) s1" for k by (simp add: map_step_def bnd_Done 1(1) ret_def)
    then show ?thesis using 1 True same vm_ext_grown by (intro exI [of _ s1] exI [of _ ps1] exI [of _ T1]) simp
  next
    case False
    then have w: "vwalk (mem s1) root a = Some pte" using 1(4) by simp
    have "next_tab (mem s1) pte = None" using same [OF a] none w a by (simp add: vaddr_user)
    then have "load64 (mem s1) pte AND PTE_P = 0" by (simp add: next_tab_def Let_def split: if_splits)
    then have run: "map_step root a e k s = k (s1\<lparr>mem := store64 pte e (mem s1)\<rparr>)" for k
      using False by (simp add: map_step_def bnd_Done 1(1) get64_def set64_def kop_simps)
    note S = set_entry [OF 1(2) a w, where e = e]
    let ?s = "s1\<lparr>mem := store64 pte e (mem s1)\<rparr>"
    have "vm_grown s1 ps1 T1 ?s ps1 T1" using S(3) by (auto simp: vm_grown_def mem_frame_def)
    then have "vm_grown s ps T ?s ps1 T1" using vm_grown_trans vm_ext_grown [OF 1(3)] by blast
    moreover have "vaddr (mem ?s) root x = (if PGROUNDDOWN x = PGROUNDDOWN a then Some (P2V (PTE_ADDR e) + (x AND 0xFFF)) else vaddr (mem s) root x)"
      if "x < 0x800000000000" for x using S(2) [OF that] e same [OF that] by simp
    ultimately show ?thesis using run S(1) 1(5) by (intro exI [of _ ?s] exI [of _ ps1] exI [of _ T1]) blast
  qed
qed


lemma PTE_of_page:
  assumes "pa mod PGSIZE = 0" "perm < PGSIZE"
  shows "PTE_ADDR (pa OR perm OR PTE_P) = pa" "(pa OR perm OR PTE_P) AND PTE_P \<noteq> 0"
proof -
  show "PTE_ADDR (pa OR perm OR PTE_P) = pa"
    using small_and_not [OF assms(2)] by (intro PTE_ADDR_or [OF assms(1)]) (simp add: bit.conj_disj_distrib2)
  have "bit ((pa OR perm OR PTE_P) AND PTE_P) 0" by (simp add: bit_simps)
  then show "(pa OR perm OR PTE_P) AND PTE_P \<noteq> 0" by auto
qed

definition pg :: "addr \<Rightarrow> nat \<Rightarrow> addr" where
  "pg a k = a + PGSIZE * of_nat k"

lemma pg_simps [simp]: "pg a 0 = a" "pg (a + PGSIZE) k = pg a (Suc k)"
  by (simp_all add: pg_def algebra_simps)

lemma unat_pg: "unat a + 4096 * k < 2 ^ 64 \<Longrightarrow> unat (pg a k) = unat a + 4096 * k"
  by (simp add: pg_def unat_word_ariths unat_of_nat)

lemma PGROUNDDOWN_pg:
  assumes "a mod PGSIZE = 0" "unat a + 4096 * k < 2 ^ 64"
  shows "PGROUNDDOWN (pg a k) = pg a k"
proof -
  obtain b where "unat a = 4096 * b" by (rule aligned_page [OF assms(1)])
  then have "unat (pg a k) = 4096 * (b + k)" using unat_pg [OF assms(2)] by simp
  then have "unat (PGROUNDDOWN (pg a k)) = unat (pg a k)" by (simp add: unat_PGROUNDDOWN)
  then show ?thesis by (simp add: word_unat_eq_iff)
qed

text \<open>
  Between the memories \<open>m\<close> and \<open>m'\<close> only the translation of the pages \<open>a\<close>, ..., \<open>pg a n\<close> differs; and these
  are mapped to the physical pages \<open>pa\<close>, ..., \<open>pg pa n\<close>.
\<close>

definition leaves :: "addr \<Rightarrow> mem \<Rightarrow> mem \<Rightarrow> addr \<Rightarrow> nat \<Rightarrow> bool" where
  "leaves root m m' a n \<longleftrightarrow> (\<forall>x<0x800000000000. (\<forall>k\<le>n. PGROUNDDOWN x \<noteq> pg a k) \<longrightarrow> vaddr m' root x = vaddr m root x)"

definition maps :: "addr \<Rightarrow> mem \<Rightarrow> addr \<Rightarrow> addr \<Rightarrow> nat \<Rightarrow> bool" where
  "maps root m a pa n \<longleftrightarrow>
     (\<forall>x<0x800000000000. \<forall>k\<le>n. PGROUNDDOWN x = pg a k \<longrightarrow> vaddr m root x = Some (P2V (pg pa k) + (x AND 0xFFF)))"

lemma leaves_Suc: "leaves root m m1 a 0 \<Longrightarrow> leaves root m1 m2 (a + PGSIZE) n \<Longrightarrow> leaves root m m2 a (Suc n)"
  unfolding leaves_def by (metis Suc_le_mono le0 le_zero_eq pg_simps)

lemma maps_Suc:
  assumes "maps root m1 a pa 0" "leaves root m1 m2 (a + PGSIZE) n" "maps root m2 (a + PGSIZE) (pa + PGSIZE) n"
    and "\<And>k. k \<le> n \<Longrightarrow> pg a (Suc k) \<noteq> a"
  shows "maps root m2 a pa (Suc n)"
  unfolding maps_def
proof (intro allI impI)
  fix x k assume x: "x < 0x800000000000" and k: "k \<le> Suc n" "PGROUNDDOWN x = pg a k"
  show "vaddr m2 root x = Some (P2V (pg pa k) + (x AND 0xFFF))"
  proof (cases k)
    case 0
    then have "\<forall>j\<le>n. PGROUNDDOWN x \<noteq> pg (a + PGSIZE) j" using k(2) assms(4) by force
    then show ?thesis using assms(1,2) x k(2) 0 by (simp add: leaves_def maps_def)
  next
    case (Suc j)
    then show ?thesis using assms(3) x k by (simp add: maps_def)
  qed
qed

lemma map_first:
  fixes s :: "'z kmem_st_scheme"
  assumes vm: "vm_ok s ps root T" and a: "a < 0x800000000000" "a mod PGSIZE = 0" and pa: "pa mod PGSIZE = 0" "perm < PGSIZE"
    and none: "vaddr (mem s) root a = None"
  obtains (full) s' T' where "\<And>n. mappages_loop root a pa perm n s = Done (- 1) s'" "vm_ok s' [] root T'" "vm_grown s ps T s' [] T'" "length ps \<le> 3"
      "\<And>n. leaves root (mem s) (mem s') a n"
    | (more) s' ps' T' where "\<And>n. mappages_loop root a pa perm n s =
        (case n of 0 \<Rightarrow> ret 0 | Suc n \<Rightarrow> mappages_loop root (a + PGSIZE) (pa + PGSIZE) perm n) s'"
      "vm_ok s' ps' root T'" "vm_grown s ps T s' ps' T'" "length ps \<le> length ps' + 3"
      "leaves root (mem s) (mem s') a 0" "maps root (mem s') a pa 0"
proof -
  note e = PTE_of_page [OF pa]
  have rd: "PGROUNDDOWN a = a" using PGROUNDDOWN_pg [of a 0] a(2) unat_addr_less [of a] by simp
  obtain s' ps' T' where 1: "vm_ok s' ps' root T'" "vm_grown s ps T s' ps' T'" "length ps \<le> length ps' + 3"
    "(\<forall>k. map_step root a (pa OR perm OR PTE_P) k s = Done (- 1) s') \<and> ps' = [] \<and> (\<forall>x<0x800000000000. vaddr (mem s') root x = vaddr (mem s) root x) \<or>
     (\<forall>k. map_step root a (pa OR perm OR PTE_P) k s = k s') \<and> (\<forall>x<0x800000000000. vaddr (mem s') root x =
        (if PGROUNDDOWN x = a then Some (P2V pa + (x AND 0xFFF)) else vaddr (mem s) root x))"
    using map_step_law [OF vm a(1) none e(2)] unfolding rd e(1) by blast
  from 1(4) show ?thesis
  proof (elim disjE conjE)
    assume h: "\<forall>k. map_step root a (pa OR perm OR PTE_P) k s = Done (- 1) s'" "ps' = []" "\<forall>x<0x800000000000. vaddr (mem s') root x = vaddr (mem s) root x"
    show ?thesis by (rule full [of s' T']) (use h 1(1-3) in \<open>simp_all add: mappages_loop_step leaves_def\<close>)
  next
    assume h: "\<forall>k. map_step root a (pa OR perm OR PTE_P) k s = k s'" "\<forall>x<0x800000000000. vaddr (mem s') root x =
        (if PGROUNDDOWN x = a then Some (P2V pa + (x AND 0xFFF)) else vaddr (mem s) root x)"
    show ?thesis
    proof (rule more [of s' ps' T'])
      show "mappages_loop root a pa perm n s = (case n of 0 \<Rightarrow> ret 0 | Suc n \<Rightarrow> mappages_loop root (a + PGSIZE) (pa + PGSIZE) perm n) s'" for n
        by (subst mappages_loop_step) (rule spec [OF h(1)])
    qed (use h(2) 1(1-3) in \<open>simp_all add: leaves_def maps_def\<close>)
  qed
qed

lemma mappages_loop_law:
  fixes s :: "'z kmem_st_scheme"
  assumes "vm_ok s ps root T" "a mod PGSIZE = 0" "pa mod PGSIZE = 0" "perm < PGSIZE" "unat a + 4096 * Suc n \<le> 2 ^ 47"
    "\<forall>k\<le>n. vaddr (mem s) root (pg a k) = None"
  shows "\<exists>r s' ps' T'. mappages_loop root a pa perm n s = Done r s' \<and> vm_ok s' ps' root T' \<and> vm_grown s ps T s' ps' T' \<and>
    (r = 0 \<or> r = - 1 \<and> ps' = []) \<and> leaves root (mem s) (mem s') a n \<and> (r = 0 \<longrightarrow> maps root (mem s') a pa n)"
  using assms
proof (induction n arbitrary: a pa s ps T)
  case 0
  have a: "a < 0x800000000000" using 0(5) by (simp add: word_less_nat_alt)
  have none: "vaddr (mem s) root a = None" using 0(6) by simp
  show ?case
  proof (cases rule: map_first [OF 0(1) a 0(2-4) none, case_names full more])
    case (full s' T')
    then show ?thesis by (intro exI [of _ "- 1"] exI [of _ s'] exI [of _ "[]"] exI [of _ T']) simp
  next
    case (more s' ps' T')
    then show ?thesis by (intro exI [of _ 0] exI [of _ s'] exI [of _ ps'] exI [of _ T']) (simp add: ret_def)
  qed
next
  case (Suc n)
  let ?a = "a + PGSIZE" and ?pa = "pa + PGSIZE"
  have lt: "unat a + 4096 * k < 2 ^ 64" if "k \<le> Suc n" for k using Suc.prems(5) that by simp
  have a: "a < 0x800000000000" using Suc.prems(5) by (simp add: word_less_nat_alt)
  have none: "vaddr (mem s) root a = None" using Suc.prems(6) by (metis pg_simps(1) le0)
  have up: "pg a (Suc k) \<noteq> a" "pg a (Suc k) < 0x800000000000" "PGROUNDDOWN (pg a (Suc k)) = pg a (Suc k)" if "k \<le> n" for k
    using unat_pg [OF lt, of "Suc k"] that Suc.prems(5) PGROUNDDOWN_pg [OF Suc.prems(2) lt, of "Suc k"] by (auto simp: word_less_nat_alt)
  show ?case
  proof (cases rule: map_first [OF Suc.prems(1) a Suc.prems(2-4) none, case_names full more])
    case (full s' T')
    then show ?thesis by (intro exI [of _ "- 1"] exI [of _ s'] exI [of _ "[]"] exI [of _ T']) simp
  next
    case (more s1 ps1 T1)
    have al: "?a mod PGSIZE = 0" "?pa mod PGSIZE = 0"
      using aligned_diff [OF Suc.prems(2), of "- PGSIZE"] aligned_diff [OF Suc.prems(3), of "- PGSIZE"] by simp_all
    have "unat ?a = unat a + 4096" using unat_pg [OF lt, of 1] by (simp add: pg_def)
    then have b: "unat ?a + 4096 * Suc n \<le> 2 ^ 47" using Suc.prems(5) by simp
    have n1: "\<forall>k\<le>n. vaddr (mem s1) root (pg ?a k) = None" using more(5) up Suc.prems(6) by (simp add: leaves_def)
    obtain r s' ps' T' where 2: "mappages_loop root ?a ?pa perm n s1 = Done r s'" "vm_ok s' ps' root T'" "vm_grown s1 ps1 T1 s' ps' T'"
      "r = 0 \<or> r = - 1 \<and> ps' = []" "leaves root (mem s1) (mem s') ?a n" "r = 0 \<longrightarrow> maps root (mem s') ?a ?pa n"
      using Suc.IH [OF more(2) al Suc.prems(4) b n1] by blast
    have "r = 0 \<longrightarrow> maps root (mem s') a pa (Suc n)" using maps_Suc [OF more(6) 2(5)] 2(6) up(1) by blast
    then show ?thesis using more(1) [of "Suc n"] 2(1,2,4) leaves_Suc [OF more(5) 2(5)] vm_grown_trans [OF more(3) 2(3)]
      by (intro exI [of _ r] exI [of _ s'] exI [of _ ps'] exI [of _ T']) simp
  qed
qed


lemma range_pages:
  assumes sz: "0 < unat sz" "unat va + unat sz \<le> 2 ^ 47"
  defines "a \<equiv> PGROUNDDOWN va" and "n \<equiv> unat (PGROUNDDOWN (va + sz - 1) - PGROUNDDOWN va) div 4096"
  shows "unat a + 4096 * Suc n \<le> 2 ^ 47"
    and "PGROUNDDOWN x = pg a k \<Longrightarrow> k \<le> n \<Longrightarrow> a \<le> x \<and> PGROUNDDOWN x \<le> va + sz - 1"
    and "a \<le> x \<Longrightarrow> PGROUNDDOWN x \<le> va + sz - 1 \<Longrightarrow> \<exists>k\<le>n. PGROUNDDOWN x = pg a k"
proof -
  define A L X where "A = unat va div 4096" and "L = (unat va + unat sz - 1) div 4096" and "X = unat x div 4096"
  have last: "unat (va + sz - 1) = unat va + unat sz - 1"
  proof -
    have "unat (va + sz) = unat va + unat sz" using sz by (simp add: unat_word_ariths)
    moreover from this have "va + sz \<noteq> 0" using sz(1) by (metis add_gr_0 less_numeral_extra(3) unat_0)
    ultimately show ?thesis by (simp only: unat_minus_one not_False_eq_True)
  qed
  have u: "unat a = 4096 * A" "unat (PGROUNDDOWN (va + sz - 1)) = 4096 * L" "unat (PGROUNDDOWN x) = 4096 * X"
    by (simp_all add: a_def unat_PGROUNDDOWN last A_def L_def X_def)
  have AL: "A \<le> L" unfolding A_def L_def using sz(1) by (intro div_le_mono) simp
  then have "unat (PGROUNDDOWN (va + sz - 1) - a) = 4096 * L - 4096 * A"
    using u by (simp add: unat_sub word_le_nat_alt)
  then have n: "n = L - A" unfolding n_def a_def [symmetric] by (simp add: diff_mult_distrib2 [symmetric])
  have "L < 2 ^ 35" unfolding L_def using sz by (intro less_mult_imp_div_less) simp
  then show b: "unat a + 4096 * Suc n \<le> 2 ^ 47" using n AL u(1) by simp
  have pgk: "unat (pg a k) = 4096 * (A + k)" if "k \<le> n" for k using unat_pg [of a k] b that u(1) by simp
  have xX: "4096 * X \<le> unat x" "unat x < 4096 * X + 4096" unfolding X_def by simp_all
  have lL: "4096 * L \<le> unat va + unat sz - 1" "unat va + unat sz - 1 < 4096 * L + 4096" unfolding L_def by simp_all
  show "a \<le> x \<and> PGROUNDDOWN x \<le> va + sz - 1" if "PGROUNDDOWN x = pg a k" "k \<le> n"
  proof -
    have "X = A + k" using pgk [OF that(2)] that(1) u(3) by simp
    then show ?thesis using that(2) n AL u xX lL last by (simp add: word_le_nat_alt)
  qed
  show "\<exists>k\<le>n. PGROUNDDOWN x = pg a k" if "a \<le> x" "PGROUNDDOWN x \<le> va + sz - 1"
  proof (intro exI conjI)
    have "A \<le> X" using that(1) u(1) xX by (simp add: word_le_nat_alt)
    moreover have "X \<le> L" using that(2) u(3) last lL by (simp add: word_le_nat_alt)
    ultimately show "X - A \<le> n" "PGROUNDDOWN x = pg a (X - A)"
      using n pgk [of "X - A"] u(3) by (simp_all add: word_unat_eq_iff)
  qed
qed

lemma in_page_offset:
  assumes "PGROUNDDOWN x = pg a k"
  shows "P2V (pg pa k) + (x AND 0xFFF) = P2V pa + (x - a)"
proof -
  have "x AND 0xFFF = x - pg a k" unfolding and_4095 assms [symmetric] by (simp add: PGROUNDDOWN_mod)
  then show ?thesis by (simp add: P2V_def pg_def)
qed

text \<open>
  C32. \<open>mappages\<close> on unmapped user addresses returns; when it returns 0, every address of the pages of
  \<open>[va, va + size)\<close> is translated to the corresponding place of the physical range at \<open>pa\<close>; when it
  returns -1, there was no page left for a table. In both cases every other user address is
  translated as before, the table stays a tree of pages disjoint from the free list, and memory
  outside this tree and the free pages - other page tables, the pages of other processes - is unchanged.
\<close>

theorem mappages_maps:
  fixes s :: "'z kmem_st_scheme"
  assumes vm: "vm_ok s ps root T" and sz: "0 < sz" "unat va + unat sz \<le> 2 ^ 47" and pa: "pa mod PGSIZE = 0" "perm < PGSIZE"
    and unmapped: "\<forall>x. PGROUNDDOWN va \<le> x \<and> x \<le> va + sz - 1 \<longrightarrow> vaddr (mem s) root x = None"
  shows "\<exists>r s' ps' T'. mappages root va sz pa perm s = Done r s' \<and> vm_ok s' ps' root T' \<and> (r = 0 \<or> r = - 1 \<and> ps' = []) \<and>
    (\<forall>x<0x800000000000. if PGROUNDDOWN va \<le> x \<and> PGROUNDDOWN x \<le> va + sz - 1
       then r = 0 \<longrightarrow> vaddr (mem s') root x = Some (P2V pa + (x - PGROUNDDOWN va))
       else vaddr (mem s') root x = vaddr (mem s) root x) \<and>
    (\<forall>x. PGROUNDDOWN x \<notin> tables T \<union> set ps \<longrightarrow> mem s' x = mem s x)"
proof -
  define a n where "a = PGROUNDDOWN va" and "n = unat (PGROUNDDOWN (va + sz - 1) - PGROUNDDOWN va) div 4096"
  have sz0: "0 < unat sz" using sz(1) by (simp add: word_less_nat_alt)
  note R = range_pages [OF sz0 sz(2), folded a_def n_def]
  have al: "a mod PGSIZE = 0"
    unfolding a_def by (simp add: word_unat_eq_iff unat_mod_distrib unat_PGROUNDDOWN)
  have "vaddr (mem s) root (pg a k) = None" if "k \<le> n" for k
  proof -
    have lt: "unat a + 4096 * k < 2 ^ 64" using R(1) that by simp
    have "PGROUNDDOWN (pg a k) = pg a k" by (rule PGROUNDDOWN_pg [OF al lt])
    with R(2) [of "pg a k" k] that unmapped show ?thesis by (simp add: a_def)
  qed
  then obtain r s' ps' T' where 1: "mappages_loop root a pa perm n s = Done r s'" "vm_ok s' ps' root T'" "vm_grown s ps T s' ps' T'"
    "r = 0 \<or> r = - 1 \<and> ps' = []" "leaves root (mem s) (mem s') a n" "r = 0 \<longrightarrow> maps root (mem s') a pa n"
    using mappages_loop_law [OF vm al pa R(1)] by blast
  have run: "mappages root va sz pa perm s = Done r s'" using 1(1) by (simp add: mappages_def a_def n_def Let_def)
  have tr: "if a \<le> x \<and> PGROUNDDOWN x \<le> va + sz - 1 then r = 0 \<longrightarrow> vaddr (mem s') root x = Some (P2V pa + (x - a))
      else vaddr (mem s') root x = vaddr (mem s) root x" if x: "x < 0x800000000000" for x
  proof (cases "a \<le> x \<and> PGROUNDDOWN x \<le> va + sz - 1")
    case True
    then obtain k where "k \<le> n" "PGROUNDDOWN x = pg a k" using R(3) by blast
    with True 1(6) x in_page_offset show ?thesis by (simp add: maps_def)
  next
    case False
    then have "\<forall>k\<le>n. PGROUNDDOWN x \<noteq> pg a k" using R(2) by blast
    with False 1(5) x show ?thesis by (auto simp: leaves_def)
  qed
  show ?thesis using run 1(2-4) tr unfolding a_def vm_grown_def
    by (intro exI [of _ r] exI [of _ s'] exI [of _ ps'] exI [of _ T']) blast
qed

text \<open>A tree of one empty root table and three free pages.\<close>

definition vm_start :: kmem_st where
  "vm_start = (kmem0 0xFFFF800000150000)\<lparr>freelist := 0xFFFF800000203000,
     mem := store64 0xFFFF800000203000 0xFFFF800000202000 (store64 0xFFFF800000202000 0xFFFF800000201000 (\<lambda>_. 0))\<rparr>"

definition vm_root :: "nat \<Rightarrow> addr set" where
  "vm_root l = (if l = 4 then {0xFFFF800000200000} else {})"

lemma vm_start_page: "PGROUNDDOWN x = 0xFFFF800000200000 \<Longrightarrow> mem vm_start x = 0"
  using store64_outside [of "0xFFFF800000203000" "0xFFFF800000203000" 0 x] store64_outside [of "0xFFFF800000202000" "0xFFFF800000202000" 0 x]
  by (simp add: vm_start_def in_page_def slot_def)

lemma vm_start_ok: "vm_ok vm_start [0xFFFF800000203000, 0xFFFF800000202000, 0xFFFF800000201000] 0xFFFF800000200000 vm_root"
proof -
  have ap: "apart (0xFFFF800000203000) 8 (0xFFFF800000202000) 8" "apart (0xFFFF800000203000) 8 (0xFFFF800000201000) 8"
    "apart (0xFFFF800000202000) 8 (0xFFFF800000201000) 8" by (simp_all add: apart_def)
  have "kmem_inv vm_start [0xFFFF800000203000, 0xFFFF800000202000, 0xFFFF800000201000]"
    using ap by (simp add: kmem_inv_def vm_start_def kmem0_def page_ok_def V2P_def load64_store64_same load64_store64_apart load64_zero)
  moreover have zero: "next_tab (mem vm_start) (slot 0xFFFF800000200000 i) = None" if "i < 512" for i
  proof -
    have "load64 (mem vm_start) (slot 0xFFFF800000200000 i) = 0"
      using vm_start_page in_page_slot [OF that, of _ "0xFFFF800000200000"] by (intro load64_zero) (simp add: in_page_iff)
    then show ?thesis by (simp add: next_tab_def)
  qed
  moreover have "pt_ok (mem vm_start) 0xFFFF800000200000 vm_root"
    using zero ents_le by (auto simp: pt_ok_def vm_root_def)
  ultimately show ?thesis by (auto simp: vm_ok_def tables_def vm_root_def page_ok_def vm_start_def kmem0_def V2P_def)
qed

lemma vm_start_unmapped: "x < 0x800000000000 \<Longrightarrow> vaddr (mem vm_start) 0xFFFF800000200000 x = None"
proof -
  assume x: "x < 0x800000000000"
  have "next_tab (mem vm_start) (slot 0xFFFF800000200000 (PMX x)) = None"
    using pt_okD(2) [OF vm_okD(2) [OF vm_start_ok], of 3 "0xFFFF800000200000" "PMX x"] PMX_user [OF x]
    by (cases "next_tab (mem vm_start) (slot 0xFFFF800000200000 (PMX x))") (auto simp: vm_root_def)
  then show ?thesis using x by (simp add: vaddr_user vwalk_def slot_def)
qed

theorem mappages_maps_witness:
  "vm_ok vm_start [0xFFFF800000203000, 0xFFFF800000202000, 0xFFFF800000201000] 0xFFFF800000200000 vm_root \<and>
   (\<exists>r s'. mappages 0xFFFF800000200000 0x1000 0x1000 0x5000 6 vm_start = Done r s' \<and>
      (r = 0 \<longrightarrow> vaddr (mem s') 0xFFFF800000200000 0x1234 = Some 0xFFFF800000005234) \<and>
      vaddr (mem s') 0xFFFF800000200000 0x2234 = None)"
proof -
  have un: "\<forall>x. PGROUNDDOWN 0x1000 \<le> x \<and> x \<le> 0x1000 + 0x1000 - 1 \<longrightarrow> vaddr (mem vm_start) 0xFFFF800000200000 x = None"
    using vm_start_unmapped by (auto simp: word_le_nat_alt word_less_nat_alt)
  obtain r s' where 1: "mappages 0xFFFF800000200000 0x1000 0x1000 0x5000 6 vm_start = Done r s'"
    "\<forall>x<0x800000000000. if PGROUNDDOWN 0x1000 \<le> x \<and> PGROUNDDOWN x \<le> 0x1000 + 0x1000 - 1
       then r = 0 \<longrightarrow> vaddr (mem s') 0xFFFF800000200000 x = Some (P2V 0x5000 + (x - PGROUNDDOWN 0x1000))
       else vaddr (mem s') 0xFFFF800000200000 x = vaddr (mem vm_start) 0xFFFF800000200000 x"
    using mappages_maps [OF vm_start_ok, of "0x1000" "0x1000" "0x5000" 6] un by auto
  then show ?thesis
    using spec [OF 1(2), of "0x1234"] spec [OF 1(2), of "0x2234"] vm_start_ok vm_start_unmapped [of "0x2234"]
    by (simp add: PGROUNDDOWN_def P2V_def)
qed


end
