(* ===== verification/Uvm.thy ===== *)
theory Uvm
  imports Pagetable
begin

text \<open>
  The copy of a process' memory that \<open>fork\<close> makes, \<open>copyuvm\<close> of src/vm.c, over the page-table contract of theory
  \<open>Pagetable\<close> and the allocator's of theory \<open>Kalloc\<close>: the invariant \<open>copying\<close> of the loop, what \<open>setupkvm\<close> starts
  it from, and that the finished copy is complete and shares no memory with the parent.
\<close>

section \<open>Memory that a page table depends on\<close>

lemma page_plus: "p mod PGSIZE = 0 \<Longrightarrow> PGROUNDDOWN (p + (x AND 0xFFF)) = p"
proof -
  assume p: "p mod PGSIZE = 0"
  have "unat (x AND 0xFFF) < 4096" unfolding and_4095 by (simp add: unat_mod_distrib)
  then show ?thesis using in_page_iff [OF p, of "p + (x AND 0xFFF)"] by (simp add: in_page_def)
qed

lemma next_tab_aligned: "next_tab m ea = Some q \<Longrightarrow> q mod PGSIZE = 0"
proof -
  assume "next_tab m ea = Some q"
  then have q: "q = P2V (PTE_ADDR (load64 m ea))" by (auto simp: next_tab_def Let_def split: if_splits)
  have "PTE_ADDR (load64 m ea) mod PGSIZE = 0"
    unfolding PTE_ADDR_def and_4095 [symmetric] by (simp add: and.assoc)
  then show ?thesis using aligned_diff [of "PTE_ADDR (load64 m ea)" "- KERNBASE"] by (simp add: q P2V_def)
qed

lemma tables_read:
  assumes "\<forall>t\<in>tables T. t mod PGSIZE = 0" "\<And>x. PGROUNDDOWN x \<in> tables T \<Longrightarrow> m' x = m x" "t \<in> tables T" "i < 512"
  shows "load64 m' (slot t i) = load64 m (slot t i)"
  using assms in_page_iff by (intro load64_same) auto

lemma vaddr_cong:
  assumes ok: "pt_ok m root T" and al: "\<forall>t\<in>tables T. t mod PGSIZE = 0" and same: "\<And>x. PGROUNDDOWN x \<in> tables T \<Longrightarrow> m' x = m x"
    and x: "x < 0x800000000000"
  shows "vwalk m' root x = vwalk m root x" and "vwalk m root x = Some pte \<Longrightarrow> load64 m' pte = load64 m pte" and "vaddr m' root x = vaddr m root x"
proof -
  have R: "load64 m' (slot t i) = load64 m (slot t i)" if "t \<in> tables T" "i < 512" for t i
    using tables_read [of T m' m t i] al same that by blast
  show w: "vwalk m' root x = vwalk m root x"
    by (rule walk_cong [OF ok x]) (use R tables_mem [of "Suc _" _ T] in auto)
  show l: "load64 m' pte = load64 m pte" if w1: "vwalk m root x = Some pte" for pte
  proof -
    obtain p1 where "p1 \<in> T 1" "pte = slot p1 (PTX x)" by (rule vwalk_path [OF ok x w1])
    then show ?thesis using R [OF tables_mem [of 1 p1 T] indices_less(3)] by simp
  qed
  show "vaddr m' root x = vaddr m root x"
    using w l x by (simp add: vaddr_user next_tab_def split: option.splits)
qed

lemma pt_ok_same:
  assumes "pt_ok m root T" "\<forall>t\<in>tables T. t mod PGSIZE = 0" "\<And>x. PGROUNDDOWN x \<in> tables T \<Longrightarrow> m' x = m x"
  shows "pt_ok m' root T"
  by (rule pt_ok_cong [OF _ assms(1)]) (use tables_read [OF assms(2,3)] tables_mem [of "Suc _" _ T] in auto)

text \<open>A page that is neither a table nor free may be written.\<close>

lemma vm_ok_write:
  fixes s :: "'z kmem_st_scheme"
  assumes vm: "vm_ok s ps root T" and p: "page_ok (kend s) p" "p \<notin> tables T" "p \<notin> set ps" and m: "\<And>x. PGROUNDDOWN x \<noteq> p \<Longrightarrow> m x = mem s x"
  shows "vm_ok (s\<lparr>mem := m\<rparr>) ps root T" and "x < 0x800000000000 \<Longrightarrow> vaddr m root x = vaddr (mem s) root x"
proof -
  have pa: "p mod PGSIZE = 0" using p(1) by (simp add: page_ok_def)
  have same: "m x = mem s x" if "PGROUNDDOWN x \<in> tables T" for x by (rule m) (use that p(2) in auto)
  have "kmem_inv (s\<lparr>mem := m\<rparr>) ps"
    by (rule flist_client_write [OF vm_okD(1) [OF vm], of "{p}"]) (use p m in_page_iff [OF pa] in auto)
  moreover have "pt_ok m root T" by (rule pt_ok_same [OF vm_okD(2,5) [OF vm] same])
  ultimately show "vm_ok (s\<lparr>mem := m\<rparr>) ps root T" using vm by (simp add: vm_ok_def)
  show "vaddr m root x = vaddr (mem s) root x" if "x < 0x800000000000"
    by (rule vaddr_cong(3) [OF vm_okD(2,5) [OF vm] same that])
qed

lemma vm_ok_kalloc:
  fixes s :: "'z kmem_st_scheme"
  assumes "vm_ok s (p # qs) root T"
  shows "kalloc s = Done p (s\<lparr>freelist := load64 (mem s) p\<rparr>)" "vm_ok (s\<lparr>freelist := load64 (mem s) p\<rparr>) qs root T"
    "p \<noteq> 0" "page_ok (kend s) p" "p \<notin> tables T" "p \<notin> set qs"
  using kalloc_pop [OF vm_okD(1) [OF assms]] assms page_ok_nonzero by (auto simp: vm_ok_def kmem_inv_def)

lemma walkpgdir_find:
  fixes s :: "'z kmem_st_scheme"
  shows "walkpgdir root va False s = Done (case vwalk (mem s) root va of None \<Rightarrow> 0 | Some pte \<Rightarrow> pte) s"
proof -
  have "walk_level False ea s = Done (next_tab (mem s) ea) s" for ea :: addr
    using walk_level_run(1) [of s ea _ False] walk_level_run(2) [of s ea] by (cases "next_tab (mem s) ea") auto
  then show ?thesis by (simp add: walkpgdir_def vwalk_def bnd_Done ret_def split: option.splits)
qed

lemma memmove_page:
  assumes "page_ok e q" "p mod PGSIZE = 0"
  shows "memmove p q 4096 m x = (if PGROUNDDOWN x = p then m (q + (x - p)) else m x)"
proof -
  have "unat q + 4096 < 2 ^ 64"
  proof -
    have "V2P q < PHYSTOP" using assms(1) by (simp add: page_ok_def)
    then show ?thesis using unat_addr_less [of q] by (simp add: V2P_def word_less_nat_alt unat_sub_if_size word_size split: if_splits)
  qed
  then have "memmove p q 4096 m = moved p q 4096 m" using memmove_moved [of q 4096 p m] by simp
  then show ?thesis using in_page_iff [OF assms(2), of x] by (simp add: moved_def in_page_def)
qed



section \<open>Copying the pages of a process\<close>

text \<open>
  The copy of the tables \<open>root\<close> of memory \<open>m0\<close> into the new tables \<open>d\<close>: \<open>Q\<close> are the pages that were free
  at the start, \<open>D\<close> those that hold copied pages, \<open>dn\<close> the user pages copied so far.
\<close>

definition copied :: "mem \<Rightarrow> addr \<Rightarrow> mem \<Rightarrow> addr \<Rightarrow> addr set \<Rightarrow> addr \<Rightarrow> bool" where
  "copied m0 root m d D x \<longleftrightarrow> (\<exists>a b. vaddr m0 root x = Some a \<and> vaddr m d x = Some b \<and> PGROUNDDOWN b \<in> D \<and> m b = m0 a)"

definition copying :: "mem \<Rightarrow> addr \<Rightarrow> addr \<Rightarrow> addr set \<Rightarrow> addr set \<Rightarrow> addr set \<Rightarrow> 'z kmem_st_scheme \<Rightarrow> addr list \<Rightarrow> (nat \<Rightarrow> addr set) \<Rightarrow> bool" where
  "copying m0 root d Q D dn s ps T \<longleftrightarrow> vm_ok s ps d T \<and> D \<inter> (set ps \<union> tables T) = {} \<and> set ps \<union> tables T \<union> D \<subseteq> Q \<and>
     (\<forall>x. PGROUNDDOWN x \<notin> Q \<longrightarrow> mem s x = m0 x) \<and>
     (\<forall>x<0x800000000000. if PGROUNDDOWN x \<in> dn then copied m0 root (mem s) d D x else vaddr (mem s) d x = None)"

text \<open>A present user page of the parent, outside \<open>Q\<close>.\<close>

definition parent_page :: "mem \<Rightarrow> addr \<Rightarrow> addr \<Rightarrow> addr set \<Rightarrow> addr \<Rightarrow> bool" where
  "parent_page m0 root e Q i \<longleftrightarrow> i mod PGSIZE = 0 \<and> i < 0x800000000000 \<and>
     (\<exists>q. vaddr m0 root i = Some q \<and> page_ok e q \<and> q \<notin> Q)"

lemma user_page:
  assumes i: "i mod PGSIZE = 0" "i < 0x800000000000" and q: "vaddr m root i = Some q"
  obtains pte where "vwalk m root i = Some pte" "next_tab m pte = Some q" "q mod PGSIZE = 0"
    "\<forall>x<0x800000000000. PGROUNDDOWN x = i \<longrightarrow> vaddr m root x = Some (q + (x AND 0xFFF))"
proof -
  have z: "i AND 0xFFF = 0" using i(1) by (simp add: and_4095)
  obtain pte where p: "vwalk m root i = Some pte" "next_tab m pte = Some q"
    using q i(2) z by (auto simp: vaddr_user split: option.splits)
  have rd: "PGROUNDDOWN i = i" using PGROUNDDOWN_mod [of i] i(1) by simp
  have "vaddr m root x = Some (q + (x AND 0xFFF))" if x: "x < 0x800000000000" "PGROUNDDOWN x = i" for x
  proof -
    have "vwalk m root x = vwalk m root i" using same_page_walk [of x i] x(2) rd by simp
    then show ?thesis using p x(1) by (simp add: vaddr_user)
  qed
  then show ?thesis using that [OF p next_tab_aligned [OF p(2)]] by blast
qed

lemma one_page: "i mod PGSIZE = 0 \<Longrightarrow> mappages d i PGSIZE pa perm s = mappages_loop d i pa perm 0 s"
proof -
  assume i: "i mod PGSIZE = 0"
  have rd: "PGROUNDDOWN i = i" using PGROUNDDOWN_mod [of i] i by simp
  have "PGROUNDDOWN (i + PGSIZE - 1) = i" using page_plus [OF i, of "0xFFF"] by (simp add: algebra_simps)
  then show ?thesis by (simp add: mappages_def rd Let_def)
qed

text \<open>The new page \<open>p\<close> gets the contents of the parent's page \<open>q\<close> and is mapped.\<close>

lemma copy_mapped:
  fixes s :: "'z vm_st_scheme"
  assumes J: "copying m0 root d Q D dn s (p # qs) T" and i: "i mod PGSIZE = 0" "i < 0x800000000000" "i \<notin> dn" and q: "page_ok e q" "q \<notin> Q"
    and par: "\<forall>x<0x800000000000. PGROUNDDOWN x = i \<longrightarrow> vaddr m0 root x = Some (q + (x AND 0xFFF))"
    and fl: "fl < PGSIZE" and room: "4 \<le> length qs"
  defines "s2 \<equiv> s\<lparr>freelist := load64 (mem s) p, mem := memmove p q 4096 (mem s)\<rparr>"
  shows "\<exists>s' ps' T'. mappages d i PGSIZE (V2P p) fl s2 = Done 0 s' \<and> copying m0 root d Q (insert p D) (insert i dn) s' ps' T' \<and> length qs \<le> length ps' + 3"
proof -
  note j = J [unfolded copying_def]
  have vm: "vm_ok s (p # qs) d T" using j by blast
  note K = vm_ok_kalloc [OF vm]
  have pa: "p mod PGSIZE = 0" and qa: "q mod PGSIZE = 0" using K(4) q(1) by (simp_all add: page_ok_def)
  have rd: "PGROUNDDOWN i = i" using PGROUNDDOWN_mod [of i] i(1) by simp
  define m2 where "m2 = memmove p q 4096 (mem s)"
  have m2: "m2 x = (if PGROUNDDOWN x = p then mem s (q + (x - p)) else mem s x)" for x unfolding m2_def by (rule memmove_page [OF q(1) pa])
  have s2: "s2 = (s\<lparr>freelist := load64 (mem s) p\<rparr>)\<lparr>mem := m2\<rparr>" "mem s2 = m2" by (simp_all add: s2_def m2_def)
  have vm2: "vm_ok s2 qs d T" unfolding s2(1) using vm_ok_write(1) [OF K(2), of p m2] K(4-6) m2 by simp
  have va2: "vaddr m2 d x = vaddr (mem s) d x" if "x < 0x800000000000" for x
    using vm_ok_write(2) [OF K(2), of p m2 x] K(4-6) m2 that by simp
  have none: "vaddr (mem s2) d i = None" using j i va2 [OF i(2)] rd by (simp add: s2(2))
  have vp: "V2P p mod PGSIZE = 0" using aligned_diff [OF pa, of KERNBASE] by (simp add: V2P_def)
  have pq: "P2V (V2P p) = p" by (simp add: P2V_def V2P_def)
  show ?thesis
  proof (cases rule: map_first [OF vm2 i(2,1) vp fl none, case_names full more])
    case (full s' T')
    then show ?thesis using room by simp
  next
    case (more s' ps' T')
    have run: "mappages d i PGSIZE (V2P p) fl s2 = Done 0 s'" using more(1) [of 0] by (simp add: one_page [OF i(1)] ret_def)
    have G: "set ps' \<subseteq> set qs" "tables T' \<subseteq> tables T \<union> set qs" "\<And>x. PGROUNDDOWN x \<notin> tables T \<union> set qs \<Longrightarrow> mem s' x = m2 x"
      using more(3) by (auto simp: vm_grown_def s2(2))
    have Q: "insert p (set qs) \<union> tables T \<union> D \<subseteq> Q" "D \<inter> (insert p (set qs) \<union> tables T) = {}" "\<And>x. PGROUNDDOWN x \<notin> Q \<Longrightarrow> mem s x = m0 x"
      using j by auto
    have "insert p D \<inter> (set ps' \<union> tables T') = {}" "set ps' \<union> tables T' \<union> insert p D \<subseteq> Q" using G Q K(5,6) by blast+
    moreover have "mem s' x = m0 x" if "PGROUNDDOWN x \<notin> Q" for x
    proof -
      have "PGROUNDDOWN x \<notin> tables T \<union> set qs" "PGROUNDDOWN x \<noteq> p" using Q(1) that by auto
      then show ?thesis using G(3) [of x] m2 [of x] Q(3) [OF that] by simp
    qed
    moreover have "if PGROUNDDOWN x \<in> insert i dn then copied m0 root (mem s') d (insert p D) x else vaddr (mem s') d x = None"
      if x: "x < 0x800000000000" for x
    proof (cases "PGROUNDDOWN x = i")
      case True
      have "vaddr (mem s') d x = Some (p + (x AND 0xFFF))" using more(6) x True by (simp add: maps_def pq)
      moreover have "mem s' (p + (x AND 0xFFF)) = m0 (q + (x AND 0xFFF))"
        using G(3) [of "p + (x AND 0xFFF)"] m2 [of "p + (x AND 0xFFF)"] page_plus [OF pa, of x] page_plus [OF qa, of x] K(5,6) Q(3) q(2) by simp
      ultimately show ?thesis using True par x page_plus [OF pa, of x] by (auto simp: copied_def)
    next
      case False
      have same: "vaddr (mem s') d x = vaddr (mem s) d x" using more(5) x False va2 [OF x] by (simp add: leaves_def s2(2))
      have "copied m0 root (mem s') d (insert p D) x" if c0: "copied m0 root (mem s) d D x"
      proof -
        obtain a b where ab: "vaddr m0 root x = Some a" "vaddr (mem s) d x = Some b" "PGROUNDDOWN b \<in> D" "mem s b = m0 a"
          using c0 by (auto simp: copied_def)
        then have "PGROUNDDOWN b \<notin> tables T \<union> set qs" "PGROUNDDOWN b \<noteq> p" using Q(2) by auto
        then have "mem s' b = mem s b" using G(3) [of b] m2 [of b] by simp
        then show ?thesis using ab same by (auto simp: copied_def)
      qed
      then show ?thesis using j x False same by auto
    qed
    ultimately show ?thesis using run more(2,4) unfolding copying_def by blast
  qed
qed

lemma pte_nonzero:
  assumes "pt_ok m root T" "\<forall>t\<in>tables T. page_ok e t" "va < 0x800000000000" "vwalk m root va = Some pte"
  shows "pte \<noteq> 0"
proof -
  obtain p1 where p: "p1 \<in> T 1" "pte = slot p1 (PTX va)" by (rule vwalk_path [OF assms(1,3,4)])
  have "page_ok e p1" using p(1) tables_mem [of 1 p1 T] assms(2) by simp
  then have "unat pte = unat p1 + 8 * unat (PTX va)" "unat p1 \<noteq> 0"
    using unat_slot [of p1 "PTX va"] p(2) indices_less page_ok_nonzero [of e p1] by (auto simp: page_ok_def unat_eq_0)
  then show ?thesis by (metis add_is_0 unat_0)
qed

lemma copy_step:
  fixes s :: "'z vm_st_scheme"
  assumes J: "copying m0 root d Q D dn s ps T" and par: "pt_ok m0 root Tp" "\<forall>t\<in>tables Tp. page_ok e t" "tables Tp \<inter> Q = {}"
    and pg: "parent_page m0 root e Q i" "i \<notin> dn" and room: "5 \<le> length ps"
  shows "\<exists>s' ps' T' D'. (\<forall>is. copyuvm_loop root d (i # is) s = copyuvm_loop root d is s') \<and>
    copying m0 root d Q D' (insert i dn) s' ps' T' \<and> length ps \<le> length ps' + 4"
proof -
  note j = J [unfolded copying_def]
  obtain p qs where ps: "ps = p # qs" using room by (cases ps) auto
  have "vm_ok s (p # qs) d T" using j ps by simp
  note K = vm_ok_kalloc [OF this]
  have i: "i mod PGSIZE = 0" "i < 0x800000000000" and ex: "\<exists>q. vaddr m0 root i = Some q \<and> page_ok e q \<and> q \<notin> Q"
    using pg(1) unfolding parent_page_def by blast+
  obtain q where q: "vaddr m0 root i = Some q" "page_ok e q" "q \<notin> Q" using ex by blast
  obtain pte where pte: "vwalk m0 root i = Some pte" "next_tab m0 pte = Some q" "q mod PGSIZE = 0"
    "\<forall>x<0x800000000000. PGROUNDDOWN x = i \<longrightarrow> vaddr m0 root x = Some (q + (x AND 0xFFF))" by (rule user_page [OF i q(1)])
  have pal: "\<forall>t\<in>tables Tp. t mod PGSIZE = 0" using par(2) by (simp add: page_ok_def)
  have same: "mem s x = m0 x" if "PGROUNDDOWN x \<in> tables Tp" for x using j par(3) that by blast
  have w: "vwalk (mem s) root i = Some pte" "load64 (mem s) pte = load64 m0 pte"
    using vaddr_cong [OF par(1) pal same i(2)] pte(1) by auto
  let ?e = "load64 m0 pte" let ?s2 = "s\<lparr>freelist := load64 (mem s) p, mem := memmove p q 4096 (mem s)\<rparr>"
  have e: "?e AND PTE_P \<noteq> 0" "P2V (PTE_ADDR ?e) = q" using pte(2) by (auto simp: next_tab_def Let_def split: if_splits)
  have fl: "PTE_FLAGS ?e < PGSIZE" unfolding PTE_FLAGS_def and_4095 by (simp add: word_less_nat_alt unat_mod_distrib)
  obtain s' ps' T' where t: "mappages d i PGSIZE (V2P p) (PTE_FLAGS ?e) ?s2 = Done 0 s'"
    "copying m0 root d Q (insert p D) (insert i dn) s' ps' T'" "length qs \<le> length ps' + 3"
    using copy_mapped [OF J [unfolded ps] i pg(2) q(2,3) pte(4) fl] room ps by auto
  have nz: "pte \<noteq> 0" using pte_nonzero [OF par(1,2) i(2) pte(1)] by blast
  have "copyuvm_loop root d (i # is) s = copyuvm_loop root d is s'" for "is"
    using w nz e K(1,3) t(1)
    by (simp add: walkpgdir_find bnd_Done thn_panic_if get64_def bnd_gets thn_modify)
  then show ?thesis using t(2,3) ps by (intro exI [of _ s'] exI [of _ ps'] exI [of _ T'] exI [of _ "insert p D"]) simp
qed



lemma copy_loop:
  fixes s :: "'z vm_st_scheme"
  assumes "copying m0 root d Q D dn s ps T" and par: "pt_ok m0 root Tp" "\<forall>t\<in>tables Tp. page_ok e t" "tables Tp \<inter> Q = {}"
    and "\<forall>i\<in>set pgs. parent_page m0 root e Q i \<and> i \<notin> dn" "distinct pgs" "4 * length pgs + 1 \<le> length ps"
  shows "\<exists>s' ps' T' D'. copyuvm_loop root d pgs s = Done d s' \<and> copying m0 root d Q D' (dn \<union> set pgs) s' ps' T'"
  using assms(1,5-7)
proof (induction pgs arbitrary: D dn s ps T)
  case Nil
  then show ?case by (auto simp: ret_def)
next
  case (Cons i pgs)
  have p: "parent_page m0 root e Q i" "i \<notin> dn" "5 \<le> length ps" using Cons.prems(2,4) by auto
  obtain s1 ps1 T1 D1 where 1: "\<forall>pgs. copyuvm_loop root d (i # pgs) s = copyuvm_loop root d pgs s1"
    "copying m0 root d Q D1 (insert i dn) s1 ps1 T1" "length ps \<le> length ps1 + 4" using copy_step [OF Cons.prems(1) par p] by blast
  have "\<forall>k\<in>set pgs. parent_page m0 root e Q k \<and> k \<notin> insert i dn" using Cons.prems(2,3) by auto
  from Cons.IH [OF 1(2) this] Cons.prems(3,4) 1(1,3) show ?case by auto
qed

section \<open>An empty user half\<close>

definition root_only :: "addr \<Rightarrow> nat \<Rightarrow> addr set" where
  "root_only d l = (if l = 4 then {d} else {})"

lemma tables_root [simp]: "tables (root_only d) = {d}"
  by (simp add: tables_def root_only_def)

lemma empty_root:
  assumes "d mod PGSIZE = 0" and zero: "\<And>j. j < ents 4 \<Longrightarrow> load64 m (slot d j) = 0"
  shows "pt_ok m d (root_only d)" and "x < 0x800000000000 \<Longrightarrow> vaddr m d x = None"
proof -
  have none: "next_tab m (slot d j) = None" if "j < ents 4" for j using zero [OF that] by (simp add: next_tab_def)
  then show "pt_ok m d (root_only d)" by (auto simp: pt_ok_def root_only_def)
  assume x: "x < 0x800000000000"
  then have "vwalk m d x = None" using none [OF PMX_user [OF x]] by (simp add: vwalk_def slot_def)
  then show "vaddr m d x = None" using x by (simp add: vaddr_user)
qed

lemma setupkvm_law:
  fixes s :: "'z vm_st_scheme"
  assumes inv: "kmem_inv s (d # qs)"
  shows "\<exists>s'. setupkvm s = Done d s' \<and> vm_ok s' qs d (root_only d) \<and> d \<noteq> 0 \<and>
    (\<forall>x<0x800000000000. vaddr (mem s') d x = None) \<and> (\<forall>x. PGROUNDDOWN x \<noteq> d \<longrightarrow> mem s' x = mem s x)"
proof -
  have d: "page_ok (kend s) d" "d \<noteq> 0" "d \<notin> set qs" "d mod PGSIZE = 0"
    using inv page_ok_nonzero by (auto simp: kmem_inv_def page_ok_def)
  note K = kalloc_pop [OF inv]
  define m where "m = store64 (slot d 256) (V2P (kpdpt s) OR 3) (filled d 0 4096 (mem s))"
  let ?s = "s\<lparr>freelist := load64 (mem s) d, mem := m\<rparr>"
  have run: "setupkvm s = Done d ?s"
    using K(1) d(2) by (simp add: setupkvm_def deref_def zero_page_def set64_def kop_simps bnd_Done m_def slot_def memset_filled)
  have out: "m x = mem s x" if "PGROUNDDOWN x \<noteq> d" for x
  proof -
    have "\<not> in_page d x" using that in_page_iff [OF d(4)] by simp
    then show ?thesis using store64_outside [of d "slot d 256" 256 x] in_page_slot [of 256 0 d] d(4) that
      by (simp add: m_def filled_def in_page_def)
  qed
  have zero: "load64 m (slot d j) = 0" if "j < ents 4" for j
  proof -
    have j: "j < 512" "(d, 256) \<noteq> (d, j)" using ents_le [OF that] that by (auto simp: ents_def)
    have "load64 m (slot d j) = load64 (filled d 0 4096 (mem s)) (slot d j)"
      unfolding m_def by (rule load64_store64_apart, rule slots_apart [OF d(4) _ d(4) j]) simp
    also have "\<dots> = 0" using in_page_slot [OF j(1), of _ d] by (intro load64_zero) (simp add: filled_def in_page_def)
    finally show ?thesis .
  qed
  have "kmem_inv ?s qs"
    using flist_client_write [OF K(2), of "{d}" m] d out in_page_iff [OF d(4)] by simp
  then have "vm_ok ?s qs d (root_only d)" using d empty_root(1) [OF d(4) zero] by (simp add: vm_ok_def)
  then show ?thesis using run d(2) empty_root(2) [OF d(4) zero] out by (intro exI [of _ ?s]) simp
qed



section \<open>The range of pages\<close>

lemma user_pages_set:
  assumes "lim < 0x100000000"
  shows "i \<in> set (user_pages PGSIZE lim) \<longleftrightarrow> i mod PGSIZE = 0 \<and> PGSIZE \<le> i \<and> i < lim" (is "_ = ?r")
    and "distinct (user_pages PGSIZE lim)"
proof -
  define n where "n = (unat (lim - PGSIZE) + 4095) div 4096"
  have L: "unat lim < 2 ^ 32" using assms by (simp add: word_less_nat_alt)
  have un: "unat (PGSIZE + 4096 * of_nat k) = 4096 * Suc k" if "k \<le> n" "PGSIZE < lim" for k
  proof -
    have "unat (lim - PGSIZE) \<le> unat lim" using that(2) by (simp add: unat_sub word_less_nat_alt word_le_nat_alt)
    then have "n < 2 ^ 21" using L unfolding n_def by simp
    then show ?thesis using that(1) by (simp add: unat_word_ariths unat_of_nat)
  qed
  have n: "n = (unat lim - 1) div 4096" if "PGSIZE < lim"
    using that by (simp add: n_def unat_sub word_less_nat_alt word_le_nat_alt)
  have ps: "user_pages PGSIZE lim = (if PGSIZE < lim then pages_from PGSIZE n else [])" by (simp add: user_pages_def n_def)
  show "distinct (user_pages PGSIZE lim)"
  proof (cases "PGSIZE < lim")
    case True
    then show ?thesis using pages_from_distinct [of PGSIZE n "PGSIZE + 4096 * of_nat n"] un [of n] by (simp add: ps)
  qed (simp add: ps)
  show "i \<in> set (user_pages PGSIZE lim) \<longleftrightarrow> ?r"
  proof
    assume "i \<in> set (user_pages PGSIZE lim)"
    then obtain k where k: "PGSIZE < lim" "k < n" "i = PGSIZE + 4096 * of_nat k" by (auto simp: ps pages_from_def split: if_splits)
    then have "unat i = 4096 * Suc k" using un [of k] by simp
    moreover have "4096 * Suc k < unat lim" using k(2) less_eq_div_iff_mult_less_eq [of 4096 "Suc k" "unat lim - 1"] by (simp add: n [OF k(1)])
    ultimately show ?r by (simp add: word_unat_eq_iff unat_mod_distrib word_less_nat_alt word_le_nat_alt)
  next
    assume r: ?r
    then have "i mod PGSIZE = 0" by blast
    then obtain b where b: "unat i = 4096 * b" by (rule aligned_page)
    have lim: "PGSIZE < lim" using r le_less_trans by blast
    have "1 \<le> b" "4096 * b < unat lim" using r b by (simp_all add: word_less_nat_alt word_le_nat_alt)
    then have "b - 1 < n" using less_eq_div_iff_mult_less_eq [of 4096 b "unat lim - 1"] by (simp add: n [OF lim])
    moreover from this have "i = PGSIZE + 4096 * of_nat (b - 1)" using un [of "b - 1"] b lim \<open>1 \<le> b\<close> by (simp add: word_unat_eq_iff)
    ultimately show "i \<in> set (user_pages PGSIZE lim)" using lim by (auto simp: ps pages_from_def)
  qed
qed

lemma PGROUNDDOWN_page: "PGROUNDDOWN x mod PGSIZE = 0" "PGSIZE \<le> PGROUNDDOWN x \<longleftrightarrow> PGSIZE \<le> x"
proof -
  show "PGROUNDDOWN x mod PGSIZE = 0" by (simp add: word_unat_eq_iff unat_mod_distrib unat_PGROUNDDOWN)
  have "4096 \<le> 4096 * (unat x div 4096) \<longleftrightarrow> 4096 \<le> unat x" using less_eq_div_iff_mult_less_eq [of 4096 1 "unat x"] by linarith
  then show "PGSIZE \<le> PGROUNDDOWN x \<longleftrightarrow> PGSIZE \<le> x" by (simp only: word_le_nat_alt unat_PGROUNDDOWN) simp
qed

text \<open>
  C35. A fork's copy of the parent's memory is complete, private and leaves the parent alone. With enough free
  pages (\<open>ps\<close>), \<open>copyuvm\<close> returns a new page table in which every address of a page of \<open>[PGSIZE, sz)\<close>
  is translated to a page that was free and holds the byte the parent has at that address; no other user address is mapped;
  the allocator and the tables are well-formed; no memory outside the free pages has changed, and the parent's
  own translation is the same.
\<close>

theorem copyuvm_copies:
  fixes s :: "'z vm_st_scheme"
  assumes vm: "vm_ok s ps root Tp" and pages: "\<forall>i. i mod PGSIZE = 0 \<and> PGSIZE \<le> i \<and> i < ucast sz \<longrightarrow>
      (\<exists>q. vaddr (mem s) root i = Some q \<and> page_ok (kend s) q \<and> q \<notin> set ps)"
    and room: "4 * length (user_pages PGSIZE (ucast sz)) + 2 \<le> length ps"
  shows "\<exists>d s' ps' T. copyuvm root sz s = Done d s' \<and> d \<noteq> 0 \<and> vm_ok s' ps' d T \<and> set ps' \<union> tables T \<subseteq> set ps \<and>
    (\<forall>x<0x800000000000. if PGSIZE \<le> x \<and> PGROUNDDOWN x < ucast sz
       then \<exists>a b. vaddr (mem s) root x = Some a \<and> vaddr (mem s') d x = Some b \<and> PGROUNDDOWN b \<in> set ps \<and> mem s' b = mem s a
       else vaddr (mem s') d x = None) \<and>
    (\<forall>x<0x800000000000. vaddr (mem s') root x = vaddr (mem s) root x) \<and>
    (\<forall>x. PGROUNDDOWN x \<notin> set ps \<longrightarrow> mem s' x = mem s x)"
proof -
  let ?lim = "ucast sz :: addr" let ?pgs = "user_pages PGSIZE ?lim"
  have lim: "?lim < 0x100000000" using unat_uint32_less [of sz] by (simp add: word_less_nat_alt unsigned_ucast_eq take_bit_nat_eq_self)
  note U = user_pages_set [OF lim]
  obtain d qs where ps: "ps = d # qs" using room by (cases ps) auto
  obtain s1 where 1: "setupkvm s = Done d s1" "vm_ok s1 qs d (root_only d)" "d \<noteq> 0"
    "\<forall>x<0x800000000000. vaddr (mem s1) d x = None" "\<forall>x. PGROUNDDOWN x \<noteq> d \<longrightarrow> mem s1 x = mem s x"
    using setupkvm_law [OF vm_okD(1) [OF vm, unfolded ps]] by blast
  have J: "copying (mem s) root d (set ps) {} {} s1 qs (root_only d)" using 1 by (simp add: copying_def ps)
  have tp: "\<forall>t\<in>tables Tp. page_ok (kend s) t" "tables Tp \<inter> set ps = {}" using vm by (simp_all add: vm_ok_def)
  have pp: "\<forall>i\<in>set ?pgs. parent_page (mem s) root (kend s) (set ps) i \<and> i \<notin> {}"
  proof
    fix i assume "i \<in> set ?pgs"
    then have i: "i mod PGSIZE = 0 \<and> PGSIZE \<le> i \<and> i < ?lim" using U(1) by blast
    then have "i < 0x800000000000" using lim by (simp add: word_less_nat_alt)
    then show "parent_page (mem s) root (kend s) (set ps) i \<and> i \<notin> {}" using i pages by (simp add: parent_page_def)
  qed
  obtain s' ps' T D where 2: "copyuvm_loop root d ?pgs s1 = Done d s'" "copying (mem s) root d (set ps) D (set ?pgs) s' ps' T"
    using copy_loop [OF J vm_okD(2) [OF vm] tp pp U(2)] room ps by auto
  note c = 2(2) [unfolded copying_def]
  have out: "mem s' x = mem s x" if "PGROUNDDOWN x \<notin> set ps" for x using c that by blast
  have same: "vaddr (mem s') root x = vaddr (mem s) root x" if "x < 0x800000000000" for x
    by (rule vaddr_cong(3) [OF vm_okD(2,5) [OF vm] out that]) (use tp(2) in auto)
  have new: "if PGSIZE \<le> x \<and> PGROUNDDOWN x < ?lim
       then \<exists>a b. vaddr (mem s) root x = Some a \<and> vaddr (mem s') d x = Some b \<and> PGROUNDDOWN b \<in> set ps \<and> mem s' b = mem s a
       else vaddr (mem s') d x = None" if x: "x < 0x800000000000" for x
  proof -
    have iff: "PGROUNDDOWN x \<in> set ?pgs \<longleftrightarrow> PGSIZE \<le> x \<and> PGROUNDDOWN x < ?lim" using U(1) [of "PGROUNDDOWN x"] PGROUNDDOWN_page [of x] by simp
    have "if PGROUNDDOWN x \<in> set ?pgs then copied (mem s) root (mem s') d D x else vaddr (mem s') d x = None" using c x by simp
    moreover have "D \<subseteq> set ps" using c by blast
    ultimately show ?thesis unfolding iff [symmetric] copied_def
      by (cases "PGROUNDDOWN x \<in> set ?pgs") (simp_all only: if_True if_False, blast)
  qed
  have "copyuvm root sz s = Done d s'" using 1(1,3) 2(1) by (simp add: copyuvm_def bnd_Done)
  moreover have "vm_ok s' ps' d T" "set ps' \<union> tables T \<subseteq> set ps" using c by blast+
  ultimately show ?thesis using 1(3) out same new by blast
qed



text \<open>A parent with one page, at \<open>PGSIZE\<close>, and six free pages: what \<open>setupkvm\<close> and \<open>mappages\<close> make of eleven.\<close>

definition uvm_start :: vm_st where
  "uvm_start = \<lparr>held = {}, procs = [proc0\<lparr>p_state := RUNNING\<rparr>], curp = Some 0, nextpid = 2, initproc = 0,
     mem = (\<lambda>_. 0), freelist = 0, use_lock = True, kend = 0xFFFF800000150000, pipes = Map.empty,
     bufs = replicate NBUF buf0, idequeue = [], havedisk1 = True, ide_regs = (\<lambda>_. 0), ide_fault = False,
     disk = (\<lambda>d b. replicate BSIZE 0), diskw = [], lru = [],
     log_start = 2, log_size = 30, log_outstanding = 0, log_committing = False, log_dev = 1, lh_n = 0, lh_block = replicate LOGSIZE 0,
     kpml4 = 0, kpdpt = 0, cr3 = 0, cpu_local = 0\<rparr>"

lemma uvm_free: "\<exists>(s :: vm_st) ps. kmem_inv s ps \<and> length ps = 11"
proof -
  let ?p = "0xFFFF800000200000 :: addr" and ?e = "0xFFFF80000020B000 :: addr"
  have inv: "kmem_inv uvm_start []" by (simp add: kmem_inv_def uvm_start_def)
  have "page_ok (kend uvm_start) x" if "x \<in> set (pages_from ?p 11)" for x
    using pages_from_ok [of ?p 11 ?e "kend uvm_start" x] that by (simp add: uvm_start_def)
  moreover have "distinct (pages_from ?p 11)" using pages_from_distinct [of ?p 11 ?e] by simp
  ultimately have "\<exists>t. freerange_from ?p ?e uvm_start = Done () t \<and> kmem_inv t (rev (pages_from ?p 11) @ []) \<and> kend t = kend uvm_start"
    using inv by (intro freerange_from_pages) auto
  then obtain t :: vm_st where "kmem_inv t (rev (pages_from ?p 11))" by auto
  then show ?thesis by (intro exI [of _ t] exI [of _ "rev (pages_from ?p 11)"]) (simp add: pages_from_def)
qed

lemma uvm_parent: "\<exists>(s :: vm_st) ps root T q. vm_ok s ps root T \<and> 6 \<le> length ps \<and> vaddr (mem s) root PGSIZE = Some q \<and>
    page_ok (kend s) q \<and> q \<notin> set ps"
proof -
  obtain s :: vm_st and ps where s: "kmem_inv s ps" "length ps = 11" using uvm_free by blast
  then obtain d p qs where ps: "ps = d # p # qs" "length qs = 9" by (auto simp: length_Suc_conv numeral_eq_Suc)
  obtain s1 :: vm_st where 1: "vm_ok s1 (p # qs) d (root_only d)" "\<forall>x<0x800000000000. vaddr (mem s1) d x = None"
    using setupkvm_law [OF s(1) [unfolded ps(1)]] by blast
  note K = vm_ok_kalloc [OF 1(1)]
  have al: "V2P p mod PGSIZE = 0" using aligned_diff [of p KERNBASE] K(4) by (simp add: V2P_def page_ok_def)
  show ?thesis
  proof (cases rule: map_first [OF K(2), of PGSIZE "V2P p" 6, case_names user aligned pa perm none full more])
    case (more s' ps' T')
    have kend: "kend s' = kend s1" using more(3) by (auto simp: vm_grown_def mem_frame_def dest: arg_cong [of _ _ kend])
    have "vaddr (mem s') d PGSIZE = Some p" using more(6) by (auto simp: maps_def P2V_def V2P_def PGROUNDDOWN_def)
    then show ?thesis using more(2-4) kend K(4,6) ps(2) by (intro exI [of _ s'] exI [of _ ps'] exI [of _ d] exI [of _ T'] exI [of _ p]) (auto simp: vm_grown_def)
  qed (use 1(2) al ps(2) in auto)
qed

theorem copyuvm_copies_witness:
  "\<exists>(s :: vm_st) ps root T q d s' b. vm_ok s ps root T \<and> 6 \<le> length ps \<and> vaddr (mem s) root 0x1000 = Some q \<and>
     copyuvm root 0x2000 s = Done d s' \<and> vaddr (mem s') d 0x1000 = Some b \<and> b \<noteq> q \<and> mem s' b = mem s q \<and> vaddr (mem s') d 0x2000 = None"
proof -
  obtain s :: vm_st and ps root T q where 1: "vm_ok s ps root T" "6 \<le> length ps" "vaddr (mem s) root PGSIZE = Some q" "page_ok (kend s) q" "q \<notin> set ps"
    using uvm_parent by blast
  have pgs: "user_pages PGSIZE (ucast (0x2000 :: uint32)) = [PGSIZE]" by (simp add: user_pages_def pages_from_def)
  have one: "i = PGSIZE" if "i mod PGSIZE = 0 \<and> PGSIZE \<le> i \<and> i < ucast (0x2000 :: uint32)" for i :: addr
    using user_pages_set(1) [of "ucast (0x2000 :: uint32)" i] that pgs by simp
  have pages: "\<forall>i. i mod PGSIZE = 0 \<and> PGSIZE \<le> i \<and> i < ucast (0x2000 :: uint32) \<longrightarrow>
      (\<exists>q. vaddr (mem s) root i = Some q \<and> page_ok (kend s) q \<and> q \<notin> set ps)"
  proof (intro allI impI)
    fix i :: addr assume "i mod PGSIZE = 0 \<and> PGSIZE \<le> i \<and> i < ucast (0x2000 :: uint32)"
    then have "i = PGSIZE" by (rule one)
    then show "\<exists>q. vaddr (mem s) root i = Some q \<and> page_ok (kend s) q \<and> q \<notin> set ps" using 1(3-5) by simp
  qed
  have room: "4 * length (user_pages PGSIZE (ucast (0x2000 :: uint32))) + 2 \<le> length ps" using 1(2) by (simp only: pgs) simp
  obtain d s' where 2: "copyuvm root 0x2000 s = Done d s'"
    "\<forall>x<0x800000000000. if PGSIZE \<le> x \<and> PGROUNDDOWN x < ucast (0x2000 :: uint32)
       then \<exists>a b. vaddr (mem s) root x = Some a \<and> vaddr (mem s') d x = Some b \<and> PGROUNDDOWN b \<in> set ps \<and> mem s' b = mem s a
       else vaddr (mem s') d x = None"
    using copyuvm_copies [OF 1(1) pages room] by (elim exE conjE) (rule that)
  obtain b where b: "vaddr (mem s') d 0x1000 = Some b" "PGROUNDDOWN b \<in> set ps" "mem s' b = mem s q"
    using spec [OF 2(2), of "0x1000"] 1(3) by (auto simp: PGROUNDDOWN_def)
  have "vaddr (mem s') d 0x2000 = None" using spec [OF 2(2), of "0x2000"] by (simp add: PGROUNDDOWN_def)
  moreover have "PGROUNDDOWN q = q" using 1(4) PGROUNDDOWN_mod [of q] by (simp add: page_ok_def)
  moreover from this have "b \<noteq> q" using b(2) 1(5) by auto
  ultimately show ?thesis using 1(1,2,3) 2(1) b(1,3)
    by (intro exI [of _ s] exI [of _ ps] exI [of _ root] exI [of _ T] exI [of _ q] exI [of _ d] exI [of _ s'] exI [of _ b]) simp
qed


end
