(* ===== verification/Inode.thy ===== *)
theory Inode
  imports Vm
begin

text \<open>
  Disk blocks and inodes, src/fs.c up to \<open>stati\<close>: the free bitmap, the inodes on disk and the cache
  of inodes in use. A pointer to an inode is an index into \<open>icache\<close>, null is \<open>None\<close>; a \<open>short\<close> is an
  integer, a \<open>uint\<close> a natural number. \<open>struct dinode\<close> has no padding, so that writing its fields
  is writing its 64 bytes.
\<close>

section \<open>Model\<close>

abbreviation (input) NDIRECT :: nat where "NDIRECT \<equiv> 12"
abbreviation (input) NINDIRECT :: nat where "NINDIRECT \<equiv> 128"
abbreviation (input) MAXFILE :: nat where "MAXFILE \<equiv> 140"
abbreviation (input) IPB :: nat where "IPB \<equiv> 8"
abbreviation (input) BPB :: nat where "BPB \<equiv> 4096"
abbreviation (input) ROOTDEV :: nat where "ROOTDEV \<equiv> 1"
abbreviation (input) ROOTINO :: nat where "ROOTINO \<equiv> 1"
abbreviation (input) T_DIR :: int where "T_DIR \<equiv> 1"
abbreviation (input) T_FILE :: int where "T_FILE \<equiv> 2"
abbreviation (input) T_DEV :: int where "T_DEV \<equiv> 3"

record inode =
  i_dev :: nat
  i_inum :: nat
  i_ref :: int
  i_lock :: sleeplock
  i_valid :: bool
  i_type :: int
  i_major :: int
  i_minor :: int
  i_nlink :: int
  i_size :: nat
  i_addrs :: "nat list"

record dinode =
  d_type :: int
  d_major :: int
  d_minor :: int
  d_nlink :: int
  d_size :: nat
  d_addrs :: "nat list"

record fs_st = vm_st +
  sb :: superblock
  icache :: "inode list"

definition IBLOCK :: "nat \<Rightarrow> superblock \<Rightarrow> nat" where
  "IBLOCK i b = i div IPB + sb_inodestart b"

definition BBLOCK :: "nat \<Rightarrow> superblock \<Rightarrow> nat" where
  "BBLOCK n b = n div BPB + sb_bmapstart b"

definition get_inode :: "nat \<Rightarrow> ('z fs_st_scheme, inode) kop" where
  "get_inode i = gets (\<lambda>s. icache s ! i)"

definition upd_inode :: "nat \<Rightarrow> (inode \<Rightarrow> inode) \<Rightarrow> ('z fs_st_scheme, unit) kop" where
  "upd_inode i f = modify (\<lambda>s. s\<lparr>icache := (icache s)[i := f (icache s ! i)]\<rparr>)"

definition upd_data :: "nat \<Rightarrow> (byte list \<Rightarrow> byte list) \<Rightarrow> ('z fs_st_scheme, unit) kop" where
  "upd_data b f = upd_buf b (\<lambda>x. x\<lparr>b_data := f (b_data x)\<rparr>)"

definition get_data :: "nat \<Rightarrow> ('z fs_st_scheme, byte list) kop" where
  "get_data b = gets (\<lambda>s. b_data (bufs s ! b))"

section \<open>Blocks\<close>

definition bzero :: "nat \<Rightarrow> nat \<Rightarrow> ('z fs_st_scheme, unit) kop" where
  "bzero dev bno = bnd (bread dev bno) (\<lambda>bp. steps
     [upd_data bp (\<lambda>_. replicate BSIZE 0), log_write bp, brelse bp])"

text \<open>The bit of a block in its bitmap block.\<close>

definition bit_at :: "nat \<Rightarrow> byte list \<Rightarrow> bool" where
  "bit_at bi d \<longleftrightarrow> d ! (bi div 8) AND push_bit (bi mod 8) 1 \<noteq> 0"

definition set_bit_at :: "nat \<Rightarrow> byte list \<Rightarrow> byte list" where
  "set_bit_at bi d = d[bi div 8 := d ! (bi div 8) OR push_bit (bi mod 8) 1]"

definition clear_bit_at :: "nat \<Rightarrow> byte list \<Rightarrow> byte list" where
  "clear_bit_at bi d = d[bi div 8 := d ! (bi div 8) AND NOT (push_bit (bi mod 8) 1)]"

text \<open>\<open>balloc_loop\<close> is the outer loop of \<open>balloc\<close> over the values of \<open>b\<close>.\<close>

fun balloc_loop :: "nat \<Rightarrow> nat list \<Rightarrow> ('z fs_st_scheme, nat) kop" where
  "balloc_loop dev [] = panic ''balloc: out of blocks''"
| "balloc_loop dev (b # bs) = bnd (gets sb) (\<lambda>sp. bnd (bread dev (BBLOCK b sp)) (\<lambda>bp. bnd (get_data bp) (\<lambda>d.
     case find (\<lambda>bi. \<not> bit_at bi d) [0..<min BPB (sb_size sp - b)] of
       Some bi \<Rightarrow> thn (steps [upd_data bp (set_bit_at bi), log_write bp, brelse bp, bzero dev (b + bi)]) (ret (b + bi))
     | None \<Rightarrow> thn (brelse bp) (balloc_loop dev bs))))"

definition balloc :: "nat \<Rightarrow> ('z fs_st_scheme, nat) kop" where
  "balloc dev = bnd (gets sb) (\<lambda>sp. balloc_loop dev (map ((*) BPB) [0..<(sb_size sp + BPB - 1) div BPB]))"

definition bfree :: "nat \<Rightarrow> nat \<Rightarrow> ('z fs_st_scheme, unit) kop" where
  "bfree dev b = bnd (readsb dev) (\<lambda>sp. thn (modify (\<lambda>s. s\<lparr>sb := sp\<rparr>))
     (bnd (bread dev (BBLOCK b sp)) (\<lambda>bp. bnd (get_data bp) (\<lambda>d. steps
       [panic_if (\<not> bit_at (b mod BPB) d) ''freeing free block'',
        upd_data bp (clear_bit_at (b mod BPB)), log_write bp, brelse bp]))))"

section \<open>Inodes\<close>

definition get_ilock :: "nat \<Rightarrow> 'z fs_st_scheme \<Rightarrow> sleeplock" where
  "get_ilock i s = i_lock (icache s ! i)"

definition put_ilock :: "nat \<Rightarrow> sleeplock \<Rightarrow> 'z fs_st_scheme \<Rightarrow> 'z fs_st_scheme" where
  "put_ilock i v s = s\<lparr>icache := (icache s)[i := (icache s ! i)\<lparr>i_lock := v\<rparr>]\<rparr>"

interpretation il: sleep_cell "LkInode i" "ChInodeLock i" "get_ilock i" "put_ilock i" for i
  by unfold_locales (simp_all add: get_ilock_def put_ilock_def)

definition iinit :: "nat \<Rightarrow> ('z fs_st_scheme, unit) kop" where
  "iinit dev = thn (for_each [0..<NINODE] (\<lambda>i. initsleeplock (put_ilock i)))
     (bnd (readsb dev) (\<lambda>sp. modify (\<lambda>s. s\<lparr>sb := sp\<rparr>)))"

definition s16_at :: "nat \<Rightarrow> byte list \<Rightarrow> int" where
  "s16_at off d = (let v = le_val (slice off 2 d) in if v < 2 ^ 15 then int v else int v - 2 ^ 16)"

definition le_short :: "int \<Rightarrow> byte list" where
  "le_short v = le_bytes 2 (nat (v mod 2 ^ 16))"

definition dinode_at :: "nat \<Rightarrow> byte list \<Rightarrow> dinode" where
  "dinode_at k d = \<lparr>d_type = s16_at (64 * k) d, d_major = s16_at (64 * k + 2) d, d_minor = s16_at (64 * k + 4) d,
     d_nlink = s16_at (64 * k + 6) d, d_size = u32_at (64 * k + 8) d,
     d_addrs = map (\<lambda>i. u32_at (64 * k + 12 + 4 * i) d) [0..<NDIRECT + 1]\<rparr>"

definition dinode_bytes :: "dinode \<Rightarrow> byte list" where
  "dinode_bytes x = le_short (d_type x) @ le_short (d_major x) @ le_short (d_minor x) @ le_short (d_nlink x) @
     le_bytes 4 (d_size x) @ concat (map (le_bytes 4) (d_addrs x))"

definition put_dinode :: "nat \<Rightarrow> dinode \<Rightarrow> byte list \<Rightarrow> byte list" where
  "put_dinode k x d = put_at (64 * k) (dinode_bytes x) d"

definition to_dinode :: "inode \<Rightarrow> dinode" where
  "to_dinode ip = \<lparr>d_type = i_type ip, d_major = i_major ip, d_minor = i_minor ip, d_nlink = i_nlink ip,
     d_size = i_size ip, d_addrs = i_addrs ip\<rparr>"

definition from_dinode :: "dinode \<Rightarrow> inode \<Rightarrow> inode" where
  "from_dinode x ip = ip\<lparr>i_type := d_type x, i_major := d_major x, i_minor := d_minor x, i_nlink := d_nlink x,
     i_size := d_size x, i_addrs := d_addrs x\<rparr>"

definition iupdate :: "nat \<Rightarrow> ('z fs_st_scheme, unit) kop" where
  "iupdate i = bnd (get_inode i) (\<lambda>ip. bnd (gets sb) (\<lambda>sp. bnd (bread (i_dev ip) (IBLOCK (i_inum ip) sp)) (\<lambda>bp. steps
     [upd_data bp (put_dinode (i_inum ip mod IPB) (to_dinode ip)), log_write bp, brelse bp])))"

definition iget :: "nat \<Rightarrow> nat \<Rightarrow> ('z fs_st_scheme, nat) kop" where
  "iget dev inum = thn (acquire LkIcache) (bnd (gets icache) (\<lambda>ic.
     case find (\<lambda>i. i_ref (ic ! i) > 0 \<and> i_dev (ic ! i) = dev \<and> i_inum (ic ! i) = inum) [0..<NINODE] of
       Some i \<Rightarrow> thn (upd_inode i (\<lambda>x. x\<lparr>i_ref := i_ref x + 1\<rparr>)) (thn (release LkIcache) (ret i))
     | None \<Rightarrow> (case find (\<lambda>i. i_ref (ic ! i) = 0) [0..<NINODE] of
         None \<Rightarrow> panic ''iget: no inodes''
       | Some i \<Rightarrow> thn (upd_inode i (\<lambda>x. x\<lparr>i_dev := dev, i_inum := inum, i_ref := 1, i_valid := False\<rparr>))
           (thn (release LkIcache) (ret i)))))"

fun ialloc_loop :: "nat \<Rightarrow> int \<Rightarrow> nat list \<Rightarrow> ('z fs_st_scheme, nat) kop" where
  "ialloc_loop dev ty [] = panic ''ialloc: no inodes''"
| "ialloc_loop dev ty (inum # is) = bnd (gets sb) (\<lambda>sp. bnd (bread dev (IBLOCK inum sp)) (\<lambda>bp. bnd (get_data bp) (\<lambda>d.
     if d_type (dinode_at (inum mod IPB) d) = 0
     then thn (steps [upd_data bp (put_dinode (inum mod IPB) \<lparr>d_type = ty, d_major = 0, d_minor = 0, d_nlink = 0,
                        d_size = 0, d_addrs = replicate (NDIRECT + 1) 0\<rparr>), log_write bp, brelse bp]) (iget dev inum)
     else thn (brelse bp) (ialloc_loop dev ty is))))"

definition ialloc :: "nat \<Rightarrow> int \<Rightarrow> ('z fs_st_scheme, nat) kop" where
  "ialloc dev ty = bnd (gets sb) (\<lambda>sp. ialloc_loop dev ty [1..<sb_ninodes sp])"

definition idup :: "nat \<Rightarrow> ('z fs_st_scheme, nat) kop" where
  "idup i = thn (steps [acquire LkIcache, upd_inode i (\<lambda>x. x\<lparr>i_ref := i_ref x + 1\<rparr>), release LkIcache]) (ret i)"

definition ilock :: "nat option \<Rightarrow> ('z fs_st_scheme, unit) kop" where
  "ilock p = (case p of None \<Rightarrow> panic ''ilock'' | Some i \<Rightarrow> bnd (get_inode i) (\<lambda>ip.
     thn (panic_if (i_ref ip < 1) ''ilock'')
     (thn (acquiresleep (LkInode i) (ChInodeLock i) (get_ilock i) (put_ilock i))
     (bnd (get_inode i) (\<lambda>ip. only_if (\<not> i_valid ip)
       (bnd (gets sb) (\<lambda>sp. bnd (bread (i_dev ip) (IBLOCK (i_inum ip) sp)) (\<lambda>bp. bnd (get_data bp) (\<lambda>d.
         let x = dinode_at (i_inum ip mod IPB) d in steps
         [upd_inode i (from_dinode x), brelse bp, upd_inode i (\<lambda>y. y\<lparr>i_valid := True\<rparr>),
          panic_if (d_type x = 0) ''ilock: no type''])))))))))"

definition iunlock :: "nat option \<Rightarrow> ('z fs_st_scheme, unit) kop" where
  "iunlock p = (case p of None \<Rightarrow> panic ''iunlock'' | Some i \<Rightarrow> bnd (holdingsleep (LkInode i) (get_ilock i)) (\<lambda>h.
     bnd (get_inode i) (\<lambda>ip. thn (panic_if (\<not> h \<or> i_ref ip < 1) ''iunlock'')
     (releasesleep (LkInode i) (ChInodeLock i) (put_ilock i)))))"

section \<open>The content of an inode\<close>

definition bmap :: "nat \<Rightarrow> nat \<Rightarrow> ('z fs_st_scheme, nat) kop" where
  "bmap i bn = bnd (get_inode i) (\<lambda>ip.
     if bn < NDIRECT then
       (if i_addrs ip ! bn = 0
        then bnd (balloc (i_dev ip)) (\<lambda>a. thn (upd_inode i (\<lambda>x. x\<lparr>i_addrs := (i_addrs x)[bn := a]\<rparr>)) (ret a))
        else ret (i_addrs ip ! bn))
     else if bn - NDIRECT < NINDIRECT then
       bnd (if i_addrs ip ! NDIRECT = 0
            then bnd (balloc (i_dev ip)) (\<lambda>a. thn (upd_inode i (\<lambda>x. x\<lparr>i_addrs := (i_addrs x)[NDIRECT := a]\<rparr>)) (ret a))
            else ret (i_addrs ip ! NDIRECT)) (\<lambda>ind.
       bnd (bread (i_dev ip) ind) (\<lambda>bp. bnd (get_data bp) (\<lambda>d.
       bnd (if u32_at (4 * (bn - NDIRECT)) d = 0
            then bnd (balloc (i_dev ip)) (\<lambda>a.
              thn (upd_data bp (put_at (4 * (bn - NDIRECT)) (le_bytes 4 a))) (thn (log_write bp) (ret a)))
            else ret (u32_at (4 * (bn - NDIRECT)) d)) (\<lambda>a. thn (brelse bp) (ret a)))))
     else panic ''bmap: out of range'')"

definition itrunc :: "nat \<Rightarrow> ('z fs_st_scheme, unit) kop" where
  "itrunc i = steps
     [for_each [0..<NDIRECT] (\<lambda>k. bnd (get_inode i) (\<lambda>ip. only_if (i_addrs ip ! k \<noteq> 0) (steps
        [bfree (i_dev ip) (i_addrs ip ! k), upd_inode i (\<lambda>x. x\<lparr>i_addrs := (i_addrs x)[k := 0]\<rparr>)]))),
      bnd (get_inode i) (\<lambda>ip. only_if (i_addrs ip ! NDIRECT \<noteq> 0)
        (bnd (bread (i_dev ip) (i_addrs ip ! NDIRECT)) (\<lambda>bp. steps
          [for_each [0..<NINDIRECT] (\<lambda>j. bnd (get_data bp) (\<lambda>d.
             only_if (u32_at (4 * j) d \<noteq> 0) (bfree (i_dev ip) (u32_at (4 * j) d)))),
           brelse bp, bfree (i_dev ip) (i_addrs ip ! NDIRECT),
           upd_inode i (\<lambda>x. x\<lparr>i_addrs := (i_addrs x)[NDIRECT := 0]\<rparr>)]))),
      upd_inode i (\<lambda>x. x\<lparr>i_size := 0\<rparr>),
      iupdate i]"

definition iput :: "nat \<Rightarrow> ('z fs_st_scheme, unit) kop" where
  "iput i = thn (acquire LkIcache) (bnd (get_inode i) (\<lambda>ip. steps
     [only_if (i_ref ip = 1 \<and> i_valid ip \<and> i_nlink ip = 0) (steps
        [release LkIcache, itrunc i, upd_inode i (\<lambda>x. x\<lparr>i_type := 0\<rparr>), iupdate i,
         acquire LkIcache, upd_inode i (\<lambda>x. x\<lparr>i_valid := False\<rparr>)]),
      upd_inode i (\<lambda>x. x\<lparr>i_ref := i_ref x - 1\<rparr>), release LkIcache]))"

definition iunlockput :: "nat \<Rightarrow> ('z fs_st_scheme, unit) kop" where
  "iunlockput i = thn (iunlock (Some i)) (iput i)"

record stat =
  st_type :: int
  st_dev :: nat
  st_ino :: nat
  st_nlink :: int
  st_size :: nat

definition stati :: "nat \<Rightarrow> ('z fs_st_scheme, stat) kop" where
  "stati i = bnd (get_inode i) (\<lambda>ip. ret \<lparr>st_type = i_type ip, st_dev = i_dev ip, st_ino = i_inum ip,
     st_nlink = i_nlink ip, st_size = i_size ip\<rparr>)"

end
