(* ===== verification/Blocks.thy ===== *)
theory Blocks
  imports Inode
begin

text \<open>
  The blocks of the file system inside a transaction. What the code above the buffer cache and the log
  relies on is stated over \<open>blk\<close>, the contents of the blocks as the cache shows them: reading a block returns
  them, and a change followed by \<open>log_write\<close> and \<open>brelse\<close> changes them, as long as the transaction has room
  in the log (\<open>txn\<close>). On top of this are the laws of \<open>bzero\<close>, \<open>balloc\<close> and \<open>bmap\<close>: a new block comes
  from the free ones and reads as zeros, and a file keeps its blocks, which no other file shares.
\<close>

section \<open>The state of a transaction\<close>

text \<open>The contents of the blocks of the file system's device, as the cache shows them.\<close>

definition blk :: "'z bio_st_scheme \<Rightarrow> nat \<Rightarrow> byte list" where
  "blk s b = kdata s (1, b)"

text \<open>Everything but the caches, the log header and the state of sleeping processes is as before.\<close>

definition tx_frame :: "'z log_st_scheme \<Rightarrow> 'z log_st_scheme \<Rightarrow> bool" where
  "tx_frame s t \<longleftrightarrow> woken (procs s) (procs t) \<and>
     t\<lparr>procs := procs s, ide_regs := ide_regs s, bufs := bufs s, lru := lru s, lh_n := lh_n s, lh_block := lh_block s\<rparr> = s"

lemma tx_frame_refl [simp]: "tx_frame s s"
  by (simp add: tx_frame_def)

lemma tx_frame_trans:
  assumes "tx_frame s t" "tx_frame t u"
  shows "tx_frame s u"
proof -
  have "u\<lparr>procs := procs s, ide_regs := ide_regs s, bufs := bufs s, lru := lru s, lh_n := lh_n s, lh_block := lh_block s\<rparr>
     = (u\<lparr>procs := procs t, ide_regs := ide_regs t, bufs := bufs t, lru := lru t, lh_n := lh_n t, lh_block := lh_block t\<rparr>)
       \<lparr>procs := procs s, ide_regs := ide_regs s, bufs := bufs s, lru := lru s, lh_n := lh_n s, lh_block := lh_block s\<rparr>"
    by simp
  also have "\<dots> = s" using assms by (simp add: tx_frame_def)
  finally show ?thesis using assms woken_trans by (auto simp: tx_frame_def)
qed

lemma tx_frame_bio:
  fixes s t :: "'z log_st_scheme"
  assumes "bio_frame s t" "disk t = disk s" "diskw t = diskw s"
  shows "tx_frame s t"
proof -
  have eq: "t\<lparr>procs := procs s, ide_regs := ide_regs s, bufs := bufs s, disk := disk s, diskw := diskw s, lru := lru s\<rparr> = s"
    using assms(1) by (simp add: bio_frame_def)
  have "t\<lparr>procs := procs s, ide_regs := ide_regs s, bufs := bufs s, lru := lru s, lh_n := lh_n s, lh_block := lh_block s\<rparr>
     = (t\<lparr>procs := procs s, ide_regs := ide_regs s, bufs := bufs s, disk := disk s, diskw := diskw s, lru := lru s\<rparr>)
       \<lparr>disk := disk t, diskw := diskw t, lh_n := lh_n s, lh_block := lh_block s\<rparr>" by simp
  also have "\<dots> = s" unfolding eq using assms(2,3) by simp
  finally show ?thesis using assms(1) by (simp add: tx_frame_def bio_frame_def)
qed

lemma tx_frame_fields:
  fixes s t :: "'z log_st_scheme"
  assumes "tx_frame s t"
  shows "held t = held s" "curp t = curp s" "mem t = mem s" "disk t = disk s" "log_outstanding t = log_outstanding s"
    "log_size t = log_size s" "log_st.more t = log_st.more s"
proof -
  have eq: "t\<lparr>procs := procs s, ide_regs := ide_regs s, bufs := bufs s, lru := lru s, lh_n := lh_n s, lh_block := lh_block s\<rparr> = s"
    using assms by (simp add: tx_frame_def)
  show "held t = held s" using arg_cong [OF eq, of held] by simp
  show "curp t = curp s" using arg_cong [OF eq, of curp] by simp
  show "mem t = mem s" using arg_cong [OF eq, of mem] by simp
  show "disk t = disk s" using arg_cong [OF eq, of disk] by simp
  show "log_outstanding t = log_outstanding s" using arg_cong [OF eq, of log_outstanding] by simp
  show "log_size t = log_size s" using arg_cong [OF eq, of log_size] by simp
  show "log_st.more t = log_st.more s" using arg_cong [OF eq, of log_st.more] by simp
qed

lemma tx_frame_fs:
  fixes s t :: "'z fs_st_scheme"
  assumes "tx_frame s t"
  shows "sb t = sb s" "icache t = icache s"
proof -
  have eq: "t\<lparr>procs := procs s, ide_regs := ide_regs s, bufs := bufs s, lru := lru s, lh_n := lh_n s, lh_block := lh_block s\<rparr> = s"
    using assms by (simp add: tx_frame_def)
  show "sb t = sb s" using arg_cong [OF eq, of sb] by simp
  show "icache t = icache s" using arg_cong [OF eq, of icache] by simp
qed

text \<open>
  A running transaction: the process holds the buffers \<open>H\<close>; only logged blocks are dirty; and even when the
  blocks of \<open>X\<close> and \<open>n\<close> others are logged, log and cache have room.
\<close>

definition txn :: "nat \<Rightarrow> nat set \<Rightarrow> nat set \<Rightarrow> nat \<Rightarrow> 'z log_st_scheme \<Rightarrow> bool" where
  "txn c H X n s \<longleftrightarrow> bio_inv H s \<and> io_ready c s \<and> 1 \<le> log_outstanding s \<and> length (lh_block s) = LOGSIZE \<and>
     lh_n s = int (length (logged s)) \<and> distinct (logged s) \<and> dirty s \<subseteq> Pair 1 ` set (logged s) \<and> finite X \<and>
     card (set (logged s) \<union> X) + n + 2 \<le> min NBUF (log_size s)"

text \<open>A cache that has buffers to read through, also outside of transactions.\<close>

definition cache_ok :: "nat \<Rightarrow> nat set \<Rightarrow> 'z bio_st_scheme \<Rightarrow> bool" where
  "cache_ok c H s \<longleftrightarrow> bio_inv H s \<and> io_ready c s \<and> card (dirty s) + 2 \<le> NBUF"

lemma txn_cache: "txn c H X n s \<Longrightarrow> cache_ok c H s"
proof -
  assume t: "txn c H X n s"
  have "card (dirty s) \<le> card (Pair 1 ` set (logged s) :: (nat \<times> nat) set)" using t by (intro card_mono) (auto simp: txn_def)
  also have "\<dots> \<le> card (set (logged s))" by (rule card_image_le) simp
  also have "\<dots> \<le> card (set (logged s) \<union> X)" using t by (intro card_mono) (auto simp: txn_def)
  finally show ?thesis using t by (simp add: txn_def cache_ok_def)
qed

text \<open>What the operations that change no block have in common.\<close>

definition same_view :: "'z log_st_scheme \<Rightarrow> 'z log_st_scheme \<Rightarrow> bool" where
  "same_view s t \<longleftrightarrow> tx_frame s t \<and> blk t = blk s \<and> dirty t = dirty s \<and> lh_n t = lh_n s \<and> lh_block t = lh_block s"

lemma same_view_refl [simp]: "same_view s s"
  by (simp add: same_view_def)

lemma same_view_trans: "same_view s t \<Longrightarrow> same_view t u \<Longrightarrow> same_view s u"
  using tx_frame_trans unfolding same_view_def by metis

lemma same_view_txn:
  assumes "txn c H X n s" "same_view s t" "cache_ok c H' t"
  shows "txn c H' X n t"
  using assms tx_frame_fields(5,6) [of s t] by (auto simp: txn_def same_view_def cache_ok_def logged_def)

definition clean_buf :: "nat \<Rightarrow> 'z bio_st_scheme \<Rightarrow> bool" where
  "clean_buf i s \<longleftrightarrow> b_dirty (bufs s ! i) \<or> b_data (bufs s ! i) = disk s (fst (key s i)) (snd (key s i))"

lemma bread_view:
  fixes s :: "'z log_st_scheme"
  assumes ok: "cache_ok c H s" and H: "card H \<le> 1" and b: "b < FSSIZE" and new: "\<And>i. i \<in> H \<Longrightarrow> key s i \<noteq> (1, b)"
  shows "\<exists>i t. bread 1 b s = Done i t \<and> cache_ok c (insert i H) t \<and> same_view s t \<and> i \<notin> H \<and> key t i = (1, b) \<and>
    b_data (bufs t ! i) = blk s b \<and> clean_buf i t \<and> (\<forall>j\<in>H. bufs t ! j = bufs s ! j)"
proof -
  have inv: "bio_inv H s" "io_ready c s" "card (dirty s) + 2 \<le> NBUF" using ok by (auto simp: cache_ok_def)
  have "avail s (1, b)" using avail_room [OF inv(1)] inv(3) H by simp
  moreover have "blk_ok (1, b)" using b by (simp add: blk_ok_def)
  ultimately obtain i t where t: "bread 1 b s = Done i t" "bio_step c (insert i H) s t" "i < NBUF" "i \<notin> H" "key t i = (1, b)"
     "b_data (bufs t ! i) = kdata s (1, b)" "b_dirty (bufs t ! i) = ((1, b) \<in> dirty s)" "\<forall>j\<in>H. bufs t ! j = bufs s ! j"
     "\<forall>k. fst k \<noteq> 0 \<longrightarrow> kdata t k = kdata s k" "dirty t = dirty s" "disk t = disk s" "diskw t = diskw s"
    using bread_law [OF inv(1,2) _ _ new] by blast
  have fr: "bio_frame s t" using t(2) by (simp add: bio_step_def)
  have "same_view s t"
    using tx_frame_bio [OF fr t(11,12)] t(9,10) log_frame(6,7) [OF fr] by (auto simp: same_view_def blk_def)
  moreover have "clean_buf i t"
    using t(5-7,11) kdata_clean [OF inv(1), of "(1, b)"] new by (auto simp: clean_buf_def)
  ultimately show ?thesis using t inv(3) by (intro exI [of _ i] exI [of _ t]) (simp add: cache_ok_def bio_step_def blk_def)
qed

lemma brelse_view:
  fixes s :: "'z log_st_scheme"
  assumes ok: "cache_ok c H s" and i: "i \<in> H" and clean: "clean_buf i s"
  shows "\<exists>t. brelse i s = Done () t \<and> cache_ok c (H - {i}) t \<and> same_view s t \<and> (\<forall>j\<in>H - {i}. bufs t ! j = bufs s ! j)"
proof -
  have inv: "bio_inv H s" "io_ready c s" "card (dirty s) + 2 \<le> NBUF" using ok by (auto simp: cache_ok_def)
  obtain t where t: "brelse i s = Done () t" "bio_step c (H - {i}) s t" "\<forall>j\<in>H - {i}. bufs t ! j = bufs s ! j"
     "\<forall>k. fst k \<noteq> 0 \<longrightarrow> kdata t k = kdata s k" "dirty t = dirty s" "disk t = disk s" "diskw t = diskw s"
    using brelse_law [OF inv(1,2) i] clean unfolding clean_buf_def by blast
  have fr: "bio_frame s t" using t(2) by (simp add: bio_step_def)
  have "same_view s t"
    using tx_frame_bio [OF fr t(6,7)] t(4,5) log_frame(6,7) [OF fr] by (auto simp: same_view_def blk_def)
  then show ?thesis using t inv(3) by (intro exI [of _ t]) (simp add: cache_ok_def bio_step_def)
qed

lemma log_put:
  fixes s :: "'z fs_st_scheme"
  assumes tx: "txn c H X m s" and i: "i \<in> H" and k: "key s i = (1, b)"
    and cost: "n + (if b \<in> set (logged s) \<union> X then 0 else 1) \<le> m"
  shows "\<exists>t. thn (upd_data i f) (log_write i) s = Done () t \<and> txn c H X n t \<and> tx_frame s t \<and>
    blk t = (blk s)(b := f (b_data (bufs s ! i))) \<and> set (logged t) = insert b (set (logged s)) \<and> clean_buf i t \<and> key t i = (1, b) \<and>
    (\<forall>j\<in>H - {i}. bufs t ! j = bufs s ! j)"
proof -
  have inv: "bio_inv H s" "io_ready c s" and l: "length (lh_block s) = LOGSIZE" "1 \<le> log_outstanding s" "lh_n s = int (length (logged s))"
    "distinct (logged s)" "dirty s \<subseteq> Pair 1 ` set (logged s)" "finite X" "card (set (logged s) \<union> X) + m + 2 \<le> min NBUF (log_size s)"
    using tx by (auto simp: txn_def)
  note sh = bio_inv_shape [OF inv(1)]
  have i3: "i < NBUF" using sh i by auto
  let ?B = "(bufs s ! i)\<lparr>b_data := f (b_data (bufs s ! i)), b_dirty := True\<rparr>"
  define s1 where "s1 = s\<lparr>bufs := (bufs s)[i := (bufs s ! i)\<lparr>b_data := f (b_data (bufs s ! i))\<rparr>]\<rparr>"
  have card: "length (logged s) \<le> card (set (logged s) \<union> X)"
    using l(4,6) card_mono [of "set (logged s) \<union> X" "set (logged s)"] by (simp add: distinct_card)
  have s1: "logged s1 = logged s" "b_blockno (bufs s1 ! i) = b" using k i3 sh by (simp_all add: s1_def logged_def key_def)
  have "LkLog \<notin> held s1" "0 \<le> lh_n s1" "lh_n s1 < int LOGSIZE" "lh_n s1 < int (log_size s1) - 1" "1 \<le> log_outstanding s1" "length (lh_block s1) = LOGSIZE"
    using inv(2) l card by (auto simp: s1_def io_ready_def running_def)
  from log_write_run [OF this, of i] obtain t where t: "log_write i s1 = Done () t" "length (lh_block t) = LOGSIZE"
    "logged t = (if b \<in> set (logged s) then logged s else logged s @ [b])" "lh_n t = int (length (logged t))"
    "bufs t = (bufs s1)[i := (bufs s1 ! i)\<lparr>b_dirty := True\<rparr>]" "t\<lparr>bufs := bufs s1, lh_n := lh_n s1, lh_block := lh_block s1\<rparr> = s1"
    unfolding s1 by blast
  have run: "thn (upd_data i f) (log_write i) s = Done () t" using t(1) by (simp add: upd_data_def kop_simps s1_def)
  have bt: "bufs t = (bufs s)[i := ?B]" using t(5) i3 sh by (simp add: s1_def)
  have eq: "t\<lparr>bufs := bufs s, lh_n := lh_n s, lh_block := lh_block s\<rparr> = s"
  proof -
    have "t\<lparr>bufs := bufs s, lh_n := lh_n s, lh_block := lh_block s\<rparr> = (t\<lparr>bufs := bufs s1, lh_n := lh_n s1, lh_block := lh_block s1\<rparr>)\<lparr>bufs := bufs s\<rparr>"
      by (simp add: s1_def)
    also have "\<dots> = s" unfolding t(6) by (simp add: s1_def)
    finally show ?thesis .
  qed
  have same: "procs t = procs s" "disk t = disk s" "lru t = lru s"
    using arg_cong [OF eq, of procs] arg_cong [OF eq, of disk] arg_cong [OF eq, of lru] by simp_all
  have fr: "tx_frame s t"
  proof -
    have "t\<lparr>procs := procs s, ide_regs := ide_regs s, bufs := bufs s, lru := lru s, lh_n := lh_n s, lh_block := lh_block s\<rparr>
      = (t\<lparr>bufs := bufs s, lh_n := lh_n s, lh_block := lh_block s\<rparr>)\<lparr>procs := procs s, ide_regs := ide_regs s, lru := lru s\<rparr>" by simp
    also have "\<dots> = s" unfolding eq by simp
    finally show ?thesis using same by (simp add: tx_frame_def)
  qed
  have dev: "b_dev (bufs s ! i) \<noteq> 0" using k by (simp add: key_def)
  have bk: "bkey ?B = key s i" by (simp add: bkey_def key_def)
  have S: "bio_set H H i ?B s t"
    unfolding bio_set_def bk using inv(1) i i3 sh dev bt same other_keys [OF inv(1) i3 dev] bio_invD(1-3) [OF inv(1) i3] by simp
  have "blk t = (blk s)(b := f (b_data (bufs s ! i)))"
    using bio_set_kdata [OF S] bk k by (auto simp: blk_def fun_eq_iff)
  moreover have "dirty t \<subseteq> Pair 1 ` set (logged t)" using bio_set_dirty [OF S] bk k l(5) t(3) by auto
  moreover have "card (set (logged t) \<union> X) + n + 2 \<le> min NBUF (log_size t)"
  proof -
    have "set (logged t) \<union> X = insert b (set (logged s) \<union> X)" using t(3) by auto
    then have "card (set (logged t) \<union> X) + n \<le> card (set (logged s) \<union> X) + m" using cost l(6) by (auto simp: card_insert_if insert_absorb)
    then show ?thesis using l(7) tx_frame_fields(6) [OF fr] by simp
  qed
  moreover have "io_ready c t"
    using inv(2) arg_cong [OF eq, of held] arg_cong [OF eq, of curp] arg_cong [OF eq, of idequeue] arg_cong [OF eq, of ide_fault]
      arg_cong [OF eq, of havedisk1] same by (simp add: io_ready_def running_def)
  moreover have "key t i = (1, b)" "b_dirty (bufs t ! i)" "\<forall>j\<in>H - {i}. bufs t ! j = bufs s ! j"
    using bt i3 sh k by (auto simp: key_def)
  ultimately show ?thesis
    using run fr t(2-4) l tx_frame_fields(5) [OF fr] bio_set_inv [OF S]
    by (intro exI [of _ t]) (auto simp: txn_def clean_buf_def)
qed

lemma clean_buf_keep: "clean_buf i s \<Longrightarrow> bufs t ! i = bufs s ! i \<Longrightarrow> disk t = disk s \<Longrightarrow> clean_buf i t"
  by (simp add: clean_buf_def key_def)

lemma txn_less: "txn c H X m s \<Longrightarrow> n \<le> m \<Longrightarrow> txn c H X n s"
  by (auto simp: txn_def)

section \<open>One block at a time\<close>

lemma thn_seq: "thn (thn m k) h = thn m (thn k h)"
  by (rule ext) (rule thn_assoc)

lemma same_view_frame: "same_view s t \<Longrightarrow> tx_frame s t"
  by (simp add: same_view_def)

lemma steps_last: "thn m (ret ()) = m"
  by (rule ext) (simp add: thn_def bnd_def ret_def split: outcome.splits)

text \<open>Reading a block and releasing its buffer.\<close>

lemma read_block:
  fixes s :: "'z fs_st_scheme"
  assumes ok: "cache_ok c H s" and H: "card H \<le> 1" and b: "b < FSSIZE" and new: "\<And>i. i \<in> H \<Longrightarrow> key s i \<noteq> (1, b)"
  shows "\<exists>t. bnd (bread 1 b) (\<lambda>bp. bnd (get_data bp) (\<lambda>d. thn (brelse bp) (k d))) s = k (blk s b) t \<and>
    cache_ok c H t \<and> same_view s t \<and> (\<forall>j\<in>H. bufs t ! j = bufs s ! j)"
proof -
  obtain i s1 where 1: "bread 1 b s = Done i s1" "cache_ok c (insert i H) s1" "same_view s s1" "i \<notin> H"
    "b_data (bufs s1 ! i) = blk s b" "clean_buf i s1" "\<forall>j\<in>H. bufs s1 ! j = bufs s ! j"
    using bread_view [OF assms] by blast
  obtain t where 2: "brelse i s1 = Done () t" "cache_ok c (insert i H - {i}) t" "same_view s1 t" "\<forall>j\<in>insert i H - {i}. bufs t ! j = bufs s1 ! j"
    using brelse_view [OF 1(2) _ 1(6)] by blast
  have "insert i H - {i} = H" using 1(4) by blast
  with 1 2 show ?thesis using same_view_trans [OF 1(3) 2(3)]
    by (intro exI [of _ t]) (simp add: bnd_Done thn_Done get_data_def kop_simps)
qed

text \<open>Changing a block through the log.\<close>

lemma put_block_log:
  fixes s :: "'z fs_st_scheme"
  assumes tx: "txn c H X m s" and i: "i \<in> H" and k: "key s i = (1, b)"
    and cost: "n + (if b \<in> set (logged s) \<union> X then 0 else 1) \<le> m"
  shows "\<exists>t. steps [upd_data i f, log_write i, brelse i] s = Done () t \<and> txn c (H - {i}) X n t \<and> tx_frame s t \<and>
    blk t = (blk s)(b := f (b_data (bufs s ! i))) \<and> set (logged t) = insert b (set (logged s)) \<and>
    (\<forall>j\<in>H - {i}. bufs t ! j = bufs s ! j)"
proof -
  obtain s1 where 1: "thn (upd_data i f) (log_write i) s = Done () s1" "txn c H X n s1" "tx_frame s s1"
    "blk s1 = (blk s)(b := f (b_data (bufs s ! i)))" "set (logged s1) = insert b (set (logged s))" "clean_buf i s1"
    "\<forall>j\<in>H - {i}. bufs s1 ! j = bufs s ! j" using log_put [OF assms] by blast
  obtain t where 2: "brelse i s1 = Done () t" "cache_ok c (H - {i}) t" "same_view s1 t" "\<forall>j\<in>H - {i}. bufs t ! j = bufs s1 ! j"
    using brelse_view [OF txn_cache [OF 1(2)] i 1(6)] by blast
  have "steps [upd_data i f, log_write i, brelse i] s = thn (thn (upd_data i f) (log_write i)) (brelse i) s"
    by (simp add: steps_last thn_seq)
  then have "steps [upd_data i f, log_write i, brelse i] s = Done () t" using 1(1) 2(1) by (simp add: thn_Done)
  moreover have "tx_frame s t" using 1(3) 2(3) tx_frame_trans same_view_frame by blast
  moreover have "logged t = logged s1" using 2(3) by (simp add: same_view_def logged_def)
  ultimately show ?thesis using 1(4,5,7) 2(3,4) same_view_txn [OF 1(2) 2(3,2)]
    by (intro exI [of _ t]) (simp add: same_view_def)
qed

lemma put_block:
  fixes s :: "'z fs_st_scheme"
  assumes tx: "txn c H X m s" and H: "card H \<le> 1" and b: "b < FSSIZE" and new: "\<And>i. i \<in> H \<Longrightarrow> key s i \<noteq> (1, b)"
    and cost: "n + (if b \<in> set (logged s) \<union> X then 0 else 1) \<le> m"
  shows "\<exists>t. bnd (bread 1 b) (\<lambda>bp. steps [upd_data bp f, log_write bp, brelse bp]) s = Done () t \<and>
    txn c H X n t \<and> tx_frame s t \<and> blk t = (blk s)(b := f (blk s b)) \<and> set (logged t) = insert b (set (logged s)) \<and>
    (\<forall>j\<in>H. bufs t ! j = bufs s ! j)"
proof -
  obtain i s1 where 1: "bread 1 b s = Done i s1" "cache_ok c (insert i H) s1" "same_view s s1" "i \<notin> H" "key s1 i = (1, b)"
    "b_data (bufs s1 ! i) = blk s b" "clean_buf i s1" "\<forall>j\<in>H. bufs s1 ! j = bufs s ! j"
    using bread_view [OF txn_cache [OF tx] H b new] by blast
  have lg: "logged s1 = logged s" using 1(3) by (simp add: same_view_def logged_def)
  obtain t where 2: "steps [upd_data i f, log_write i, brelse i] s1 = Done () t" "txn c (insert i H - {i}) X n t" "tx_frame s1 t"
    "blk t = (blk s1)(b := f (b_data (bufs s1 ! i)))" "set (logged t) = insert b (set (logged s1))"
    "\<forall>j\<in>insert i H - {i}. bufs t ! j = bufs s1 ! j"
    using put_block_log [OF same_view_txn [OF tx 1(3,2)] _ 1(5), where n = n and f = f] cost unfolding lg by blast
  have "insert i H - {i} = H" using 1(4) by blast
  moreover have "tx_frame s t" using 1(3) 2(3) tx_frame_trans same_view_frame by blast
  ultimately show ?thesis using 1 2 lg
    by (intro exI [of _ t]) (simp add: bnd_Done same_view_def del: steps.simps)
qed

lemma bzero_law:
  fixes s :: "'z fs_st_scheme"
  assumes tx: "txn c H X m s" and H: "card H \<le> 1" and b: "b < FSSIZE" and new: "\<And>i. i \<in> H \<Longrightarrow> key s i \<noteq> (1, b)"
    and cost: "n + (if b \<in> set (logged s) \<union> X then 0 else 1) \<le> m"
  shows "\<exists>t. bzero 1 b s = Done () t \<and> txn c H X n t \<and> tx_frame s t \<and> blk t = (blk s)(b := replicate BSIZE 0) \<and>
    set (logged t) = insert b (set (logged s)) \<and> (\<forall>j\<in>H. bufs t ! j = bufs s ! j)"
  unfolding bzero_def by (rule put_block [OF assms])

section \<open>The bitmap\<close>

lemma set_bit_length [simp]: "length (set_bit_at bi d) = length d"
  by (simp add: set_bit_at_def)

lemma bit_at_bit: "bit_at bi d \<longleftrightarrow> bit (d ! (bi div 8)) (bi mod 8)"
  by (simp add: bit_at_def and_exp_eq_0_iff_not_bit)

lemma bit_at_set:
  assumes "a < 8 * length d"
  shows "bit_at x (set_bit_at a d) \<longleftrightarrow> bit_at x d \<or> x = a"
proof -
  have a: "a div 8 < length d" using assms by (simp add: less_mult_imp_div_less mult.commute)
  have "bit (set_bit_at a d ! (x div 8)) (x mod 8) \<longleftrightarrow> bit (d ! (x div 8)) (x mod 8) \<or> x div 8 = a div 8 \<and> x mod 8 = a mod 8"
    using a by (cases "x div 8 = a div 8") (auto simp: set_bit_at_def bit_simps)
  moreover have "x div 8 = a div 8 \<and> x mod 8 = a mod 8 \<longleftrightarrow> x = a" by (metis div_mult_mod_eq)
  ultimately show ?thesis by (simp add: bit_at_bit)
qed

definition bmap_blk :: "'z fs_st_scheme \<Rightarrow> nat" where
  "bmap_blk s = sb_bmapstart (sb s)"

definition used :: "'z fs_st_scheme \<Rightarrow> nat \<Rightarrow> bool" where
  "used s b \<longleftrightarrow> bit_at b (blk s (bmap_blk s))"

text \<open>
  The layout that mkfs makes: the bitmap is one block, the last before the data blocks, and it
  marks itself and all blocks before it.
\<close>

definition geo :: "'z fs_st_scheme \<Rightarrow> bool" where
  "geo s \<longleftrightarrow> bmap_blk s < sb_size (sb s) \<and> sb_size (sb s) \<le> FSSIZE \<and> (\<forall>b\<le>bmap_blk s. used s b) \<and>
     (\<forall>b<FSSIZE. length (blk s b) = BSIZE)"

text \<open>The effect of \<open>balloc\<close> on the blocks.\<close>

definition taken :: "'z fs_st_scheme \<Rightarrow> nat \<Rightarrow> nat \<Rightarrow> byte list" where
  "taken s a = (blk s)(bmap_blk s := set_bit_at a (blk s (bmap_blk s)), a := replicate BSIZE 0)"

definition held_used :: "nat set \<Rightarrow> 'z fs_st_scheme \<Rightarrow> bool" where
  "held_used H s \<longleftrightarrow> card H \<le> 1 \<and> (\<forall>j\<in>H. \<exists>b. key s j = (1, b) \<and> used s b \<and> b \<noteq> bmap_blk s)"

lemma find_free:
  assumes "\<exists>a<m. \<not> P a"
  shows "\<exists>a<m. find (\<lambda>x. \<not> P x) [0..<m] = Some a \<and> \<not> P a"
proof -
  have "find (\<lambda>x. \<not> P x) [0..<m] \<noteq> None" using assms by (auto simp: find_None_iff)
  then obtain a where a: "find (\<lambda>x. \<not> P x) [0..<m] = Some a" by blast
  then have "a < m \<and> \<not> P a" by (auto simp: find_Some_iff)
  with a show ?thesis by blast
qed

lemma balloc_law:
  fixes s :: "'z fs_st_scheme"
  assumes tx: "txn c H X m s" and geo: "geo s" and free: "\<exists>a. a < sb_size (sb s) \<and> \<not> used s a"
    and X: "bmap_blk s \<in> X" and hu: "held_used H s"
    and cost: "Suc n \<le> m"
  shows "\<exists>a t. balloc 1 s = Done a t \<and> a < sb_size (sb s) \<and> \<not> used s a \<and> txn c H X n t \<and> tx_frame s t \<and> blk t = taken s a \<and>
    set (logged t) = insert a (insert (bmap_blk s) (set (logged s))) \<and> (\<forall>j\<in>H. bufs t ! j = bufs s ! j)"
proof -
  let ?bm = "bmap_blk s"
  have g: "sb_size (sb s) \<le> 1000" "?bm < FSSIZE" "?bm < sb_size (sb s)" using geo by (auto simp: geo_def)
  have H: "card H \<le> 1" using hu by (simp add: held_used_def)
  have nb: "key s j \<noteq> (1, ?bm)" if "j \<in> H" for j using hu that by (auto simp: held_used_def)
  obtain a where a: "find (\<lambda>bi. \<not> bit_at bi (blk s ?bm)) [0..<sb_size (sb s)] = Some a" "a < sb_size (sb s)" "\<not> used s a"
    using find_free [OF free] unfolding used_def by blast
  have na: "key s j \<noteq> (1, a)" if "j \<in> H" for j using hu that a(3) by (auto simp: held_used_def)
  have "[0..<(sb_size (sb s) + 4096 - 1) div 4096] = [0]"
  proof -
    have "(sb_size (sb s) + 4096 - 1) div 4096 = 1" using g by (intro div_nat_eqI) auto
    then show ?thesis by simp
  qed
  then have run0: "balloc 1 s = balloc_loop 1 [0] s" by (simp add: balloc_def kop_simps)
  obtain i s1 where 1: "bread 1 ?bm s = Done i s1" "cache_ok c (insert i H) s1" "same_view s s1" "i \<notin> H" "key s1 i = (1, ?bm)"
    "b_data (bufs s1 ! i) = blk s ?bm" "\<forall>j\<in>H. bufs s1 ! j = bufs s ! j"
    using bread_view [OF txn_cache [OF tx] H g(2) nb] by blast
  have tx1: "txn c (insert i H) X m s1" by (rule same_view_txn [OF tx 1(3,2)])
  obtain s2 where 2: "steps [upd_data i (set_bit_at a), log_write i, brelse i] s1 = Done () s2" "txn c (insert i H - {i}) X m s2"
    "tx_frame s1 s2" "blk s2 = (blk s1)(?bm := set_bit_at a (b_data (bufs s1 ! i)))" "set (logged s2) = insert ?bm (set (logged s1))"
    "\<forall>j\<in>insert i H - {i}. bufs s2 ! j = bufs s1 ! j"
    using put_block_log [OF tx1 _ 1(5), where n = m and f = "set_bit_at a"] X by auto
  have iH: "insert i H - {i} = H" using 1(4) by blast
  have k2: "key s2 j \<noteq> (1, a)" if "j \<in> H" for j using na [OF that] 1(7) 2(6) that unfolding iH by (simp add: key_def)
  have cost2: "n + (if a \<in> set (logged s2) \<union> X then 0 else 1) \<le> m" using cost by simp
  obtain t where 3: "bzero 1 a s2 = Done () t" "txn c H X n t" "tx_frame s2 t" "blk t = (blk s2)(a := replicate BSIZE 0)"
    "set (logged t) = insert a (set (logged s2))" "\<forall>j\<in>H. bufs t ! j = bufs s2 ! j"
    using bzero_law [OF 2(2) [unfolded iH] H _ k2 cost2] a(2) g(1) by (meson less_le_trans)
  have "thn (steps [upd_data i (set_bit_at a), log_write i, brelse i, bzero 1 a]) (ret a) s1 = Done a t"
  proof -
    have "steps [upd_data i (set_bit_at a), log_write i, brelse i, bzero 1 a] s1 =
      thn (steps [upd_data i (set_bit_at a), log_write i, brelse i]) (bzero 1 a) s1" by (simp add: steps_last thn_seq)
    then have "steps [upd_data i (set_bit_at a), log_write i, brelse i, bzero 1 a] s1 = Done () t"
      using 2(1) 3(1) by (simp add: thn_Done del: steps.simps)
    then show ?thesis by (simp add: thn_Done ret_def del: steps.simps)
  qed
  then have "balloc 1 s = Done a t"
    unfolding run0 using 1(1,6) a(1) g(1)
    by (simp add: bnd_gets bnd_Done get_data_def BBLOCK_def bmap_blk_def [symmetric] min_def del: steps.simps)
  moreover have "tx_frame s t" using 1(3) 2(3) 3(3) tx_frame_trans same_view_frame by blast
  moreover have "logged s1 = logged s" "blk s1 = blk s" using 1(3) by (simp_all add: same_view_def logged_def)
  ultimately show ?thesis using 1(6,7) 2(4-6) 3(2,4-6) a(2,3) iH
    by (intro exI [of _ a] exI [of _ t]) (simp add: taken_def)
qed

lemma taken_facts:
  fixes s :: "'z fs_st_scheme"
  assumes "geo s" "a < sb_size (sb s)" "\<not> used s a" "blk t = taken s a" "tx_frame s t"
  shows "geo t" "used t x \<longleftrightarrow> used s x \<or> x = a" "bmap_blk t = bmap_blk s" "sb t = sb s" "bmap_blk s < a"
    "x \<noteq> a \<Longrightarrow> x \<noteq> bmap_blk s \<Longrightarrow> blk t x = blk s x" "blk t a = replicate BSIZE 0"
proof -
  show sb: "sb t = sb s" by (rule tx_frame_fs [OF assms(5)])
  then show bm: "bmap_blk t = bmap_blk s" by (simp add: bmap_blk_def)
  show lt: "bmap_blk s < a" using assms(1,3) by (meson geo_def not_le)
  have len: "length (blk s (bmap_blk s)) = BSIZE" using assms(1) by (auto simp: geo_def)
  have "a < 8 * length (blk s (bmap_blk s))" using assms(1,2) len by (auto simp: geo_def)
  then show us: "used t x \<longleftrightarrow> used s x \<or> x = a" for x
    using lt by (simp add: used_def bm assms(4) taken_def bit_at_set)
  show "x \<noteq> a \<Longrightarrow> x \<noteq> bmap_blk s \<Longrightarrow> blk t x = blk s x" "blk t a = replicate BSIZE 0"
    by (simp_all add: assms(4) taken_def)
  show "geo t" using assms(1) us len by (auto simp: geo_def bm sb assms(4) taken_def)
qed

section \<open>The blocks of a file\<close>

text \<open>
  \<open>fmap B ip x\<close> is the block number of block \<open>x\<close> of the file, or 0; position 140 stands for the indirect
  block itself. The bytes of a block that is not there count as zero.
\<close>

definition fmap :: "(nat \<Rightarrow> byte list) \<Rightarrow> inode \<Rightarrow> nat \<Rightarrow> nat" where
  "fmap B ip x = (if x < NDIRECT then i_addrs ip ! x else if x = MAXFILE then i_addrs ip ! NDIRECT
     else if i_addrs ip ! NDIRECT = 0 then 0 else u32_at (4 * (x - NDIRECT)) (B (i_addrs ip ! NDIRECT)))"

definition fbyte :: "(nat \<Rightarrow> byte list) \<Rightarrow> inode \<Rightarrow> nat \<Rightarrow> byte" where
  "fbyte B ip k = (let a = fmap B ip (k div BSIZE) in if a = 0 then 0 else B a ! (k mod BSIZE))"

definition own :: "(nat \<Rightarrow> byte list) \<Rightarrow> inode \<Rightarrow> nat set" where
  "own B ip = fmap B ip ` {..MAXFILE} - {0}"

definition file_ok :: "'z fs_st_scheme \<Rightarrow> inode \<Rightarrow> bool" where
  "file_ok s ip \<longleftrightarrow> i_dev ip = 1 \<and> length (i_addrs ip) = 13 \<and> i_size ip \<le> MAXFILE * BSIZE \<and>
     (\<forall>x. BSIZE * x < i_size ip \<longrightarrow> fmap (blk s) ip x \<noteq> 0) \<and>
     (\<forall>b\<in>own (blk s) ip. bmap_blk s < b \<and> b < sb_size (sb s) \<and> used s b) \<and>
     (\<forall>x\<le>MAXFILE. \<forall>y\<le>MAXFILE. fmap (blk s) ip x \<noteq> 0 \<longrightarrow> fmap (blk s) ip x = fmap (blk s) ip y \<longrightarrow> x = y)"

lemma own_mem: "x \<le> MAXFILE \<Longrightarrow> fmap B ip x \<noteq> 0 \<Longrightarrow> fmap B ip x \<in> own B ip"
  by (auto simp: own_def)

lemma file_okD:
  assumes "file_ok s ip"
  shows "i_dev ip = 1" "length (i_addrs ip) = 13" "i_size ip \<le> MAXFILE * BSIZE"
    and "BSIZE * x < i_size ip \<Longrightarrow> fmap (blk s) ip x \<noteq> 0"
    and "b \<in> own (blk s) ip \<Longrightarrow> bmap_blk s < b \<and> b < sb_size (sb s) \<and> used s b"
    and "x \<le> MAXFILE \<Longrightarrow> y \<le> MAXFILE \<Longrightarrow> fmap (blk s) ip x \<noteq> 0 \<Longrightarrow> fmap (blk s) ip x = fmap (blk s) ip y \<Longrightarrow> x = y"
  using assms by (auto simp: file_ok_def)

text \<open>
  \<open>grown\<close>: the file has got new blocks, taken from the free ones, and its bytes are as before; everything
  that was in use and is not the file's is unchanged.
\<close>

definition kept :: "nat \<Rightarrow> inode \<Rightarrow> 'z fs_st_scheme \<Rightarrow> 'z fs_st_scheme \<Rightarrow> bool" where
  "kept i ip s t \<longleftrightarrow> tx_frame s (t\<lparr>icache := icache s\<rparr>) \<and> icache t = (icache s)[i := icache t ! i] \<and> geo t \<and>
     (\<forall>b. used s b \<longrightarrow> used t b) \<and> (\<forall>b. b \<noteq> bmap_blk s \<longrightarrow> used s b \<longrightarrow> b \<notin> own (blk s) ip \<longrightarrow> blk t b = blk s b)"

definition grown :: "nat \<Rightarrow> 'z fs_st_scheme \<Rightarrow> 'z fs_st_scheme \<Rightarrow> bool" where
  "grown i s t \<longleftrightarrow> kept i (icache s ! i) s t \<and> file_ok t (icache t ! i) \<and>
     icache t ! i = (icache s ! i)\<lparr>i_addrs := i_addrs (icache t ! i)\<rparr> \<and>
     (\<forall>x\<le>MAXFILE. fmap (blk s) (icache s ! i) x \<noteq> 0 \<longrightarrow> fmap (blk t) (icache t ! i) x = fmap (blk s) (icache s ! i) x) \<and>
     (\<forall>b\<in>own (blk t) (icache t ! i). used s b \<longrightarrow> b \<in> own (blk s) (icache s ! i))"

text \<open>A free block becomes block \<open>p\<close> of the file.\<close>

lemma file_grow:
  assumes ok: "file_ok s ip" and p: "p \<le> MAXFILE" "fmap (blk s) ip p = 0"
    and a: "bmap_blk s < a" "a < sb_size (sb s)" "\<not> used s a" and u: "\<And>x. used t x \<longleftrightarrow> used s x \<or> x = a"
    and sb: "sb t = sb s" and at: "i_dev ip' = i_dev ip" "i_size ip' = i_size ip" "length (i_addrs ip') = 13"
    and m: "\<And>x. x \<le> MAXFILE \<Longrightarrow> fmap (blk t) ip' x = (if x = p then a else fmap (blk s) ip x)"
  shows "file_ok t ip'" and "own (blk t) ip' = insert a (own (blk s) ip)"
proof -
  have bm: "bmap_blk t = bmap_blk s" using sb by (simp add: bmap_blk_def)
  have new: "fmap (blk s) ip x \<noteq> a" if "x \<le> MAXFILE" for x
    using file_okD(5) [OF ok own_mem [OF that]] a by fastforce
  show own: "own (blk t) ip' = insert a (own (blk s) ip)"
  proof -
    have "fmap (blk t) ip' ` {..MAXFILE} = (\<lambda>x. if x = p then a else fmap (blk s) ip x) ` {..MAXFILE}" using m by (intro image_cong) auto
    also have "\<dots> - {0} = insert a (fmap (blk s) ip ` {..MAXFILE} - {0})"
      using p a(1) by (auto simp: image_iff)
    finally show ?thesis by (simp add: own_def)
  qed
  have sz: "fmap (blk t) ip' x \<noteq> 0" if "BSIZE * x < i_size ip'" for x
  proof -
    have "x \<le> MAXFILE" using that file_okD(3) [OF ok] at(2) by simp
    then show ?thesis using that file_okD(4) [OF ok, of x] m a(1) at(2) by auto
  qed
  have inj: "x = y" if "x \<le> MAXFILE" "y \<le> MAXFILE" "fmap (blk t) ip' x \<noteq> 0" "fmap (blk t) ip' x = fmap (blk t) ip' y" for x y
    using that m [OF that(1)] m [OF that(2)] new [OF that(1)] new [OF that(2)] file_okD(6) [OF ok that(1,2)] by (auto split: if_splits)
  show "file_ok t ip'" unfolding file_ok_def own
    using file_okD(1-3) [OF ok] file_okD(5) [OF ok] at a u sb bm sz inj by auto
qed

lemma icache_view [simp]:
  fixes s :: "'z fs_st_scheme"
  shows "blk (s\<lparr>icache := z\<rparr>) = blk s" "txn c H X n (s\<lparr>icache := z\<rparr>) = txn c H X n s" "cache_ok c H (s\<lparr>icache := z\<rparr>) = cache_ok c H s"
    "logged (s\<lparr>icache := z\<rparr>) = logged s" "used (s\<lparr>icache := z\<rparr>) b = used s b" "bmap_blk (s\<lparr>icache := z\<rparr>) = bmap_blk s"
    "geo (s\<lparr>icache := z\<rparr>) = geo s" "file_ok (s\<lparr>icache := z\<rparr>) ip = file_ok s ip"
proof -
  have d: "dirty (s\<lparr>icache := z\<rparr>) = dirty s" "logged (s\<lparr>icache := z\<rparr>) = logged s" "bio_inv H (s\<lparr>icache := z\<rparr>) = bio_inv H s"
    "io_ready c (s\<lparr>icache := z\<rparr>) = io_ready c s"
    by (simp_all add: dirty_def key_def logged_def bio_inv_def io_ready_def running_def)
  show b: "blk (s\<lparr>icache := z\<rparr>) = blk s" by (simp add: blk_def kdata_def key_def fun_eq_iff split: option.split)
  show "txn c H X n (s\<lparr>icache := z\<rparr>) = txn c H X n s" "cache_ok c H (s\<lparr>icache := z\<rparr>) = cache_ok c H s" by (simp_all add: txn_def cache_ok_def d)
  show "logged (s\<lparr>icache := z\<rparr>) = logged s" by (rule d)
  show bm: "bmap_blk (s\<lparr>icache := z\<rparr>) = bmap_blk s" by (simp add: bmap_blk_def)
  show u: "used (s\<lparr>icache := z\<rparr>) b = used s b" for b by (simp add: used_def b bm)
  show "geo (s\<lparr>icache := z\<rparr>) = geo s" "file_ok (s\<lparr>icache := z\<rparr>) ip = file_ok s ip" by (simp_all add: geo_def file_ok_def u b bm)
qed

lemma tx_frame_icache:
  fixes s t :: "'z fs_st_scheme"
  assumes "tx_frame s t"
  shows "tx_frame (s\<lparr>icache := z\<rparr>) (t\<lparr>icache := z\<rparr>)"
proof -
  have eq: "t\<lparr>procs := procs s, ide_regs := ide_regs s, bufs := bufs s, lru := lru s, lh_n := lh_n s, lh_block := lh_block s\<rparr> = s"
    using assms by (simp add: tx_frame_def)
  have "t\<lparr>icache := z, procs := procs s, ide_regs := ide_regs s, bufs := bufs s, lru := lru s, lh_n := lh_n s, lh_block := lh_block s\<rparr>
      = (t\<lparr>procs := procs s, ide_regs := ide_regs s, bufs := bufs s, lru := lru s, lh_n := lh_n s, lh_block := lh_block s\<rparr>)\<lparr>icache := z\<rparr>"
    by simp
  then show ?thesis unfolding eq using assms by (simp add: tx_frame_def)
qed

lemma keptD:
  assumes "kept i ip s t"
  shows "sb t = sb s" "bmap_blk t = bmap_blk s" "geo t" "length (icache t) = length (icache s)"
proof -
  have f: "tx_frame s (t\<lparr>icache := icache s\<rparr>)" "icache t = (icache s)[i := icache t ! i]" "geo t" using assms by (auto simp: kept_def)
  show "sb t = sb s" using tx_frame_fs(1) [OF f(1)] by simp
  then show "bmap_blk t = bmap_blk s" by (simp add: bmap_blk_def)
  show "geo t" by (rule f)
  show "length (icache t) = length (icache s)" by (subst f(2)) simp
qed

lemma kept_refl: "geo s \<Longrightarrow> kept i ip s s"
  by (simp add: kept_def)

lemma kept_trans:
  assumes "kept i ip s t" "kept i ip' t u" and own: "\<And>b. b \<in> own (blk t) ip' \<Longrightarrow> used s b \<Longrightarrow> b \<in> own (blk s) ip"
  shows "kept i ip s u"
proof -
  have "tx_frame (t\<lparr>icache := icache s\<rparr>) ((u\<lparr>icache := icache t\<rparr>)\<lparr>icache := icache s\<rparr>)"
    using assms(2) by (intro tx_frame_icache) (simp add: kept_def)
  then have "tx_frame s (u\<lparr>icache := icache s\<rparr>)" using assms(1) tx_frame_trans by (auto simp: kept_def)
  moreover have "icache u = (icache s)[i := icache u ! i]"
  proof -
    have "icache u = (icache t)[i := icache u ! i]" using assms(2) by (simp add: kept_def)
    also have "\<dots> = ((icache s)[i := icache t ! i])[i := icache u ! i]" using assms(1) by (simp add: kept_def)
    finally show ?thesis by simp
  qed
  moreover have "blk u b = blk s b" if "b \<noteq> bmap_blk s" "used s b" "b \<notin> own (blk s) ip" for b
    using assms that keptD(2) [OF assms(1)] by (auto simp: kept_def)
  ultimately show ?thesis using assms(1,2) by (simp add: kept_def)
qed

lemma grown_trans:
  assumes "grown i s t" "grown i t u"
  shows "grown i s u"
proof -
  have k: "kept i (icache s ! i) s t" "kept i (icache t ! i) t u" using assms by (auto simp: grown_def)
  have new: "b \<in> own (blk s) (icache s ! i)" if "b \<in> own (blk t) (icache t ! i)" "used s b" for b
    using assms(1) that by (auto simp: grown_def)
  have "icache u ! i = (icache s ! i)\<lparr>i_addrs := i_addrs (icache u ! i)\<rparr>"
  proof -
    have "icache u ! i = (icache t ! i)\<lparr>i_addrs := i_addrs (icache u ! i)\<rparr>" using assms(2) by (simp add: grown_def)
    also have "\<dots> = ((icache s ! i)\<lparr>i_addrs := i_addrs (icache t ! i)\<rparr>)\<lparr>i_addrs := i_addrs (icache u ! i)\<rparr>"
      using assms(1) by (simp add: grown_def)
    finally show ?thesis by simp
  qed
  moreover have "b \<in> own (blk s) (icache s ! i)" if "b \<in> own (blk u) (icache u ! i)" "used s b" for b
    using assms that new k(1) by (auto simp: grown_def kept_def)
  moreover have "fmap (blk u) (icache u ! i) x = fmap (blk s) (icache s ! i) x" if "x \<le> MAXFILE" "fmap (blk s) (icache s ! i) x \<noteq> 0" for x
    using assms that by (simp add: grown_def)
  ultimately show ?thesis using kept_trans [OF k new] assms(2) by (auto simp: grown_def)
qed

section \<open>Finding and adding blocks: bmap\<close>

definition free_blks :: "'z fs_st_scheme \<Rightarrow> nat set" where
  "free_blks s = {b. b < sb_size (sb s) \<and> \<not> used s b}"

definition same_bytes :: "nat \<Rightarrow> 'z fs_st_scheme \<Rightarrow> 'z fs_st_scheme \<Rightarrow> bool" where
  "same_bytes i s t \<longleftrightarrow> (\<forall>k<MAXFILE * BSIZE. fbyte (blk t) (icache t ! i) k = fbyte (blk s) (icache s ! i) k)"

lemma u32_at_zero: "off + 4 \<le> n \<Longrightarrow> u32_at off (replicate n 0) = 0"
  by (simp add: u32_at_def slice_def)

lemma fmap_set_addr:
  assumes "length (i_addrs ip) = 13" "p \<le> NDIRECT" "i_addrs ip ! p = 0"
    and "p < NDIRECT \<Longrightarrow> i_addrs ip ! NDIRECT \<noteq> 0 \<Longrightarrow> B' (i_addrs ip ! NDIRECT) = B (i_addrs ip ! NDIRECT)"
    and "p = NDIRECT \<Longrightarrow> B' a = replicate BSIZE 0" and "x \<le> MAXFILE"
  shows "fmap B' (ip\<lparr>i_addrs := (i_addrs ip)[p := a]\<rparr>) x = (if x = (if p = NDIRECT then MAXFILE else p) then a else fmap B ip x)"
  using assms by (auto simp: fmap_def nth_list_update u32_at_zero)

text \<open>One more block of a file: the new one reads as zeros, the others are as they were.\<close>

lemma fbyte_grow:
  assumes ok: "file_ok s (icache s ! i)" and p: "p \<le> MAXFILE" "fmap (blk s) (icache s ! i) p = 0"
    and m: "\<And>x. x \<le> MAXFILE \<Longrightarrow> fmap (blk t) (icache t ! i) x = (if x = p then a else fmap (blk s) (icache s ! i) x)"
    and z: "blk t a = replicate BSIZE 0"
    and keep: "\<And>x. x < MAXFILE \<Longrightarrow> fmap (blk s) (icache s ! i) x \<noteq> 0 \<Longrightarrow> blk t (fmap (blk s) (icache s ! i) x) = blk s (fmap (blk s) (icache s ! i) x)"
  shows "same_bytes i s t"
  unfolding same_bytes_def
proof (intro allI impI)
  fix k assume k: "k < MAXFILE * BSIZE"
  then have x: "k div BSIZE < MAXFILE" by (simp add: less_mult_imp_div_less)
  show "fbyte (blk t) (icache t ! i) k = fbyte (blk s) (icache s ! i) k"
    using m [of "k div BSIZE"] x p z keep [OF x] by (simp add: fbyte_def Let_def)
qed

text \<open>A block for a direct entry of the inode, or for the indirect block itself.\<close>

definition alloc_addr :: "nat \<Rightarrow> nat \<Rightarrow> ('z fs_st_scheme, nat) kop" where
  "alloc_addr i p = bnd (balloc 1) (\<lambda>a. thn (upd_inode i (\<lambda>x. x\<lparr>i_addrs := (i_addrs x)[p := a]\<rparr>)) (ret a))"

lemma alloc_addr_law:
  fixes s :: "'z fs_st_scheme"
  assumes tx: "txn c {} X m s" and geo: "geo s" and X: "bmap_blk s \<in> X" and i: "i < length (icache s)"
    and ok: "file_ok s (icache s ! i)" and p: "p \<le> NDIRECT" "i_addrs (icache s ! i) ! p = 0" and free: "free_blks s \<noteq> {}" and n: "Suc n \<le> m"
  shows "\<exists>a t. alloc_addr i p s = Done a t \<and> grown i s t \<and> same_bytes i s t \<and> txn c {} X n t \<and> a \<noteq> 0 \<and>
    i_addrs (icache t ! i) = (i_addrs (icache s ! i))[p := a] \<and> set (logged s) \<union> {a} \<subseteq> set (logged t) \<and>
    a \<in> free_blks s \<and> free_blks t = free_blks s - {a} \<and> (p = NDIRECT \<longrightarrow> blk t a = replicate BSIZE 0)"
proof -
  let ?ip = "icache s ! i" let ?x = "if p = NDIRECT then MAXFILE else p"
  have fr: "\<exists>a. a < sb_size (sb s) \<and> \<not> used s a" using free by (auto simp: free_blks_def)
  have hu: "held_used {} s" by (simp add: held_used_def)
  obtain a u where u: "balloc 1 s = Done a u" "a < sb_size (sb s)" "\<not> used s a" "txn c {} X n u" "tx_frame s u" "blk u = taken s a"
    "set (logged u) = insert a (insert (bmap_blk s) (set (logged s)))" using balloc_law [OF tx geo fr X hu n] by blast
  note T = taken_facts [OF geo u(2,3,6,5)]
  define ip' where "ip' = ?ip\<lparr>i_addrs := (i_addrs ?ip)[p := a]\<rparr>"
  define t where "t = u\<lparr>icache := (icache s)[i := ip']\<rparr>"
  have ic: "icache u = icache s" by (rule tx_frame_fs [OF u(5)])
  have run: "alloc_addr i p s = Done a t"
    using u(1) ic by (simp add: alloc_addr_def bnd_Done upd_inode_def thn_modify ret_def t_def ip'_def)
  have ti: "icache t ! i = ip'" using i by (simp add: t_def)
  have mine: "b \<noteq> a" "b \<noteq> bmap_blk s" if "b \<in> own (blk s) ?ip" for b using file_okD(5) [OF ok that] u(3) by auto
  have keep: "blk t b = blk s b" if "b \<in> own (blk s) ?ip" for b using T(6) mine that by (simp add: t_def)
  have m: "fmap (blk t) ip' x = (if x = ?x then a else fmap (blk s) ?ip x)" if "x \<le> MAXFILE" for x
    unfolding ip'_def
  proof (rule fmap_set_addr [OF file_okD(2) [OF ok] p _ _ that])
    show "blk t (i_addrs ?ip ! NDIRECT) = blk s (i_addrs ?ip ! NDIRECT)" if "i_addrs ?ip ! NDIRECT \<noteq> 0"
      using keep own_mem [of MAXFILE "blk s" ?ip] that by (simp add: fmap_def)
  qed (use T(7) in \<open>simp add: t_def\<close>)
  have x: "?x \<le> MAXFILE" "fmap (blk s) ?ip ?x = 0" using p by (auto simp: fmap_def)
  have G: "file_ok t ip'" "own (blk t) ip' = insert a (own (blk s) ?ip)"
    using file_grow [OF ok x T(5) u(2,3), of t ip'] T(2,4) m file_okD(2) [OF ok] by (simp_all add: t_def ip'_def)
  have "kept i ?ip s t" unfolding kept_def
  proof (intro conjI allI impI)
    have "u\<lparr>icache := icache s\<rparr> = u" by (simp add: ic [symmetric])
    then show "tx_frame s (t\<lparr>icache := icache s\<rparr>)" using u(5) by (simp add: t_def)
    show "icache t = (icache s)[i := icache t ! i]" using i by (simp add: t_def)
    show "geo t" using T(1) by (simp add: t_def)
    show "used s b \<Longrightarrow> used t b" for b using T(2) by (simp add: t_def)
    have "b \<noteq> a" if "used s b" for b using that u(3) by auto
    then show "blk t b = blk s b" if "b \<noteq> bmap_blk s" "used s b" for b using T(6) that by (simp add: t_def)
  qed
  then have "grown i s t" using G m x u(3) unfolding grown_def ti by (auto simp: ip'_def)
  moreover have "same_bytes i s t"
    using fbyte_grow [OF ok x, of t a] m ti T(7) keep own_mem [of _ "blk s" ?ip] by (simp add: t_def)
  moreover have "free_blks t = free_blks s - {a}" using T(2,4) by (auto simp: free_blks_def t_def)
  ultimately show ?thesis using run u T(5,7) ti
    by (intro exI [of _ a] exI [of _ t]) (auto simp: t_def ip'_def free_blks_def)
qed

text \<open>The entry of the indirect block, filled when it is empty; the buffer of the indirect block is held meanwhile.\<close>

definition ind_entry :: "nat \<Rightarrow> nat \<Rightarrow> ('z fs_st_scheme, nat) kop" where
  "ind_entry ind j = bnd (bread 1 ind) (\<lambda>bp. bnd (get_data bp) (\<lambda>d.
     bnd (if u32_at (4 * j) d = 0
          then bnd (balloc 1) (\<lambda>a. thn (upd_data bp (put_at (4 * j) (le_bytes 4 a))) (thn (log_write bp) (ret a)))
          else ret (u32_at (4 * j) d)) (\<lambda>a. thn (brelse bp) (ret a))))"

lemma ind_entry_there:
  fixes s :: "'z fs_st_scheme"
  assumes ok: "cache_ok c {} s" and b: "ind < FSSIZE" and e: "u32_at (4 * j) (blk s ind) \<noteq> 0"
  shows "\<exists>t. ind_entry ind j s = Done (u32_at (4 * j) (blk s ind)) t \<and> cache_ok c {} t \<and> same_view s t"
proof -
  obtain i s1 where 1: "bread 1 ind s = Done i s1" "cache_ok c {i} s1" "same_view s s1" "b_data (bufs s1 ! i) = blk s ind" "clean_buf i s1"
    using bread_view [OF ok _ b] by auto
  obtain t where 2: "brelse i s1 = Done () t" "cache_ok c ({i} - {i}) t" "same_view s1 t" using brelse_view [OF 1(2) _ 1(5)] by blast
  have "ind_entry ind j s = Done (u32_at (4 * j) (blk s ind)) t"
    using 1(1,4) 2(1) e by (simp add: ind_entry_def bnd_Done get_data_def bnd_gets bnd_ret thn_Done ret_def)
  then show ?thesis using 2(2) same_view_trans [OF 1(3) 2(3)] by auto
qed

lemma ind_entry_new:
  fixes s :: "'z fs_st_scheme"
  assumes tx: "txn c {} X m s" and geo: "geo s" and X: "bmap_blk s \<in> X" and free: "free_blks s \<noteq> {}"
    and b: "ind < sb_size (sb s)" "used s ind" "ind \<noteq> bmap_blk s" and e: "u32_at (4 * j) (blk s ind) = 0"
    and n: "n + Suc (if ind \<in> set (logged s) \<union> X then 0 else 1) \<le> m"
  shows "\<exists>a t. ind_entry ind j s = Done a t \<and> a \<in> free_blks s \<and> txn c {} X n t \<and> tx_frame s t \<and>
    blk t = (taken s a)(ind := put_at (4 * j) (le_bytes 4 a) (blk s ind)) \<and> set (logged s) \<union> {a, ind} \<subseteq> set (logged t)"
proof -
  have fr: "\<exists>a. a < sb_size (sb s) \<and> \<not> used s a" using free by (auto simp: free_blks_def)
  have bF: "ind < FSSIZE" using b(1) geo by (auto simp: geo_def)
  obtain i s1 where 1: "bread 1 ind s = Done i s1" "cache_ok c {i} s1" "same_view s s1" "key s1 i = (1, ind)"
    "b_data (bufs s1 ! i) = blk s ind" "clean_buf i s1" using bread_view [OF txn_cache [OF tx] _ bF] by auto
  have v: "blk s1 = blk s" "logged s1 = logged s" "tx_frame s s1" using 1(3) by (simp_all add: same_view_def logged_def)
  have sb1: "sb s1 = sb s" "bmap_blk s1 = bmap_blk s" "used s1 = used s"
    using tx_frame_fs [OF v(3)] v(1) by (auto simp: bmap_blk_def used_def fun_eq_iff)
  have tx1: "txn c {i} X m s1" by (rule same_view_txn [OF tx 1(3,2)])
  have g1: "geo s1" using geo by (simp add: geo_def sb1 v)
  have hu: "held_used {i} s1" using 1(4) b sb1 by (simp add: held_used_def)
  let ?k = "if ind \<in> set (logged s) \<union> X then 0 else 1 :: nat"
  obtain a s2 where 2: "balloc 1 s1 = Done a s2" "a < sb_size (sb s1)" "\<not> used s1 a" "txn c {i} X (n + ?k) s2" "tx_frame s1 s2" "blk s2 = taken s1 a"
    "set (logged s2) = insert a (insert (bmap_blk s1) (set (logged s1)))" "bufs s2 ! i = bufs s1 ! i"
    using balloc_law [OF tx1 g1 _ _ hu, where n = "n + ?k"] fr X n sb1 by auto
  have a: "a \<noteq> ind" "a \<noteq> bmap_blk s" using 2(3) b(2) sb1 geo by (auto simp: geo_def)
  have k2: "key s2 i = (1, ind)" using 1(4) 2(8) by (simp add: key_def)
  have cost: "n + (if ind \<in> set (logged s2) \<union> X then 0 else 1) \<le> n + ?k" using 2(7) v(2) by simp
  obtain s3 where 3: "thn (upd_data i (put_at (4 * j) (le_bytes 4 a))) (log_write i) s2 = Done () s3" "txn c {i} X n s3" "tx_frame s2 s3"
    "blk s3 = (blk s2)(ind := put_at (4 * j) (le_bytes 4 a) (b_data (bufs s2 ! i)))" "set (logged s3) = insert ind (set (logged s2))" "clean_buf i s3"
    using log_put [OF 2(4) _ k2 cost, where f = "put_at (4 * j) (le_bytes 4 a)"] by blast
  obtain t where 4: "brelse i s3 = Done () t" "cache_ok c ({i} - {i}) t" "same_view s3 t"
    using brelse_view [OF txn_cache [OF 3(2)] _ 3(6)] by blast
  have "thn (upd_data i (put_at (4 * j) (le_bytes 4 a))) (thn (log_write i) (ret a)) s2 = Done a s3"
    unfolding thn_seq [symmetric] using 3(1) by (simp add: thn_Done ret_def)
  then have "ind_entry ind j s = Done a t"
    using 1(1,5) 2(1) 4(1) e by (simp add: ind_entry_def bnd_Done get_data_def bnd_gets thn_Done ret_def)
  moreover have "tx_frame s t" using v(3) 2(5) 3(3) 4(3) tx_frame_trans same_view_frame by blast
  moreover have "txn c {} X n t" using same_view_txn [OF 3(2) 4(3,2)] by simp
  moreover have "blk t = (taken s a)(ind := put_at (4 * j) (le_bytes 4 a) (blk s ind))"
    using 4(3) 3(4) 2(6,8) 1(5) v(1) sb1 by (simp add: same_view_def taken_def)
  moreover have "logged t = logged s3" using 4(3) by (simp add: same_view_def logged_def)
  ultimately show ?thesis using 2(2,3,7) 3(5) v(2) sb1
    by (intro exI [of _ a] exI [of _ t]) (auto simp: free_blks_def)
qed

text \<open>
  The budget of a file operation on \<open>r\<close> more blocks: each costs at most one entry of the log, and
  the indirect block one more unless it is already in the log; and there are as many free blocks.
\<close>

definition ind_cost :: "nat set \<Rightarrow> nat \<Rightarrow> 'z fs_st_scheme \<Rightarrow> nat" where
  "ind_cost X i s = (let ind = i_addrs (icache s ! i) ! NDIRECT in if ind \<noteq> 0 \<and> ind \<in> set (logged s) \<union> X then 0 else 1)"

definition need :: "nat \<Rightarrow> 'z fs_st_scheme \<Rightarrow> nat" where
  "need i s = (if i_addrs (icache s ! i) ! NDIRECT = 0 then 1 else 0)"

definition fready :: "nat \<Rightarrow> nat set \<Rightarrow> nat \<Rightarrow> nat \<Rightarrow> 'z fs_st_scheme \<Rightarrow> bool" where
  "fready c X i r s \<longleftrightarrow> txn c {} X (r + ind_cost X i s) s \<and> geo s \<and> bmap_blk s \<in> X \<and> i < length (icache s) \<and>
     file_ok s (icache s ! i) \<and> r + need i s \<le> card (free_blks s)"

lemma finite_free [simp]: "finite (free_blks s)"
  by (simp add: free_blks_def)

lemma same_view_file:
  fixes s t :: "'z fs_st_scheme"
  assumes "same_view s t" "geo s" "file_ok s (icache s ! i)"
  shows "grown i s t" "same_bytes i s t" "logged t = logged s" "free_blks t = free_blks s" "icache t = icache s" "geo t" "blk t = blk s" "sb t = sb s"
proof -
  have f: "tx_frame s t" "blk t = blk s" "logged t = logged s" using assms(1) by (simp_all add: same_view_def logged_def)
  have e: "icache t = icache s" "sb t = sb s" using tx_frame_fs [OF f(1)] by simp_all
  have u: "used t = used s" "bmap_blk t = bmap_blk s" using f e by (auto simp: used_def bmap_blk_def fun_eq_iff)
  have "t\<lparr>icache := icache s\<rparr> = t" by (simp add: e(1) [symmetric])
  then have "tx_frame s (t\<lparr>icache := icache s\<rparr>)" using f(1) by simp
  then show "grown i s t" using assms(2,3) f e u by (simp add: grown_def kept_def file_ok_def geo_def)
  show "same_bytes i s t" "logged t = logged s" "free_blks t = free_blks s" "icache t = icache s" "geo t" "blk t = blk s" "sb t = sb s"
    using assms f e u by (simp_all add: same_bytes_def free_blks_def geo_def)
qed

lemma fmap_set_entry:
  assumes "i_addrs ip ! NDIRECT = ind" "ind \<noteq> 0" "length (B ind) = BSIZE" "j < NINDIRECT" "a < 2 ^ 32"
    "B' ind = put_at (4 * j) (le_bytes 4 a) (B ind)" "x \<le> MAXFILE"
  shows "fmap B' ip x = (if x = NDIRECT + j then a else fmap B ip x)"
proof -
  have "u32_at (4 * k) (B' ind) = (if k = j then a else u32_at (4 * k) (B ind))" if "k < NINDIRECT" for k
  proof (cases "k = j")
    case True
    then show ?thesis using assms by (simp add: u32_at_def slice_put_at_same le_val_le_bytes)
  next
    case False
    then have "slice (4 * k) 4 (B' ind) = slice (4 * k) 4 (B ind)" unfolding assms(6)
      using assms that by (intro slice_put_at_apart) auto
    with False show ?thesis by (simp add: u32_at_def)
  qed
  then show ?thesis using assms by (auto simp: fmap_def)
qed

lemma bmap_split:
  fixes s :: "'z fs_st_scheme"
  assumes "i_dev (icache s ! i) = 1"
  shows "bmap i bn s = (if bn < NDIRECT
      then if i_addrs (icache s ! i) ! bn = 0 then alloc_addr i bn s else Done (i_addrs (icache s ! i) ! bn) s
      else if bn < MAXFILE
      then bnd (if i_addrs (icache s ! i) ! NDIRECT = 0 then alloc_addr i NDIRECT else ret (i_addrs (icache s ! i) ! NDIRECT))
        (\<lambda>ind. ind_entry ind (bn - NDIRECT)) s
      else Panicked ''bmap: out of range'')"
  using assms by (auto simp: bmap_def get_inode_def bnd_gets alloc_addr_def ind_entry_def ret_def panic_def cong: if_cong)

text \<open>What a call of \<open>bmap\<close> leaves: the block is there, and the budget is one block smaller.\<close>

definition mapped :: "nat \<Rightarrow> nat set \<Rightarrow> nat \<Rightarrow> nat \<Rightarrow> nat \<Rightarrow> nat \<Rightarrow> 'z fs_st_scheme \<Rightarrow> 'z fs_st_scheme \<Rightarrow> bool" where
  "mapped c X i r bn a s t \<longleftrightarrow> grown i s t \<and> same_bytes i s t \<and> a \<noteq> 0 \<and> a = fmap (blk t) (icache t ! i) bn \<and>
     txn c {} X (r + ind_cost X i t + (if a \<in> set (logged t) \<union> X then 0 else 1)) t \<and> r + need i t \<le> card (free_blks t)"

lemma ind_cost_le:
  "i_addrs (icache t ! i) ! NDIRECT = i_addrs (icache s ! i) ! NDIRECT \<Longrightarrow> set (logged s) \<subseteq> set (logged t) \<Longrightarrow> ind_cost X i t \<le> ind_cost X i s"
  by (auto simp: ind_cost_def Let_def)

lemma freadyD:
  assumes "fready c X i r s"
  shows "txn c {} X (r + ind_cost X i s) s" "geo s" "bmap_blk s \<in> X" "i < length (icache s)" "file_ok s (icache s ! i)"
    "r + need i s \<le> card (free_blks s)" "i_dev (icache s ! i) = 1"
  using assms file_okD(1) by (auto simp: fready_def)

lemma mapped_direct:
  fixes s :: "'z fs_st_scheme"
  assumes F: "fready c X i (Suc r) s" and bn: "bn < NDIRECT"
  shows "\<exists>a t. bmap i bn s = Done a t \<and> mapped c X i r bn a s t"
proof -
  note f = freadyD [OF F] and dev = freadyD(7) [OF F]
  show ?thesis
  proof (cases "i_addrs (icache s ! i) ! bn = 0")
    case True
    have fr: "free_blks s \<noteq> {}" using f(6) by auto
    obtain a t where t: "alloc_addr i bn s = Done a t" "grown i s t" "same_bytes i s t" "txn c {} X (r + ind_cost X i s) t" "a \<noteq> 0"
      "i_addrs (icache t ! i) = (i_addrs (icache s ! i))[bn := a]" "set (logged s) \<union> {a} \<subseteq> set (logged t)"
      "a \<in> free_blks s" "free_blks t = free_blks s - {a}"
      using alloc_addr_law [OF f(1-5) less_imp_le [OF bn] True fr, of "r + ind_cost X i s"] by auto
    have len: "length (i_addrs (icache s ! i)) = 13" using f(5) file_okD(2) by blast
    have "a = fmap (blk t) (icache t ! i) bn" using t(6) bn len by (simp add: fmap_def)
    moreover have nd: "i_addrs (icache t ! i) ! NDIRECT = i_addrs (icache s ! i) ! NDIRECT" using t(6) bn by simp
    moreover have "r + need i t \<le> card (free_blks t)" using f(6) t(8,9) nd by (simp add: need_def)
    moreover have "txn c {} X (r + ind_cost X i t + (if a \<in> set (logged t) \<union> X then 0 else 1)) t"
      using txn_less [OF t(4)] ind_cost_le [OF nd, of X] t(7) by simp
    ultimately show ?thesis using t bn True by (intro exI [of _ a] exI [of _ t]) (simp add: bmap_split [OF dev] mapped_def)
  next
    case False
    have "grown i s s" "same_bytes i s s" using same_view_file [OF same_view_refl f(2,5)] by auto
    then show ?thesis using False bn f(1,6)
      by (intro exI [of _ "i_addrs (icache s ! i) ! bn"] exI [of _ s])
        (auto simp: bmap_split [OF dev] mapped_def fmap_def elim!: txn_less)
  qed
qed

text \<open>The effect of a new entry in the indirect block on the file.\<close>

lemma ind_grown:
  fixes s t :: "'z fs_st_scheme"
  assumes geo: "geo s" and ok: "file_ok s (icache s ! i)" and ind: "ind = i_addrs (icache s ! i) ! NDIRECT" and own: "ind \<in> own (blk s) (icache s ! i)"
    and a: "a \<in> free_blks s" and fr: "tx_frame s t"
    and B: "blk t = (taken s a)(ind := put_at (4 * j) (le_bytes 4 a) (blk s ind))" and j: "j < NINDIRECT"
    and z: "fmap (blk s) (icache s ! i) (NDIRECT + j) = 0"
  shows "grown i s t \<and> same_bytes i s t \<and> a \<noteq> 0 \<and> a = fmap (blk t) (icache t ! i) (NDIRECT + j) \<and>
    free_blks t = free_blks s - {a} \<and> icache t = icache s"
proof -
  let ?ip = "icache s ! i"
  have af: "a < sb_size (sb s)" "\<not> used s a" using a by (auto simp: free_blks_def)
  have d: "bmap_blk s < ind" "ind < sb_size (sb s)" "used s ind" using file_okD(5) [OF ok own] by auto
  have ne: "a \<noteq> ind" "ind \<noteq> 0" using d af by auto
  have bma: "bmap_blk s < a" using geo af(2) by (meson geo_def not_le)
  have e: "sb t = sb s" "icache t = icache s" using tx_frame_fs [OF fr] by simp_all
  then have bm: "bmap_blk t = bmap_blk s" by (simp add: bmap_blk_def)
  have size: "sb_size (sb s) \<le> FSSIZE" "\<And>b. b < FSSIZE \<Longrightarrow> length (blk s b) = BSIZE" "bmap_blk s < sb_size (sb s)" using geo by (auto simp: geo_def)
  have u: "used t x \<longleftrightarrow> used s x \<or> x = a" for x
    using d(1) bma af(1) size by (simp add: used_def bm B taken_def bit_at_set)
  have other: "blk t b = blk s b" if "b \<noteq> a" "b \<noteq> bmap_blk s" "b \<noteq> ind" for b using that by (simp add: B taken_def)
  have za: "blk t a = replicate BSIZE 0" using ne by (simp add: B taken_def)
  have tl: "blk t ind = put_at (4 * j) (le_bytes 4 a) (blk s ind)" by (simp add: B)
  have m: "fmap (blk t) ?ip x = (if x = NDIRECT + j then a else fmap (blk s) ?ip x)" if "x \<le> MAXFILE" for x
    using fmap_set_entry [where B = "blk s" and B' = "blk t", OF ind [symmetric] ne(2) _ j _ tl that] size d(2) af(1) by simp
  have p: "NDIRECT + j \<le> MAXFILE" using j by simp
  have G: "file_ok t ?ip" "own (blk t) ?ip = insert a (own (blk s) ?ip)"
    using file_grow [OF ok p z bma af u e(1), of ?ip] m file_okD(2) [OF ok] by simp_all
  have "geo t" using geo u size d(2) j by (auto simp: geo_def bm e B taken_def)
  moreover have "tx_frame s (t\<lparr>icache := icache s\<rparr>)" using fr by (simp add: e(2) [symmetric])
  moreover have "blk t b = blk s b" if "b \<noteq> bmap_blk s" "used s b" "b \<notin> own (blk s) ?ip" for b
    using other [of b] that own af(2) by blast
  ultimately have "kept i ?ip s t" using u e(2) by (simp add: kept_def)
  then have "grown i s t" using G m z af(2) p e by (auto simp: grown_def)
  moreover have "same_bytes i s t"
  proof (rule fbyte_grow [OF ok p z _ za])
    show "fmap (blk t) (icache t ! i) x = (if x = NDIRECT + j then a else fmap (blk s) ?ip x)" if "x \<le> MAXFILE" for x using m [OF that] e by simp
    show "blk t (fmap (blk s) ?ip x) = blk s (fmap (blk s) ?ip x)" if "x < MAXFILE" "fmap (blk s) ?ip x \<noteq> 0" for x
    proof (rule other)
      have o: "fmap (blk s) ?ip x \<in> own (blk s) ?ip" using own_mem that by simp
      then show "fmap (blk s) ?ip x \<noteq> a" "fmap (blk s) ?ip x \<noteq> bmap_blk s" using file_okD(5) [OF ok o] af(2) by auto
      have "fmap (blk s) ?ip MAXFILE = ind" using ind by (simp add: fmap_def)
      then show "fmap (blk s) ?ip x \<noteq> ind" using file_okD(6) [OF ok, of x MAXFILE] that by auto
    qed
  qed
  moreover have "free_blks t = free_blks s - {a}" using u e by (auto simp: free_blks_def)
  ultimately show ?thesis using m [OF p] bma e by simp
qed

lemma mapped_ind:
  fixes s :: "'z fs_st_scheme"
  assumes F: "fready c X i (Suc r) s" and bn: "NDIRECT \<le> bn" "bn < MAXFILE" and ind: "i_addrs (icache s ! i) ! NDIRECT \<noteq> 0"
  shows "\<exists>a t. ind_entry (i_addrs (icache s ! i) ! NDIRECT) (bn - NDIRECT) s = Done a t \<and> mapped c X i r bn a s t"
proof -
  let ?ip = "icache s ! i" let ?ind = "i_addrs ?ip ! NDIRECT"
  define j where "j = bn - NDIRECT"
  have j: "j < NINDIRECT" "bn = NDIRECT + j" using bn by (simp_all add: j_def)
  note f = freadyD [OF F]
  have own: "?ind \<in> own (blk s) ?ip" using own_mem [of MAXFILE "blk s" ?ip] ind by (simp add: fmap_def)
  then have data: "bmap_blk s < ?ind" "?ind < sb_size (sb s)" "used s ?ind" using file_okD(5) [OF f(5)] by auto
  have F3: "?ind < FSSIZE" using data(2) f(2) by (auto simp: geo_def)
  have at: "fmap (blk s) ?ip bn = u32_at (4 * j) (blk s ?ind)" using bn ind by (simp add: fmap_def j_def)
  show ?thesis
  proof (cases "u32_at (4 * j) (blk s ?ind) = 0")
    case False
    then obtain t where t: "ind_entry ?ind j s = Done (u32_at (4 * j) (blk s ?ind)) t" "cache_ok c {} t" "same_view s t"
      using ind_entry_there [OF txn_cache [OF f(1)] F3] by blast
    note V = same_view_file [OF t(3) f(2,5)]
    have "txn c {} X (Suc r + ind_cost X i t) t" using same_view_txn [OF f(1) t(3,2)] V(3,5) by (simp add: ind_cost_def)
    then show ?thesis using t(1) V f(6) at False
      by (intro exI [of _ "u32_at (4 * j) (blk s ?ind)"] exI [of _ t]) (auto simp: mapped_def need_def j_def elim!: txn_less)
  next
    case True
    have fr: "free_blks s \<noteq> {}" using f(6) by auto
    have cost: "r + Suc (if ?ind \<in> set (logged s) \<union> X then 0 else 1) \<le> Suc r + ind_cost X i s" by (simp add: ind_cost_def Let_def)
    have nb: "?ind \<noteq> bmap_blk s" using data(1) by simp
    obtain a t where t: "ind_entry ?ind j s = Done a t" "a \<in> free_blks s" "txn c {} X r t" "tx_frame s t"
      "blk t = (taken s a)(?ind := put_at (4 * j) (le_bytes 4 a) (blk s ?ind))" "set (logged s) \<union> {a, ?ind} \<subseteq> set (logged t)"
      using ind_entry_new [OF f(1-3) fr data(2,3) nb True cost] by blast
    have G: "grown i s t \<and> same_bytes i s t \<and> a \<noteq> 0 \<and> a = fmap (blk t) (icache t ! i) bn \<and> free_blks t = free_blks s - {a} \<and> icache t = icache s"
      unfolding j(2) by (rule ind_grown [OF f(2,5) refl own t(2,4,5) j(1)]) (use True at j(2) in simp)
    have ic: "icache t = icache s" and fb: "free_blks t = free_blks s - {a}" using G by blast+
    have z: "ind_cost X i t = 0" "need i t = 0" using t(6) ind by (auto simp: ind_cost_def need_def ic)
    have "txn c {} X (r + ind_cost X i t + (if a \<in> set (logged t) \<union> X then 0 else 1)) t" using t(3,6) z by simp
    moreover have "r + need i t \<le> card (free_blks t)" using f(6) t(2) z by (simp add: fb)
    ultimately have "mapped c X i r bn a s t" using G unfolding mapped_def by blast
    then show ?thesis using t(1) unfolding j_def by blast
  qed
qed

lemma bmap_law:
  fixes s :: "'z fs_st_scheme"
  assumes F: "fready c X i (Suc r) s" and bn: "bn < MAXFILE"
  shows "\<exists>a t. bmap i bn s = Done a t \<and> mapped c X i r bn a s t"
proof (cases "bn < NDIRECT")
  case True
  then show ?thesis by (rule mapped_direct [OF F])
next
  case False
  note f = freadyD [OF F]
  have len: "length (i_addrs (icache s ! i)) = 13" using file_okD(2) f(5) by blast
  show ?thesis
  proof (cases "i_addrs (icache s ! i) ! NDIRECT = 0")
    case True
    have fr: "free_blks s \<noteq> {}" using f(6) by auto
    have c1: "ind_cost X i s = 1" "need i s = 1" using True by (simp_all add: ind_cost_def need_def)
    obtain a s1 where 1: "alloc_addr i NDIRECT s = Done a s1" "grown i s s1" "same_bytes i s s1" "txn c {} X (Suc r) s1" "a \<noteq> 0"
      "i_addrs (icache s1 ! i) = (i_addrs (icache s ! i))[NDIRECT := a]" "set (logged s) \<union> {a} \<subseteq> set (logged s1)"
      "a \<in> free_blks s" "free_blks s1 = free_blks s - {a}"
      using alloc_addr_law [OF f(1-5) order_refl True fr, of "Suc r"] c1 by auto
    have ind: "i_addrs (icache s1 ! i) ! NDIRECT = a" using 1(6) len by simp
    have k: "kept i (icache s ! i) s s1" "file_ok s1 (icache s1 ! i)" using 1(2) by (auto simp: grown_def)
    have "fready c X i (Suc r) s1"
      using 1(4,5,7-9) k keptD [OF k(1)] f(3,4,6) c1 ind by (auto simp: fready_def ind_cost_def need_def)
    then obtain b t where 2: "ind_entry a (bn - NDIRECT) s1 = Done b t" "mapped c X i r bn b s1 t"
      using mapped_ind [of c X i r s1 bn] False bn ind 1(5) by auto
    have "bmap i bn s = Done b t" using 1(1) 2(1) True False bn by (simp add: bmap_split [OF f(7)] bnd_Done)
    moreover have "mapped c X i r bn b s t"
      using 2(2) grown_trans [OF 1(2)] 1(3) by (auto simp: mapped_def same_bytes_def)
    ultimately show ?thesis by blast
  next
    case nz: False
    with mapped_ind [OF F _ bn nz] False bn show ?thesis by (simp add: bmap_split [OF f(7)] bnd_ret)
  qed
qed

end
