(* ===== verification/Kbd.thy ===== *)
theory Kbd
  imports Xv6_Prelude
begin

text \<open>
  The keyboard, src/kbd.c and the tables of src/kbd.h. The controller holds the scan codes that
  have not been read yet: its status bit \<open>KBS_DIB\<close> is set while there are any, and reading the data
  port takes the first.
\<close>

section \<open>Model\<close>

text \<open>The modifier bits of \<open>shift\<close>.\<close>

abbreviation (input) SHIFT :: uint32 where "SHIFT \<equiv> 1"
abbreviation (input) CTL :: uint32 where "CTL \<equiv> 2"
abbreviation (input) ALT :: uint32 where "ALT \<equiv> 4"
abbreviation (input) CAPSLOCK :: uint32 where "CAPSLOCK \<equiv> 8"
abbreviation (input) NUMLOCK :: uint32 where "NUMLOCK \<equiv> 16"
abbreviation (input) SCROLLLOCK :: uint32 where "SCROLLLOCK \<equiv> 32"
abbreviation (input) E0ESC :: uint32 where "E0ESC \<equiv> 64"

definition shiftcode :: "byte \<Rightarrow> uint32" where
  "shiftcode d = (if d = 0x1D \<or> d = 0x9D then CTL else if d = 0x2A \<or> d = 0x36 then SHIFT
     else if d = 0x38 \<or> d = 0xB8 then ALT else 0)"

definition togglecode :: "byte \<Rightarrow> uint32" where
  "togglecode d = (if d = 0x3A then CAPSLOCK else if d = 0x45 then NUMLOCK else if d = 0x46 then SCROLLLOCK else 0)"

text \<open>The entries above \<open>0x80\<close>, which the three maps share but for enter and division on the keypad.\<close>

definition keypad :: "byte \<Rightarrow> byte \<Rightarrow> byte \<Rightarrow> byte" where
  "keypad enter divi d = (if d = 0x9C then enter else if d = 0xB5 then divi
     else if d = 0xC8 then 0xE2 else if d = 0xD0 then 0xE3
     else if d = 0xC9 then 0xE6 else if d = 0xD1 then 0xE7
     else if d = 0xCB then 0xE4 else if d = 0xCD then 0xE5
     else if d = 0x97 then 0xE0 else if d = 0xCF then 0xE1
     else if d = 0xD2 then 0xE8 else if d = 0xD3 then 0xE9 else 0)"

definition codes :: "string \<Rightarrow> byte list" where
  "codes = map of_char"

definition NO :: byte where "NO = 0"

definition ctl_of :: "char \<Rightarrow> byte" where
  "ctl_of c = of_char c - 0x40"

definition normal_low :: "byte list" where
  "normal_low =
     [NO, 0x1B] @ codes ''123456'' @
     codes ''7890-='' @ [0x08, 0x09] @
     codes ''qwertyui'' @
     codes ''op[]'' @ [0x0A, NO] @ codes ''as'' @
     codes ''dfghjkl;'' @
     [0x27, 0x60, NO, 0x5C] @ codes ''zxcv'' @
     codes ''bnm,./'' @ [NO] @ codes ''*'' @
     [NO] @ codes '' '' @ [NO, NO, NO, NO, NO, NO] @
     [NO, NO, NO, NO, NO, NO, NO] @ codes ''7'' @
     codes ''89-456+1'' @
     codes ''230.'' @ [NO, NO, NO, NO]"

definition shift_low :: "byte list" where
  "shift_low =
     [NO, 0x1B] @ codes ''!@#$%^'' @
     codes ''&*()_+'' @ [0x08, 0x09] @
     codes ''QWERTYUI'' @
     codes ''OP{}'' @ [0x0A, NO] @ codes ''AS'' @
     codes ''DFGHJKL:'' @
     [0x22, 0x7E, NO, 0x7C] @ codes ''ZXCV'' @
     codes ''BNM<>?'' @ [NO] @ codes ''*'' @
     [NO] @ codes '' '' @ [NO, NO, NO, NO, NO, NO] @
     [NO, NO, NO, NO, NO, NO, NO] @ codes ''7'' @
     codes ''89-456+1'' @
     codes ''230.'' @ [NO, NO, NO, NO]"

definition ctl_low :: "byte list" where
  "ctl_low =
     [NO, NO, NO, NO, NO, NO, NO, NO] @
     [NO, NO, NO, NO, NO, NO, NO, NO] @
     map ctl_of ''QWERTYUI'' @
     map ctl_of ''OP'' @ [NO, NO, 0x0D, NO] @ map ctl_of ''AS'' @
     map ctl_of ''DFGHJKL'' @ [NO] @
     [NO, NO, NO, ctl_of (CHR 0x5C)] @ map ctl_of ''ZXCV'' @
     map ctl_of ''BNM'' @ [NO, NO, ctl_of (CHR 0x2F), NO, NO]"

definition low :: "byte list \<Rightarrow> byte \<Rightarrow> byte" where
  "low t d = (if unat d < length t then t ! unat d else NO)"

definition normalmap :: "byte \<Rightarrow> byte" where
  "normalmap d = (if d < 0x80 then low normal_low d else keypad 0x0A 0x2F d)"

definition shiftmap :: "byte \<Rightarrow> byte" where
  "shiftmap d = (if d < 0x80 then low shift_low d else keypad 0x0A 0x2F d)"

definition ctlmap :: "byte \<Rightarrow> byte" where
  "ctlmap d = (if d < 0x80 then low ctl_low d else keypad 0x0D (ctl_of (CHR 0x2F)) d)"

definition charcode :: "uint32 \<Rightarrow> byte \<Rightarrow> byte" where
  "charcode k = (if k = 0 then normalmap else if k = 1 then shiftmap else ctlmap)"

text \<open>
  \<open>kbd_code\<close> is \<open>kbdgetc\<close> from the point where it has read \<open>data\<close>: the character returned and the
  new value of its static variable \<open>shift\<close>.
\<close>

definition kbd_key :: "byte \<Rightarrow> uint32 \<Rightarrow> byte \<times> uint32" where
  "kbd_key data shift =
     (let shift = shift OR shiftcode data;
          shift = shift XOR togglecode data;
          c = charcode (shift AND (CTL OR SHIFT)) data;
          c = (if shift AND CAPSLOCK \<noteq> 0
               then if 0x61 \<le> c \<and> c \<le> 0x7A then c - 0x20 else if 0x41 \<le> c \<and> c \<le> 0x5A then c + 0x20 else c
               else c)
      in (c, shift))"

definition kbd_code :: "byte \<Rightarrow> uint32 \<Rightarrow> byte \<times> uint32" where
  "kbd_code data shift =
     (if data = 0xE0 then (0, shift OR E0ESC)
      else if data AND 0x80 \<noteq> 0
      then let data = (if shift AND E0ESC \<noteq> 0 then data else data AND 0x7F)
           in (0, shift AND NOT (shiftcode data OR E0ESC))
      else if shift AND E0ESC \<noteq> 0 then kbd_key (data OR 0x80) (shift AND NOT E0ESC)
      else kbd_key data shift)"

definition kbdgetc :: "byte list \<Rightarrow> uint32 \<Rightarrow> int \<times> byte list \<times> uint32" where
  "kbdgetc port shift = (case port of [] \<Rightarrow> (- 1, [], shift)
     | data # port \<Rightarrow> (let (c, shift) = kbd_code data shift in (uint c, port, shift)))"

text \<open>The characters \<open>kbdgetc\<close> returns, one call after the other, until it returns -1.\<close>

fun kbd_chars :: "byte list \<Rightarrow> uint32 \<Rightarrow> int list \<times> uint32" where
  "kbd_chars [] shift = ([], shift)"
| "kbd_chars (data # port) shift =
     (let (c, _, shift) = kbdgetc (data # port) shift; (cs, shift) = kbd_chars port shift in (c # cs, shift))"

end
