(* ===== verification/Userland.thy ===== *)
theory Userland
  imports Xv6_Prelude
begin

text \<open>
  User processes: src/printf.c, the parts of src/ulib.c that make system calls, and the small
  programs src/echo.c, src/cat.c, src/wc.c, src/kill.c, src/ln.c, src/mkdir.c, src/rm.c and
  src/init.c. A process is the tree of the system calls it makes: each node is a call, with
  the rest of the process as a function of what the kernel answers; \<open>Exited\<close> is a process that
  called \<open>exit\<close>, \<open>Stuck\<close> one whose behaviour C leaves undefined or whose fuel ran out. Loops
  that end only when the kernel says so take fuel, one unit per round.
\<close>

section \<open>Processes\<close>

datatype scall =
    SysFork | SysWait | SysKill int | SysClose int | SysDup int
  | SysOpen string int | SysExec string "string list" | SysWrite int string
  | SysChdir string | SysMkdir string | SysUnlink string | SysLink string string
  | SysMknod string int int

datatype uproc =
    Exited
  | Stuck
  | Sys scall "int \<Rightarrow> uproc"
  | SysPipe "int \<Rightarrow> int \<Rightarrow> int \<Rightarrow> uproc"
  | SysRead int nat "int \<Rightarrow> string \<Rightarrow> uproc"

section \<open>printf.c\<close>

definition putc :: "int \<Rightarrow> char \<Rightarrow> uproc \<Rightarrow> uproc" where
  "putc fd c k = Sys (SysWrite fd [c]) (\<lambda>_. k)"

definition putcs :: "int \<Rightarrow> string \<Rightarrow> uproc \<Rightarrow> uproc" where
  "putcs fd s k = foldr (putc fd) s k"

definition digits :: string where
  "digits = ''0123456789abcdef''"

fun print_x64_loop :: "nat \<Rightarrow> uint64 \<Rightarrow> string" where
  "print_x64_loop 0 x = []"
| "print_x64_loop (Suc n) x = digits ! unat (drop_bit 60 x) # print_x64_loop n (push_bit 4 x)"

definition print_x64 :: "uint64 \<Rightarrow> string" where
  "print_x64 x = print_x64_loop 16 x"

fun print_x32_loop :: "nat \<Rightarrow> uint32 \<Rightarrow> string" where
  "print_x32_loop 0 x = []"
| "print_x32_loop (Suc n) x = digits ! unat (drop_bit 28 x) # print_x32_loop n (push_bit 4 x)"

definition print_x32 :: "uint32 \<Rightarrow> string" where
  "print_x32 x = print_x32_loop 8 x"

text \<open>The buffer \<open>buf\<close> of \<open>print_d\<close> holds the digits from the last one on.\<close>

fun print_d_digits :: "nat \<Rightarrow> string" where
  "print_d_digits x = digits ! (x mod 10) # (if x div 10 \<noteq> 0 then print_d_digits (x div 10) else [])"

declare print_d_digits.simps [simp del]

definition print_d_buf :: "uint32 \<Rightarrow> string" where
  "print_d_buf v = print_d_digits (nat \<bar>sint v\<bar>) @ (if sint v < 0 then ''-'' else [])"

definition print_d :: "uint32 \<Rightarrow> string" where
  "print_d v = rev (print_d_buf v)"

text \<open>
  The text \<open>printf\<close> writes; an argument of the wrong type, or one that is missing, is undefined
  behaviour. A string argument is \<open>None\<close> for the null pointer.
\<close>

datatype parg = Achar char | Aint uint32 | Aaddr uint64 | Astr "string option"

fun printf_text :: "string \<Rightarrow> parg list \<Rightarrow> string option" where
  "printf_text [] as = Some []"
| "printf_text [c] as = Some (if c \<noteq> CHR ''%'' then [c] else [])"
| "printf_text (c # d # fmt) as =
     (if c \<noteq> CHR ''%'' then map_option ((#) c) (printf_text (d # fmt) as)
      else if d = CHR ''c'' then
        (case as of Achar x # as \<Rightarrow> map_option ((#) x) (printf_text fmt as) | _ \<Rightarrow> None)
      else if d = CHR ''d'' then
        (case as of Aint v # as \<Rightarrow> map_option ((@) (print_d v)) (printf_text fmt as) | _ \<Rightarrow> None)
      else if d = CHR ''x'' then
        (case as of Aint v # as \<Rightarrow> map_option ((@) (print_x32 v)) (printf_text fmt as) | _ \<Rightarrow> None)
      else if d = CHR ''p'' then
        (case as of Aaddr v # as \<Rightarrow> map_option ((@) (print_x64 v)) (printf_text fmt as) | _ \<Rightarrow> None)
      else if d = CHR ''s'' then
        (case as of
           Astr s # as \<Rightarrow>
             map_option ((@) (case s of None \<Rightarrow> ''(null)'' | Some s \<Rightarrow> s)) (printf_text fmt as)
         | _ \<Rightarrow> None)
      else if d = CHR ''%'' then map_option ((#) CHR ''%'') (printf_text fmt as)
      else map_option (\<lambda>t. CHR ''%'' # d # t) (printf_text fmt as))"

definition printf :: "int \<Rightarrow> string \<Rightarrow> parg list \<Rightarrow> uproc \<Rightarrow> uproc" where
  "printf fd fmt as k = (case printf_text fmt as of None \<Rightarrow> Stuck | Some t \<Rightarrow> putcs fd t k)"

abbreviation (input) newline :: char where "newline \<equiv> CHR 0x0A"

section \<open>ulib.c\<close>

text \<open>\<open>gets\<close> hands the line it has read to the rest of the process; \<open>n\<close> is the room left in \<open>buf\<close>.\<close>

fun gets_loop :: "nat \<Rightarrow> string \<Rightarrow> (string \<Rightarrow> uproc) \<Rightarrow> uproc" where
  "gets_loop 0 buf k = k buf"
| "gets_loop (Suc n) buf k =
     SysRead 0 1 (\<lambda>cc s.
       if cc < 1 then k buf
       else let c = hd s; buf = buf @ [c] in
         if c = newline \<or> c = CHR 0x0D then k buf else gets_loop n buf k)"

definition ulib_gets :: "nat \<Rightarrow> (string \<Rightarrow> uproc) \<Rightarrow> uproc" where
  "ulib_gets n k = gets_loop (n - 1) [] k"

fun atoi_loop :: "string \<Rightarrow> uint32 \<Rightarrow> uint32" where
  "atoi_loop [] n = n"
| "atoi_loop (c # s) n =
     (if 48 \<le> (of_char c :: nat) \<and> (of_char c :: nat) \<le> 57 then atoi_loop s (n * 10 + of_char c - 48) else n)"

definition ulib_atoi :: "string \<Rightarrow> uint32" where
  "ulib_atoi s = atoi_loop s 0"

section \<open>The small programs\<close>

text \<open>Each \<open>main\<close> takes the list \<open>argv\<close>, whose length is \<open>argc\<close>.\<close>

fun echo_loop :: "string list \<Rightarrow> uproc" where
  "echo_loop [] = Exited"
| "echo_loop (a # as) =
     printf 1 ''%s%s'' [Astr (Some a), Astr (Some (if as \<noteq> [] then '' '' else [newline]))] (echo_loop as)"

definition echo_main :: "string list \<Rightarrow> uproc" where
  "echo_main argv = echo_loop (tl argv)"

fun cat :: "nat \<Rightarrow> int \<Rightarrow> uproc \<Rightarrow> uproc" where
  "cat 0 fd k = Stuck"
| "cat (Suc n) fd k =
     SysRead fd 512 (\<lambda>r s.
       if r > 0 then
         Sys (SysWrite 1 s) (\<lambda>w.
           if w \<noteq> r then printf 1 (''cat: write error'' @ [newline]) [] Exited else cat n fd k)
       else if r < 0 then printf 1 (''cat: read error'' @ [newline]) [] Exited
       else k)"

fun cat_files :: "nat \<Rightarrow> string list \<Rightarrow> uproc" where
  "cat_files n [] = Exited"
| "cat_files n (a # as) =
     Sys (SysOpen a 0) (\<lambda>fd.
       if fd < 0 then printf 1 (''cat: cannot open %s'' @ [newline]) [Astr (Some a)] Exited
       else cat n fd (Sys (SysClose fd) (\<lambda>_. cat_files n as)))"

definition cat_main :: "nat \<Rightarrow> string list \<Rightarrow> uproc" where
  "cat_main n argv = (if length argv \<le> 1 then cat n 0 Exited else cat_files n (tl argv))"

text \<open>The counters \<open>l\<close>, \<open>w\<close>, \<open>c\<close> and \<open>inword\<close> of \<open>wc\<close>, and the loop over one buffer.\<close>

record wc_st =
  wl :: uint32
  ww :: uint32
  wcc :: uint32
  inword :: bool

definition wc_blank :: "char \<Rightarrow> bool" where
  "wc_blank c \<longleftrightarrow> c \<in> set [CHR '' '', CHR 0x0D, CHR 0x09, newline, CHR 0x0B]"

fun wc_buf :: "string \<Rightarrow> wc_st \<Rightarrow> wc_st" where
  "wc_buf [] s = s"
| "wc_buf (x # xs) s =
     (let s = s\<lparr>wcc := wcc s + 1\<rparr>;
          s = (if x = newline then s\<lparr>wl := wl s + 1\<rparr> else s)
      in wc_buf xs
        (if wc_blank x then s\<lparr>inword := False\<rparr>
         else if \<not> inword s then s\<lparr>ww := ww s + 1, inword := True\<rparr> else s))"

fun wc_loop :: "nat \<Rightarrow> int \<Rightarrow> string \<Rightarrow> wc_st \<Rightarrow> uproc \<Rightarrow> uproc" where
  "wc_loop 0 fd name s k = Stuck"
| "wc_loop (Suc n) fd name s k =
     SysRead fd 512 (\<lambda>r xs.
       if r > 0 then wc_loop n fd name (wc_buf xs s) k
       else if r < 0 then printf 1 (''wc: read error'' @ [newline]) [] Exited
       else printf 1 (''%d %d %d %s'' @ [newline])
         [Aint (wl s), Aint (ww s), Aint (wcc s), Astr (Some name)] k)"

definition wc :: "nat \<Rightarrow> int \<Rightarrow> string \<Rightarrow> uproc \<Rightarrow> uproc" where
  "wc n fd name k = wc_loop n fd name \<lparr>wl = 0, ww = 0, wcc = 0, inword = False\<rparr> k"

fun wc_files :: "nat \<Rightarrow> string list \<Rightarrow> uproc" where
  "wc_files n [] = Exited"
| "wc_files n (a # as) =
     Sys (SysOpen a 0) (\<lambda>fd.
       if fd < 0 then printf 1 (''wc: cannot open %s'' @ [newline]) [Astr (Some a)] Exited
       else wc n fd a (Sys (SysClose fd) (\<lambda>_. wc_files n as)))"

definition wc_main :: "nat \<Rightarrow> string list \<Rightarrow> uproc" where
  "wc_main n argv = (if length argv \<le> 1 then wc n 0 [] Exited else wc_files n (tl argv))"

fun kill_loop :: "string list \<Rightarrow> uproc" where
  "kill_loop [] = Exited"
| "kill_loop (a # as) = Sys (SysKill (sint (ulib_atoi a))) (\<lambda>_. kill_loop as)"

definition kill_main :: "string list \<Rightarrow> uproc" where
  "kill_main argv =
     (if length argv < 2 then printf 2 (''usage: kill pid...'' @ [newline]) [] Exited
      else kill_loop (tl argv))"

definition ln_main :: "string list \<Rightarrow> uproc" where
  "ln_main argv =
     (if length argv \<noteq> 3 then printf 2 (''Usage: ln old new'' @ [newline]) [] Exited
      else Sys (SysLink (argv ! 1) (argv ! 2)) (\<lambda>r.
        if r < 0 then
          printf 2 (''link %s %s: failed'' @ [newline]) [Astr (Some (argv ! 1)), Astr (Some (argv ! 2))] Exited
        else Exited))"

fun mkdir_loop :: "string list \<Rightarrow> uproc" where
  "mkdir_loop [] = Exited"
| "mkdir_loop (a # as) =
     Sys (SysMkdir a) (\<lambda>r.
       if r < 0 then printf 2 (''mkdir: %s failed to create'' @ [newline]) [Astr (Some a)] Exited
       else mkdir_loop as)"

definition mkdir_main :: "string list \<Rightarrow> uproc" where
  "mkdir_main argv =
     (if length argv < 2 then printf 2 (''Usage: mkdir files...'' @ [newline]) [] Exited
      else mkdir_loop (tl argv))"

fun rm_loop :: "string list \<Rightarrow> uproc" where
  "rm_loop [] = Exited"
| "rm_loop (a # as) =
     Sys (SysUnlink a) (\<lambda>r.
       if r < 0 then printf 2 (''rm: %s failed to delete'' @ [newline]) [Astr (Some a)] Exited
       else rm_loop as)"

definition rm_main :: "string list \<Rightarrow> uproc" where
  "rm_main argv =
     (if length argv < 2 then printf 2 (''Usage: rm files...'' @ [newline]) [] Exited
      else rm_loop (tl argv))"

text \<open>\<open>init\<close>: \<open>init_wait\<close> is the inner loop, which collects orphans until its shell has ended.\<close>

fun init_wait :: "nat \<Rightarrow> int \<Rightarrow> uproc \<Rightarrow> uproc" where
  "init_wait 0 pid k = Stuck"
| "init_wait (Suc n) pid k =
     Sys SysWait (\<lambda>wpid.
       if wpid \<ge> 0 \<and> wpid \<noteq> pid then printf 1 (''zombie!'' @ [newline]) [] (init_wait n pid k) else k)"

fun init_loop :: "nat \<Rightarrow> nat \<Rightarrow> uproc" where
  "init_loop m 0 = Stuck"
| "init_loop m (Suc n) =
     printf 1 (''init: starting sh'' @ [newline]) []
       (Sys SysFork (\<lambda>pid.
          if pid < 0 then printf 1 (''init: fork failed'' @ [newline]) [] Exited
          else if pid = 0 then
            Sys (SysExec ''sh'' [''sh'']) (\<lambda>_. printf 1 (''init: exec sh failed'' @ [newline]) [] Exited)
          else init_wait m pid (init_loop m n)))"

definition init_main :: "nat \<Rightarrow> nat \<Rightarrow> uproc" where
  "init_main m n =
     (let go = Sys (SysDup 0) (\<lambda>_. Sys (SysDup 0) (\<lambda>_. init_loop m n)) in
      Sys (SysOpen ''console'' 2) (\<lambda>r.
        if r < 0 then Sys (SysMknod ''console'' 1 1) (\<lambda>_. Sys (SysOpen ''console'' 2) (\<lambda>_. go))
        else go))"

section \<open>Numbers\<close>

definition is_digit :: "char \<Rightarrow> bool" where
  "is_digit c \<longleftrightarrow> 48 \<le> (of_char c :: nat) \<and> (of_char c :: nat) \<le> 57"

lemma digits_decimal:
  "x < 10 \<Longrightarrow> is_digit (digits ! x) \<and> (of_char (digits ! x) :: uint32) = 48 + of_nat x"
proof -
  assume "x < 10"
  moreover have "\<forall>x \<in> set [0..<10]. is_digit (digits ! x) \<and> (of_char (digits ! x) :: uint32) = 48 + of_nat x"
    by code_simp
  ultimately show ?thesis by (auto simp del: upt_rec_numeral upt_Suc)
qed

lemma print_d_digits_are_digits: "c \<in> set (print_d_digits x) \<Longrightarrow> is_digit c"
proof (induction x rule: print_d_digits.induct)
  case (1 x)
  then show ?case
    by (subst (asm) (2) print_d_digits.simps) (auto simp: digits_decimal split: if_splits)
qed

lemma atoi_loop_snoc:
  "(\<And>c. c \<in> set xs \<Longrightarrow> is_digit c) \<Longrightarrow> is_digit d \<Longrightarrow>
     atoi_loop (xs @ [d]) n = atoi_loop xs n * 10 + of_char d - 48"
  by (induction xs arbitrary: n) (auto simp: is_digit_def)

lemma print_d_digits_rev:
  "rev (print_d_digits x) =
     (if x div 10 \<noteq> 0 then rev (print_d_digits (x div 10)) else []) @ [digits ! (x mod 10)]"
  by (subst print_d_digits.simps) simp

lemma atoi_digits: "ulib_atoi (rev (print_d_digits x)) = of_nat x"
proof (induction x rule: print_d_digits.induct)
  case (1 x)
  define xs where "xs = (if x div 10 \<noteq> 0 then rev (print_d_digits (x div 10)) else [])"
  have d: "is_digit (digits ! (x mod 10))" "(of_char (digits ! (x mod 10)) :: uint32) = 48 + of_nat (x mod 10)"
    using digits_decimal [of "x mod 10"] by simp_all
  have "atoi_loop xs 0 = of_nat (x div 10)"
    using 1 by (cases "x div 10 = 0") (auto simp: xs_def ulib_atoi_def)
  moreover have "c \<in> set xs \<Longrightarrow> is_digit c" for c
    by (auto simp: xs_def print_d_digits_are_digits split: if_splits)
  ultimately have "ulib_atoi (rev (print_d_digits x)) = of_nat (x div 10) * 10 + of_nat (x mod 10)"
    using atoi_loop_snoc [of xs, OF _ d(1), of 0] d(2) print_d_digits_rev [of x] by (simp add: ulib_atoi_def xs_def)
  also have "\<dots> = of_nat x" by (metis of_nat_add of_nat_mult of_nat_numeral div_mult_mod_eq)
  finally show ?case .
qed

lemma print_d_digits_length: "x < 10 ^ Suc n \<Longrightarrow> length (print_d_digits x) \<le> Suc n"
proof (induction n arbitrary: x)
  case 0
  then show ?case by (subst print_d_digits.simps) simp
next
  case (Suc n)
  have "x div 10 < 10 ^ Suc n" using Suc.prems by (simp add: less_mult_imp_div_less mult.commute)
  then show ?case using Suc.IH by (subst print_d_digits.simps) auto
qed

text \<open>
  C21. \<open>print_d\<close> and \<open>atoi\<close> are inverse: reading back the decimal digits that \<open>printf\<close>'s \<open>%d\<close>
  writes for a non-negative \<open>int\<close> gives that number.
\<close>

theorem atoi_print_d:
  assumes "0 \<le> sint v"
  shows "ulib_atoi (print_d v) = v"
proof -
  have "of_nat (nat (sint v)) = v" using assms by simp
  then show ?thesis using assms atoi_digits [of "nat (sint v)"] by (simp add: print_d_def print_d_buf_def)
qed

theorem atoi_print_d_witness: "0 \<le> sint (1307 :: uint32) \<and> ulib_atoi (print_d 1307) = 1307"
  using atoi_print_d [of 1307] by simp

text \<open>
  C22. The buffer of \<open>print_d\<close> is large enough: for every 32-bit \<open>int\<close>, the most negative one
  included, at most eleven of its sixteen bytes are written.
\<close>

theorem print_d_fits: "length (print_d_buf v) \<le> 11"
proof -
  have "\<bar>sint v\<bar> \<le> 2 ^ 31"
    using sint_range_size [of v] by (simp add: word_size abs_le_iff)
  then have "nat \<bar>sint v\<bar> < 10 ^ Suc 9" by simp
  then have "length (print_d_digits (nat \<bar>sint v\<bar>)) \<le> 10"
    using print_d_digits_length [of "nat \<bar>sint v\<bar>" 9] by simp
  moreover have "length (if sint v < 0 then ''-'' else []) \<le> 1" by simp
  ultimately show ?thesis by (simp only: print_d_buf_def length_append)
qed

section \<open>Running a process\<close>

text \<open>
  A run of a single process: \<open>ins\<close> is what its successive reads return, the empty list being
  end of file; every write succeeds and \<open>open\<close> answers 3. The result is what was written, each
  write with its descriptor, and whether the process called \<open>exit\<close>.
\<close>

primrec run_io :: "uproc \<Rightarrow> string list \<Rightarrow> (int \<times> string) list \<times> bool" where
  "run_io Exited ins = ([], True)"
| "run_io Stuck ins = ([], False)"
| "run_io (Sys c k) ins =
     (case c of
        SysWrite fd s \<Rightarrow> (let (out, ok) = run_io (k (int (length s))) ins in ((fd, s) # out, ok))
      | SysOpen p m \<Rightarrow> run_io (k 3) ins
      | _ \<Rightarrow> run_io (k 0) ins)"
| "run_io (SysPipe k) ins = run_io (k (-1) 0 0) ins"
| "run_io (SysRead fd n k) ins =
     (case ins of [] \<Rightarrow> run_io (k 0 []) [] | s # ins \<Rightarrow> run_io (k (int (length s)) s) ins)"

definition written :: "int \<Rightarrow> (int \<times> string) list \<Rightarrow> string" where
  "written fd out = concat (map snd (filter (\<lambda>(d, s). d = fd) out))"

lemma written_simps [simp]:
  "written fd [] = []"
  "written fd ((d, s) # out) = (if d = fd then s else []) @ written fd out"
  by (auto simp: written_def)

lemma run_putcs [simp]:
  "run_io (putcs fd t k) ins = (map (\<lambda>c. (fd, [c])) t @ fst (run_io k ins), snd (run_io k ins))"
  by (induction t) (auto simp: putcs_def putc_def case_prod_unfold)

lemma written_putcs [simp]:
  "written fd (map (\<lambda>c. (d, [c])) t @ out) = (if d = fd then t else []) @ written fd out"
  by (induction t) auto

text \<open>
  \<open>cat\<close> copies: whatever sizes the reads return, what \<open>cat\<close> writes to descriptor 1 is the
  whole input, in order, and it then goes on with the rest of the program.
\<close>

theorem cat_copies:
  assumes "[] \<notin> set ins" "length ins < n"
  shows "written 1 (fst (run_io (cat n fd Exited) ins)) = concat ins \<and> snd (run_io (cat n fd Exited) ins)"
  using assms
proof (induction n arbitrary: ins)
  case (Suc n)
  then show ?case by (cases ins) (auto simp: case_prod_unfold)
qed simp

theorem cat_copies_witness:
  "[] \<notin> set [''ab'', ''c''] \<and> length [''ab'', ''c''] < 3 \<and>
   written 1 (fst (run_io (cat 3 0 Exited) [''ab'', ''c''])) = ''abc''"
  using cat_copies [of "[''ab'', ''c'']" 3 0] by simp

text \<open>The reference count: a word starts at a non-blank that follows a blank or the beginning.\<close>

fun word_starts :: "bool \<Rightarrow> string \<Rightarrow> nat" where
  "word_starts b [] = 0"
| "word_starts b (x # xs) = (if b \<and> \<not> wc_blank x then 1 else 0) + word_starts (wc_blank x) xs"

lemma wc_buf_append: "wc_buf (xs @ ys) s = wc_buf ys (wc_buf xs s)"
  by (induction xs arbitrary: s) (auto simp: Let_def)

lemma wc_buf_counts:
  "wl (wc_buf xs s) = wl s + of_nat (length (filter (\<lambda>x. x = newline) xs)) \<and>
   ww (wc_buf xs s) = ww s + of_nat (word_starts (\<not> inword s) xs) \<and>
   wcc (wc_buf xs s) = wcc s + of_nat (length xs)"
  by (induction xs arbitrary: s) (auto simp: Let_def wc_blank_def)

lemma wc_loop_run:
  assumes "[] \<notin> set ins" "length ins < n"
  shows "run_io (wc_loop n fd name s k) ins =
    run_io (printf 1 (''%d %d %d %s'' @ [newline])
      [Aint (wl (wc_buf (concat ins) s)), Aint (ww (wc_buf (concat ins) s)),
       Aint (wcc (wc_buf (concat ins) s)), Astr (Some name)] k) []"
  using assms
proof (induction n arbitrary: ins s)
  case (Suc n)
  then show ?case by (cases ins) (auto simp: wc_buf_append)
qed simp

text \<open>
  C23. \<open>wc\<close> counts right across buffer boundaries: however the reads split the input, it prints
  the number of newlines, of words and of characters of the whole input.
\<close>

theorem wc_counts:
  assumes "[] \<notin> set ins" "length ins < n"
  shows "written 1 (fst (run_io (wc n fd name Exited) ins)) =
    print_d (of_nat (length (filter (\<lambda>x. x = newline) (concat ins)))) @ '' '' @
    print_d (of_nat (word_starts True (concat ins))) @ '' '' @
    print_d (of_nat (length (concat ins))) @ '' '' @ name @ [newline]"
  using wc_loop_run [OF assms] wc_buf_counts [of "concat ins" "\<lparr>wl = 0, ww = 0, wcc = 0, inword = False\<rparr>"]
  by (simp add: wc_def printf_def)

theorem wc_counts_witness:
  "[] \<notin> set [''ab c'', ''d e''] \<and> length [''ab c'', ''d e''] < 3 \<and>
   written 1 (fst (run_io (wc 3 0 ''f'' Exited) [''ab c'', ''d e''])) = print_d 0 @ '' '' @ print_d 3 @ '' '' @ print_d 7 @ '' f'' @ [newline]"
  using wc_counts [of "[''ab c'', ''d e'']" 3 0 "''f''"] by (simp add: wc_blank_def)

end
