(* ===== verification/Spinlock.thy ===== *)
theory Spinlock
  imports Ptable
begin

text \<open>
  Spin locks on a multiprocessor, src/spinlock.c. The state holds the lock variables and the
  per-CPU fields \<open>ncli\<close> and \<open>intena\<close> of struct cpu (src/proc.h) with the interrupt flag. The
  routines are cut where another CPU can interleave: \<open>acquire\<close> is \<open>acq_enter\<close>, rounds of
  \<open>xchg\<close>, and \<open>acq_done\<close>; \<open>release\<close> is \<open>rel_enter\<close>, \<open>rel_store\<close> and \<open>popcli\<close>. The step
  relation \<open>mp_step\<close> interleaves them for any number of CPUs and locks. The last section
  relates the lock variables to the set of held locks in which the rest of the kernel is
  written.
\<close>

section \<open>Lock variables and interrupts\<close>

record lockvar =
  lk_locked :: bool
  lk_cpu :: "nat option"

record cpuvar =
  ncli :: int
  intena :: bool
  iflag :: bool

record mp_st =
  lks :: "lockid \<Rightarrow> lockvar"
  cpus :: "nat \<Rightarrow> cpuvar"

definition upd_cpu :: "nat \<Rightarrow> (cpuvar \<Rightarrow> cpuvar) \<Rightarrow> mp_st \<Rightarrow> mp_st" where
  "upd_cpu c f s = s\<lparr>cpus := (cpus s)(c := f (cpus s c))\<rparr>"

definition upd_lk :: "lockid \<Rightarrow> (lockvar \<Rightarrow> lockvar) \<Rightarrow> mp_st \<Rightarrow> mp_st" where
  "upd_lk l f s = s\<lparr>lks := (lks s)(l := f (lks s l))\<rparr>"

definition initlock :: "lockid \<Rightarrow> (mp_st, unit) kop" where
  "initlock l = modify (upd_lk l (\<lambda>_. \<lparr>lk_locked = False, lk_cpu = None\<rparr>))"

definition pushcli :: "nat \<Rightarrow> (mp_st, unit) kop" where
  "pushcli c = bnd (gets (\<lambda>s. iflag (cpus s c))) (\<lambda>eflags. steps
     [modify (upd_cpu c (iflag_update (\<lambda>_. False))),
      modify (upd_cpu c (\<lambda>u. if ncli u = 0 then u\<lparr>intena := eflags\<rparr> else u)),
      modify (upd_cpu c (ncli_update (\<lambda>n. n + 1)))])"

definition popcli :: "nat \<Rightarrow> (mp_st, unit) kop" where
  "popcli c = bnd (gets (\<lambda>s. iflag (cpus s c))) (\<lambda>eflags.
     thn (panic_if eflags ''popcli - interruptible'')
     (thn (modify (upd_cpu c (ncli_update (\<lambda>n. n - 1))))
     (bnd (gets (\<lambda>s. cpus s c)) (\<lambda>u. thn (panic_if (ncli u < 0) ''popcli'')
       (only_if (ncli u = 0 \<and> intena u) (modify (upd_cpu c (iflag_update (\<lambda>_. True)))))))))"

definition holding :: "lockid \<Rightarrow> nat \<Rightarrow> mp_st \<Rightarrow> bool" where
  "holding l c s \<longleftrightarrow> lk_locked (lks s l) \<and> lk_cpu (lks s l) = Some c"

definition acq_enter :: "nat \<Rightarrow> lockid \<Rightarrow> (mp_st, unit) kop" where
  "acq_enter c l = thn (pushcli c) (bnd (gets (holding l c)) (\<lambda>h. panic_if h ''acquire''))"

definition xchg :: "lockid \<Rightarrow> bool \<Rightarrow> (mp_st, bool) kop" where
  "xchg l v = bnd (gets (\<lambda>s. lk_locked (lks s l))) (\<lambda>old.
     thn (modify (upd_lk l (lk_locked_update (\<lambda>_. v)))) (ret old))"

definition acq_done :: "nat \<Rightarrow> lockid \<Rightarrow> (mp_st, unit) kop" where
  "acq_done c l = modify (upd_lk l (lk_cpu_update (\<lambda>_. Some c)))"

definition rel_enter :: "nat \<Rightarrow> lockid \<Rightarrow> (mp_st, unit) kop" where
  "rel_enter c l = bnd (gets (holding l c)) (\<lambda>h. thn (panic_if (\<not> h) ''release'')
     (modify (upd_lk l (lk_cpu_update (\<lambda>_. None)))))"

definition rel_store :: "lockid \<Rightarrow> (mp_st, unit) kop" where
  "rel_store l = modify (upd_lk l (lk_locked_update (\<lambda>_. False)))"

text \<open>
  The two routines run by one CPU alone. A CPU that finds the lock taken keeps spinning in
  the unchanged state until another CPU runs, which is the outcome \<open>Switched\<close>.
\<close>

definition acquire_mp :: "nat \<Rightarrow> lockid \<Rightarrow> (mp_st, unit) kop" where
  "acquire_mp c l = thn (acq_enter c l) (bnd (xchg l True) (\<lambda>old.
     if old then Switched else acq_done c l))"

definition release_mp :: "nat \<Rightarrow> lockid \<Rightarrow> (mp_st, unit) kop" where
  "release_mp c l = thn (rel_enter c l) (thn (rel_store l) (popcli c))"

text \<open>\<open>getstackpcs\<close> follows the chain of saved frame pointers, at most ten of them.\<close>

fun walk_frames :: "nat \<Rightarrow> mem \<Rightarrow> addr \<Rightarrow> addr list" where
  "walk_frames 0 m rbp = []"
| "walk_frames (Suc n) m rbp =
     (if rbp = 0 \<or> rbp < 0xFFFF800000000000 \<or> rbp = 0xFFFFFFFF then []
      else load64 m (rbp + 8) # walk_frames n m (load64 m rbp))"

definition getstackpcs :: "mem \<Rightarrow> addr \<Rightarrow> addr list" where
  "getstackpcs m rbp = (let pcs = walk_frames 10 m rbp in pcs @ replicate (10 - length pcs) 0)"

section \<open>CPUs in parallel\<close>

text \<open>
  Where a CPU is: outside the lock routines, spinning in \<open>acquire\<close>, past the successful
  \<open>xchg\<close>, in \<open>release\<close> before the store of 0, or before its \<open>popcli\<close>. Outside the routines,
  and with no \<open>pushcli\<close> pending, it may enable and disable interrupts.
\<close>

datatype lockpc = Running | Spinning lockid | Acquired lockid | Releasing lockid | Released

type_synonym mp_conf = "mp_st \<times> (nat \<Rightarrow> lockpc)"

inductive mp_step :: "mp_conf \<Rightarrow> mp_conf \<Rightarrow> bool" where
  enter: "pc c = Running \<Longrightarrow> acq_enter c l s = Done () t \<Longrightarrow> mp_step (s, pc) (t, pc(c := Spinning l))"
| spin: "pc c = Spinning l \<Longrightarrow> xchg l True s = Done True t \<Longrightarrow> mp_step (s, pc) (t, pc)"
| got: "pc c = Spinning l \<Longrightarrow> xchg l True s = Done False t \<Longrightarrow> mp_step (s, pc) (t, pc(c := Acquired l))"
| own: "pc c = Acquired l \<Longrightarrow> acq_done c l s = Done () t \<Longrightarrow> mp_step (s, pc) (t, pc(c := Running))"
| leave: "pc c = Running \<Longrightarrow> rel_enter c l s = Done () t \<Longrightarrow> mp_step (s, pc) (t, pc(c := Releasing l))"
| store: "pc c = Releasing l \<Longrightarrow> rel_store l s = Done () t \<Longrightarrow> mp_step (s, pc) (t, pc(c := Released))"
| pop: "pc c = Released \<Longrightarrow> popcli c s = Done () t \<Longrightarrow> mp_step (s, pc) (t, pc(c := Running))"
| sti: "pc c = Running \<Longrightarrow> ncli (cpus s c) = 0 \<Longrightarrow> mp_step (s, pc) (upd_cpu c (iflag_update (\<lambda>_. b)) s, pc)"

inductive_cases mp_stepE: "mp_step c c'"

definition mp_init :: mp_conf where
  "mp_init = (\<lparr>lks = (\<lambda>_. \<lparr>lk_locked = False, lk_cpu = None\<rparr>),
     cpus = (\<lambda>_. \<lparr>ncli = 0, intena = False, iflag = False\<rparr>)\<rparr>, \<lambda>_. Running)"

text \<open>A CPU owns a lock from its successful \<open>xchg\<close> to its store of 0.\<close>

definition owns :: "mp_conf \<Rightarrow> nat \<Rightarrow> lockid \<Rightarrow> bool" where
  "owns k c l \<longleftrightarrow> snd k c = Acquired l \<or> snd k c = Releasing l \<or> lk_cpu (lks (fst k) l) = Some c"

text \<open>The locks a CPU holds, as the rest of the kernel sees them.\<close>

definition held_by :: "nat \<Rightarrow> mp_st \<Rightarrow> lk_st" where
  "held_by c s = \<lparr>held = {l. holding l c s}\<rparr>"

section \<open>The invariant\<close>

definition owned_vars :: "mp_st \<Rightarrow> nat \<Rightarrow> lockid set" where
  "owned_vars s c = {l. lk_cpu (lks s l) = Some c}"

definition mp_lock_inv :: "mp_conf \<Rightarrow> bool" where
  "mp_lock_inv k \<longleftrightarrow>
     (\<forall>l. lk_locked (lks (fst k) l) \<longleftrightarrow> (\<exists>c. owns k c l)) \<and>
     (\<forall>l c c'. owns k c l \<longrightarrow> owns k c' l \<longrightarrow> c = c') \<and>
     (\<forall>l c. snd k c = Acquired l \<or> snd k c = Releasing l \<longrightarrow> lk_cpu (lks (fst k) l) = None)"

definition mp_cpu_inv :: "mp_conf \<Rightarrow> bool" where
  "mp_cpu_inv k \<longleftrightarrow> (\<forall>c. finite (owned_vars (fst k) c) \<and>
     ncli (cpus (fst k) c) = int (card (owned_vars (fst k) c)) + (if snd k c = Running then 0 else 1) \<and>
     (0 < ncli (cpus (fst k) c) \<longrightarrow> \<not> iflag (cpus (fst k) c)))"

lemmas mp_run_simps = acq_enter_def xchg_def acq_done_def rel_enter_def rel_store_def pushcli_def
  popcli_def kop_simps upd_cpu_def upd_lk_def

lemma acq_enter_run:
  "acq_enter c l s = Done () t \<longleftrightarrow> \<not> holding l c s \<and>
     t = s\<lparr>cpus := (cpus s)(c := \<lparr>ncli = ncli (cpus s c) + 1,
       intena = (if ncli (cpus s c) = 0 then iflag (cpus s c) else intena (cpus s c)), iflag = False\<rparr>)\<rparr>"
  by (cases "cpus s c") (auto simp: mp_run_simps holding_def split: if_splits)

lemma popcli_run:
  "popcli c s = Done () t \<longleftrightarrow> \<not> iflag (cpus s c) \<and> 1 \<le> ncli (cpus s c) \<and>
     t = s\<lparr>cpus := (cpus s)(c := (cpus s c)\<lparr>ncli := ncli (cpus s c) - 1,
       iflag := ncli (cpus s c) = 1 \<and> intena (cpus s c)\<rparr>)\<rparr>"
  by (cases "cpus s c") (auto simp: mp_run_simps split: if_splits)

lemma xchg_spin: "xchg l True s = Done True t \<longleftrightarrow> lk_locked (lks s l) \<and> t = s"
proof -
  have "upd_lk l (lk_locked_update (\<lambda>_. True)) s = s" if "lk_locked (lks s l)"
  proof -
    have "(lks s l)\<lparr>lk_locked := True\<rparr> = lks s l" using that by (cases "lks s l") simp
    then show ?thesis by (simp add: upd_lk_def)
  qed
  then show ?thesis by (auto simp: xchg_def kop_simps)
qed

lemma mp_step_lock_inv:
  assumes "mp_step k k'" and "mp_lock_inv k"
  shows "mp_lock_inv k'"
  using assms
proof (induction rule: mp_step.induct)
  case (enter pc c l s t)
  have "owns (t, pc(c := Spinning l)) = owns (s, pc)"
    using enter(1,2) by (auto simp: owns_def acq_enter_run fun_eq_iff)
  with enter show ?case by (auto simp: mp_lock_inv_def acq_enter_run)
next
  case (spin pc c l s t)
  then show ?case by (simp add: xchg_spin)
next
  case (got pc c l s t)
  then have t: "t = upd_lk l (lk_locked_update (\<lambda>_. True)) s" and free: "\<not> lk_locked (lks s l)"
    by (auto simp: xchg_def kop_simps)
  have "owns (t, pc(c := Acquired l)) d m \<longleftrightarrow> owns (s, pc) d m \<or> d = c \<and> m = l" for d m
    using got(1) by (auto simp: owns_def t upd_lk_def)
  moreover have "lk_cpu (lks s l) = None"
    using got(3) free by (cases "lk_cpu (lks s l)") (auto simp: mp_lock_inv_def owns_def)
  ultimately show ?case using got(1,3) free by (auto simp: mp_lock_inv_def t upd_lk_def)
next
  case (own pc c l s t)
  then have t: "t = upd_lk l (lk_cpu_update (\<lambda>_. Some c)) s" by (simp add: acq_done_def kop_simps)
  have "owns (t, pc(c := Running)) = owns (s, pc)"
    using own(1,3) by (auto simp: owns_def t upd_lk_def fun_eq_iff mp_lock_inv_def)
  with own show ?case by (auto simp: mp_lock_inv_def t upd_lk_def) (metis owns_def snd_conv)+
next
  case (leave pc c l s t)
  then have t: "t = upd_lk l (lk_cpu_update (\<lambda>_. None)) s" and h: "holding l c s"
    by (auto simp: rel_enter_def kop_simps split: if_splits)
  have "owns (t, pc(c := Releasing l)) = owns (s, pc)"
    using leave(1) h by (auto simp: owns_def t upd_lk_def fun_eq_iff holding_def)
  with leave show ?case by (auto simp: mp_lock_inv_def t upd_lk_def)
next
  case (store pc c l s t)
  then have t: "t = upd_lk l (lk_locked_update (\<lambda>_. False)) s" by (simp add: rel_store_def kop_simps)
  have "owns (t, pc(c := Released)) d m \<longleftrightarrow> owns (s, pc) d m \<and> \<not> (d = c \<and> m = l)" for d m
    using store(1,3) by (auto simp: owns_def t upd_lk_def mp_lock_inv_def)
  with store show ?case
    by (auto simp: mp_lock_inv_def t upd_lk_def) (metis owns_def snd_conv)+
next
  case (pop pc c s t)
  have "owns (t, pc(c := Running)) = owns (s, pc)"
    using pop(1,2) by (auto simp: owns_def popcli_run fun_eq_iff)
  with pop show ?case by (auto simp: mp_lock_inv_def popcli_run)
next
  case (sti pc c s b)
  have "owns (upd_cpu c (iflag_update (\<lambda>_. b)) s, pc) = owns (s, pc)"
    by (auto simp: owns_def upd_cpu_def fun_eq_iff)
  with sti show ?case by (simp add: mp_lock_inv_def upd_cpu_def)
qed

lemma owned_vars_upd:
  "owned_vars (upd_lk l (lk_cpu_update (\<lambda>_. v)) s) d =
     (if v = Some d then insert l (owned_vars s d) else owned_vars s d - {l})"
  by (auto simp: owned_vars_def upd_lk_def)

lemma owned_vars_frame [simp]:
  "owned_vars (upd_lk l (lk_locked_update f) s) = owned_vars s"
  "owned_vars (s\<lparr>cpus := us\<rparr>) = owned_vars s"
  by (auto simp: owned_vars_def upd_lk_def fun_eq_iff)

lemma mp_step_cpu_inv:
  assumes "mp_step k k'" and "mp_lock_inv k" and "mp_cpu_inv k"
  shows "mp_cpu_inv k'"
  using assms
proof (induction rule: mp_step.induct)
  case (enter pc c l s t)
  then show ?case by (auto simp: mp_cpu_inv_def acq_enter_run)
next
  case (spin pc c l s t)
  then show ?case by (simp add: xchg_spin)
next
  case (got pc c l s t)
  then have t: "t = upd_lk l (lk_locked_update (\<lambda>_. True)) s" by (auto simp: xchg_def kop_simps)
  with got show ?case by (auto simp: mp_cpu_inv_def) (simp_all add: upd_lk_def)
next
  case (own pc c l s t)
  then have t: "t = upd_lk l (lk_cpu_update (\<lambda>_. Some c)) s" by (simp add: acq_done_def kop_simps)
  have "lk_cpu (lks s l) = None" using own(1,3) by (auto simp: mp_lock_inv_def)
  then have "l \<notin> owned_vars s d" for d by (simp add: owned_vars_def)
  then have ov: "owned_vars t d = (if d = c then insert l (owned_vars s c) else owned_vars s d)"
    "l \<notin> owned_vars s d" for d
    by (auto simp: t owned_vars_upd)
  moreover have "cpus t = cpus s" by (simp add: t upd_lk_def)
  ultimately show ?case using own(1,4) by (auto simp: mp_cpu_inv_def)
next
  case (leave pc c l s t)
  then have t: "t = upd_lk l (lk_cpu_update (\<lambda>_. None)) s" and h: "holding l c s"
    by (auto simp: rel_enter_def kop_simps split: if_splits)
  have l: "l \<in> owned_vars s c" "\<And>d. d \<noteq> c \<Longrightarrow> l \<notin> owned_vars s d"
    using h by (auto simp: owned_vars_def holding_def)
  have fin: "finite (owned_vars s c)" using leave(4) by (simp add: mp_cpu_inv_def)
  have "cpus t = cpus s" by (simp add: t upd_lk_def)
  moreover have "owned_vars t d = (if d = c then owned_vars s c - {l} else owned_vars s d)" for d
    using l(2) by (auto simp: t owned_vars_upd)
  moreover have "int (card (owned_vars s c - {l})) = int (card (owned_vars s c)) - 1"
    using l(1) fin card_gt_0_iff [of "owned_vars s c"] by (auto simp: of_nat_diff)
  ultimately show ?case using leave(1,4) by (auto simp: mp_cpu_inv_def)
next
  case (store pc c l s t)
  then have t: "t = upd_lk l (lk_locked_update (\<lambda>_. False)) s" by (simp add: rel_store_def kop_simps)
  with store show ?case by (auto simp: mp_cpu_inv_def) (simp_all add: upd_lk_def)
next
  case (pop pc c s t)
  then show ?case by (auto simp: mp_cpu_inv_def popcli_run)
next
  case (sti pc c s b)
  then show ?case by (auto simp: mp_cpu_inv_def upd_cpu_def)
qed

lemma mp_reach_inv:
  assumes "mp_step\<^sup>*\<^sup>* mp_init k"
  shows "mp_lock_inv k \<and> mp_cpu_inv k"
  using assms
proof (induction rule: rtranclp_induct)
  case base
  show ?case by (simp add: mp_init_def mp_lock_inv_def mp_cpu_inv_def owns_def owned_vars_def)
next
  case (step k k')
  then show ?case using mp_step_lock_inv mp_step_cpu_inv by blast
qed

text \<open>CPU 0 takes the log lock and CPU 1 spins on it.\<close>

lemma mp_contended:
  "\<exists>s pc. mp_step\<^sup>*\<^sup>* mp_init (s, pc) \<and> pc 0 = Acquired LkLog \<and> pc 1 = Spinning LkLog \<and> lk_cpu (lks s LkLog) = None"
proof -
  obtain s0 pc0 where init: "mp_init = (s0, pc0)" by (cases mp_init)
  then have 0: "pc0 = (\<lambda>_. Running)" "\<And>l c. \<not> holding l c s0" "\<not> lk_locked (lks s0 LkLog)" "lk_cpu (lks s0 LkLog) = None"
    by (auto simp: mp_init_def holding_def)
  obtain s1 where s1: "acq_enter 0 LkLog s0 = Done () s1" "lks s1 = lks s0"
    using 0(2) by (auto simp: acq_enter_run)
  then have h1: "\<not> holding LkLog 1 s1" using 0(2) by (simp add: holding_def)
  obtain s2 where s2: "acq_enter 1 LkLog s1 = Done () s2" "lks s2 = lks s1"
    using h1 by (auto simp: acq_enter_run)
  obtain s3 where s3: "xchg LkLog True s2 = Done False s3" "lk_cpu (lks s3 LkLog) = None"
    using s1 s2 0 by (simp add: xchg_def kop_simps upd_lk_def)
  have "mp_step (s0, pc0) (s1, pc0(0 := Spinning LkLog))"
    using 0(1) s1 by (intro mp_step.enter) auto
  moreover have "mp_step (s1, pc0(0 := Spinning LkLog)) (s2, pc0(0 := Spinning LkLog, 1 := Spinning LkLog))"
    using 0(1) s2 by (intro mp_step.enter) auto
  moreover have "mp_step (s2, pc0(0 := Spinning LkLog, 1 := Spinning LkLog))
      (s3, (pc0(0 := Spinning LkLog, 1 := Spinning LkLog))(0 := Acquired LkLog))"
    using s3 by (intro mp_step.got) auto
  ultimately have "mp_step\<^sup>*\<^sup>* (s0, pc0) (s3, (pc0(0 := Spinning LkLog, 1 := Spinning LkLog))(0 := Acquired LkLog))"
    by (meson converse_rtranclp_into_rtranclp rtranclp.rtrancl_refl)
  then show ?thesis
    using s3(2) init
    by (intro exI [of _ s3] exI [of _ "(pc0(0 := Spinning LkLog, 1 := Spinning LkLog))(0 := Acquired LkLog)"]) simp
qed

section \<open>Properties\<close>

text \<open>
  C10. Mutual exclusion: in every interleaving of any number of CPUs, at most one CPU is past
  its successful \<open>xchg\<close> on a lock and not yet past the store that frees it, and the lock
  word is set exactly while there is such a CPU.
\<close>

theorem spinlock_mutual_exclusion:
  assumes "mp_step\<^sup>*\<^sup>* mp_init k"
  shows "(owns k c l \<longrightarrow> owns k d l \<longrightarrow> c = d) \<and> (lk_locked (lks (fst k) l) \<longleftrightarrow> (\<exists>e. owns k e l))"
  using mp_reach_inv [OF assms] unfolding mp_lock_inv_def by blast

theorem spinlock_mutual_exclusion_witness:
  "\<exists>k. mp_step\<^sup>*\<^sup>* mp_init k \<and> owns k 0 LkLog \<and> \<not> owns k 1 LkLog \<and> lk_locked (lks (fst k) LkLog)"
proof -
  obtain s pc where k: "mp_step\<^sup>*\<^sup>* mp_init (s, pc)" "pc 0 = Acquired LkLog" "lk_cpu (lks s LkLog) = None"
    using mp_contended by blast
  then have "owns (s, pc) 0 LkLog" by (simp add: owns_def)
  with spinlock_mutual_exclusion [OF k(1), of 0 LkLog 1] k(1) show ?thesis by auto
qed

text \<open>
  C11. Interrupts are off on a CPU as long as it holds a lock or is inside \<open>acquire\<close> or
  \<open>release\<close>, and the \<open>popcli\<close> with which \<open>release\<close> ends never panics.
\<close>

theorem spinlock_interrupts_off:
  assumes "mp_step\<^sup>*\<^sup>* mp_init (s, pc)"
  shows "(holding l c s \<or> pc c \<noteq> Running \<longrightarrow> \<not> iflag (cpus s c)) \<and>
    (pc c = Released \<longrightarrow> (\<exists>t. popcli c s = Done () t))"
proof -
  have inv: "mp_cpu_inv (s, pc)" using mp_reach_inv [OF assms] by simp
  have card: "0 < card (owned_vars s c)" if "holding l c s"
    using that inv by (auto simp: card_gt_0_iff mp_cpu_inv_def holding_def owned_vars_def)
  have "\<not> iflag (cpus s c)" if "holding l c s \<or> pc c \<noteq> Running"
    using that inv card by (auto simp: mp_cpu_inv_def)
  moreover have "1 \<le> ncli (cpus s c)" if "pc c = Released"
    using that inv by (simp add: mp_cpu_inv_def)
  ultimately show ?thesis by (auto simp: popcli_run)
qed

theorem spinlock_interrupts_off_witness:
  "\<exists>s pc. mp_step\<^sup>*\<^sup>* mp_init (s, pc) \<and> pc 1 = Spinning LkLog \<and> \<not> iflag (cpus s 1)"
proof -
  obtain s pc where k: "mp_step\<^sup>*\<^sup>* mp_init (s, pc)" "pc 1 = Spinning LkLog"
    using mp_contended by blast
  with spinlock_interrupts_off [OF k(1), of LkLog 1] show ?thesis by auto
qed

lemma pushcli_run:
  "pushcli c s = Done () (upd_cpu c (\<lambda>u. \<lparr>ncli = ncli u + 1,
     intena = (if ncli u = 0 then iflag u else intena u), iflag = False\<rparr>) s)"
  by (cases "cpus s c") (auto simp: pushcli_def kop_simps upd_cpu_def)

lemma pushes_run:
  assumes "0 \<le> ncli (cpus s c)"
  shows "steps (replicate (Suc n) (pushcli c)) s = Done () (upd_cpu c (\<lambda>u. \<lparr>ncli = ncli u + int (Suc n),
     intena = (if ncli u = 0 then iflag u else intena u), iflag = False\<rparr>) s)"
  using assms
proof (induction n arbitrary: s)
  case 0
  then show ?case by (simp add: kop_simps thn_Done [OF pushcli_run])
next
  case (Suc n)
  show ?case
    unfolding replicate_Suc [of "Suc n"] steps.simps thn_Done [OF pushcli_run]
    using Suc.prems by (subst Suc.IH) (auto simp: upd_cpu_def algebra_simps)
qed

lemma pops_run:
  assumes "int (Suc n) \<le> ncli (cpus s c)" and "\<not> iflag (cpus s c)"
  shows "steps (replicate (Suc n) (popcli c)) s = Done () (upd_cpu c (\<lambda>u. u\<lparr>ncli := ncli u - int (Suc n),
     iflag := ncli u = int (Suc n) \<and> intena u\<rparr>) s)"
  using assms
proof (induction n arbitrary: s)
  case 0
  then have "popcli c s = Done () (upd_cpu c (\<lambda>u. u\<lparr>ncli := ncli u - 1, iflag := ncli u = 1 \<and> intena u\<rparr>) s)"
    by (simp add: popcli_run upd_cpu_def)
  then show ?case by (simp add: kop_simps thn_Done)
next
  case (Suc n)
  then have p: "popcli c s = Done () (upd_cpu c (\<lambda>u. u\<lparr>ncli := ncli u - 1, iflag := ncli u = 1 \<and> intena u\<rparr>) s)"
    by (simp add: popcli_run upd_cpu_def)
  show ?case
    unfolding replicate_Suc [of "Suc n"] steps.simps thn_Done [of "popcli c", OF p]
    using Suc.prems by (subst Suc.IH) (auto simp: upd_cpu_def diff_diff_eq)
qed

lemma steps_append: "steps (ms @ ns) s = thn (steps ms) (steps ns) s"
  by (induction ms arbitrary: s) (auto simp: kop_simps thn_def bnd_def split: outcome.splits)

text \<open>
  C12. \<open>pushcli\<close> and \<open>popcli\<close> nest: any number of them, matched, leaves the CPU's interrupt
  flag and nesting depth as they were and touches no other CPU and no lock.
\<close>

theorem pushcli_popcli_nest:
  assumes "0 \<le> ncli (cpus s c)" and "0 < ncli (cpus s c) \<longrightarrow> \<not> iflag (cpus s c)"
  shows "\<exists>t. steps (replicate n (pushcli c) @ replicate n (popcli c)) s = Done () t \<and>
    iflag (cpus t c) = iflag (cpus s c) \<and> ncli (cpus t c) = ncli (cpus s c) \<and>
    lks t = lks s \<and> (\<forall>d. d \<noteq> c \<longrightarrow> cpus t d = cpus s d)"
proof (cases n)
  case 0
  then show ?thesis by (simp add: kop_simps)
next
  case (Suc m)
  show ?thesis
    unfolding Suc steps_append thn_Done [of "steps (replicate (Suc m) (pushcli c))", OF pushes_run [OF assms(1)]]
    using assms by (subst pops_run) (auto simp: upd_cpu_def)
qed

theorem pushcli_popcli_nest_witness:
  "\<exists>t. steps (replicate 2 (pushcli 1) @ replicate 2 (popcli 1))
      (upd_cpu 1 (iflag_update (\<lambda>_. True)) (fst mp_init)) = Done () t \<and> iflag (cpus t 1)"
  using pushcli_popcli_nest [of "upd_cpu 1 (iflag_update (\<lambda>_. True)) (fst mp_init)" 1 2]
  by (auto simp: mp_init_def upd_cpu_def)

text \<open>
  C13. The set of held locks in which the kernel is modelled is a faithful view of the lock
  variables: on a CPU that no other CPU competes with for the lock, \<open>acquire\<close> and
  \<open>release\<close> panic exactly when the operations on the set do, with the same message, and
  otherwise return with the same set held.
\<close>

theorem spinlock_refines_held:
  assumes "\<not> lk_locked (lks s l) \<or> holding l c s"
    and "holding l c s \<longrightarrow> 1 \<le> ncli (cpus s c) \<and> \<not> iflag (cpus s c)"
  shows "(case acquire l (held_by c s) of
        Done x h \<Rightarrow> \<exists>t. acquire_mp c l s = Done () t \<and> held_by c t = h
      | Panicked e \<Rightarrow> acquire_mp c l s = Panicked e
      | Switched h \<Rightarrow> False) \<and>
     (case release l (held_by c s) of
        Done x h \<Rightarrow> \<exists>t. release_mp c l s = Done () t \<and> held_by c t = h
      | Panicked e \<Rightarrow> release_mp c l s = Panicked e
      | Switched h \<Rightarrow> False)"
proof (cases "holding l c s")
  case True
  let ?s2 = "upd_lk l (\<lambda>v. v\<lparr>lk_cpu := None, lk_locked := False\<rparr>) s"
  have "release_mp c l s = popcli c ?s2"
    using True by (simp add: release_mp_def rel_enter_def rel_store_def kop_simps upd_lk_def)
  moreover have "iflag (cpus ?s2 c) = iflag (cpus s c)" "ncli (cpus ?s2 c) = ncli (cpus s c)"
    by (simp_all add: upd_lk_def)
  ultimately obtain t where "release_mp c l s = Done () t" "lks t = lks ?s2"
    using assms(2) True popcli_run [of c ?s2] by fastforce
  moreover from this have "held_by c t = \<lparr>held = {m. holding m c s} - {l}\<rparr>"
    by (auto simp: held_by_def holding_def upd_lk_def)
  ultimately show ?thesis
    using True by (simp add: held_by_def kop_simps acquire_mp_def acq_enter_def pushcli_def thn_assoc)
      (simp add: holding_def upd_cpu_def)
next
  case False
  then show ?thesis
    using assms(1)
    by (auto simp: held_by_def kop_simps acquire_mp_def release_mp_def holding_def mp_run_simps)
qed

theorem spinlock_refines_held_witness:
  "\<exists>t. acquire_mp 0 LkLog (fst mp_init) = Done () t \<and> held_by 0 t = \<lparr>held = {LkLog}\<rparr> \<and>
     release_mp 0 LkLog (fst mp_init) = Panicked ''release''"
  using spinlock_refines_held [of "fst mp_init" LkLog 0]
  by (auto simp: mp_init_def held_by_def holding_def kop_simps)

end
