(* ===== verification/Console.thy ===== *)
theory Console
  imports Inode Kbd Ring Userland Spinlock
begin

text \<open>
  The console: src/console.c, the serial port of src/uart.c, \<open>kbdintr\<close> of src/kbd.c and \<open>procdump\<close> of
  src/proc.c. The devices are part of the state: the bytes sent to the serial port, the CGA
  screen with the cursor registers of its controller, the scan codes and serial bytes not read
  yet. \<open>devsw\<close> holds which of the functions of this file \<open>consoleinit\<close> has stored. Of the ports
  that only set up the interrupt controllers nothing is modelled. A call that reaches \<open>sleep\<close>
  switches to the scheduler and goes on later with \<open>consoleread_resume\<close>. \<open>console.c\<close> has its own
  copies of the number printing of printf.c, which are modelled in theory \<open>Userland\<close>.
\<close>

section \<open>Model\<close>

abbreviation (input) INPUT_BUF :: nat where "INPUT_BUF \<equiv> 128"
abbreviation (input) BACKSPACE :: int where "BACKSPACE \<equiv> 0x100"
abbreviation (input) CONSOLE :: nat where "CONSOLE \<equiv> 1"

datatype devread = Fn_consoleread
datatype devwrite = Fn_consolewrite

record devsw_ent =
  dv_read :: "devread option"
  dv_write :: "devwrite option"

record cons_st = fs_st +
  cpu_panicked :: bool
  cons_locking :: bool
  crt :: "nat \<Rightarrow> ushort"
  crtc :: "nat \<Rightarrow> byte"
  uart :: bool
  uart_out :: "byte list"
  uart_in :: "byte list"
  kbd_in :: "byte list"
  kbd_shift :: uint32
  idt_loaded :: bool
  in_buf :: "byte list"
  in_r :: uint32
  in_w :: uint32
  in_e :: uint32
  devsw :: "nat \<Rightarrow> devsw_ent"

text \<open>
  src/uart.c. After \<open>uartputc\<close> has waited for the transmitter, or given up waiting, it sends the
  byte. \<open>status\<close> is what the line status register shows: \<open>0xFF\<close> when there is no serial port.
\<close>

definition uartputc :: "int \<Rightarrow> ('z cons_st_scheme, unit) kop" where
  "uartputc c = bnd (gets uart) (\<lambda>u. only_if u (modify (\<lambda>s. s\<lparr>uart_out := uart_out s @ [of_int c]\<rparr>)))"

definition uartearlyinit :: "byte \<Rightarrow> ('z cons_st_scheme, unit) kop" where
  "uartearlyinit status = only_if (status \<noteq> 0xFF) (thn (modify (\<lambda>s. s\<lparr>uart := True\<rparr>))
     (for_each (''xv6...'' @ [newline]) (\<lambda>c. uartputc (of_char c))))"

definition uartgetc :: "('z cons_st_scheme, int) kop" where
  "uartgetc = bnd (gets id) (\<lambda>s. if \<not> uart s then ret (- 1) else case uart_in s of
     [] \<Rightarrow> ret (- 1)
   | b # bs \<Rightarrow> thn (modify (\<lambda>s. s\<lparr>uart_in := bs\<rparr>)) (ret (uint b)))"

text \<open>
  The screen has 25 rows of 80 cells, the cursor position is in registers 14 and 15 of the
  controller. The argument of \<open>memset\<close> when scrolling is the number of cells below the new
  position, which is negative for a cursor past row 24: then \<open>memset\<close> runs over all of memory.
\<close>

definition cga_pos :: "'z cons_st_scheme \<Rightarrow> nat" where
  "cga_pos s = 256 * unat (crtc s 14) + unat (crtc s 15)"

definition cga_scroll :: "nat \<Rightarrow> (nat \<Rightarrow> ushort) \<Rightarrow> nat \<Rightarrow> ushort" where
  "cga_scroll pos t = (\<lambda>i. if pos \<le> i \<and> i < 24 * 80 then 0 else if i < 23 * 80 then t (i + 80) else t i)"

definition cga_place :: "int \<Rightarrow> nat \<Rightarrow> (nat \<Rightarrow> ushort) \<Rightarrow> nat \<times> (nat \<Rightarrow> ushort)" where
  "cga_place c pos t =
     (if c = 10 then (pos + (80 - pos mod 80), t)
      else if c = BACKSPACE then (pos - 1, t)
      else (pos + 1, t(pos := of_int (c mod 256) OR 0x0700)))"

definition cgaputc :: "int \<Rightarrow> ('z cons_st_scheme, unit) kop" where
  "cgaputc c = bnd (gets id) (\<lambda>s.
     let (pos, t) = cga_place c (cga_pos s) (crt s); up = (pos div 80 \<ge> 24); pos' = (if up then pos - 80 else pos)
     in thn (panic_if (up \<and> pos' > 24 * 80) ''trap'')
       (modify (\<lambda>s. s\<lparr>crt := (if up then cga_scroll pos' t else t)(pos' := 0x0720),
          crtc := (crtc s)(14 := of_nat (pos' div 256), 15 := of_nat pos')\<rparr>)))"

definition consputc :: "int \<Rightarrow> ('z cons_st_scheme, unit) kop" where
  "consputc c = bnd (gets cpu_panicked) (\<lambda>p. steps
     [panic_if p ''halt'',
      if c = BACKSPACE then steps [uartputc 8, uartputc 32, uartputc 8] else uartputc c,
      cgaputc c])"

text \<open>
  What \<open>cprintf\<close> prints; an argument of the wrong type or a missing one is undefined behaviour.
  Unlike \<open>printf\<close>, it does not know \<open>%c\<close>.
\<close>

fun cprintf_text :: "string \<Rightarrow> parg list \<Rightarrow> string option" where
  "cprintf_text [] as = Some []"
| "cprintf_text [c] as = Some (if c \<noteq> CHR ''%'' then [c] else [])"
| "cprintf_text (c # d # fmt) as =
     (if c \<noteq> CHR ''%'' then map_option ((#) c) (cprintf_text (d # fmt) as)
      else if d = CHR ''d'' then
        (case as of Aint v # as \<Rightarrow> map_option ((@) (print_d v)) (cprintf_text fmt as) | _ \<Rightarrow> None)
      else if d = CHR ''x'' then
        (case as of Aint v # as \<Rightarrow> map_option ((@) (print_x32 v)) (cprintf_text fmt as) | _ \<Rightarrow> None)
      else if d = CHR ''p'' then
        (case as of Aaddr v # as \<Rightarrow> map_option ((@) (print_x64 v)) (cprintf_text fmt as) | _ \<Rightarrow> None)
      else if d = CHR ''s'' then
        (case as of
           Astr s # as \<Rightarrow>
             map_option ((@) (case s of None \<Rightarrow> ''(null)'' | Some s \<Rightarrow> s)) (cprintf_text fmt as)
         | _ \<Rightarrow> None)
      else if d = CHR ''%'' then map_option ((#) CHR ''%'') (cprintf_text fmt as)
      else map_option (\<lambda>t. CHR ''%'' # d # t) (cprintf_text fmt as))"

definition cprintf :: "string option \<Rightarrow> parg list \<Rightarrow> ('z cons_st_scheme, unit) kop" where
  "cprintf fmt as = bnd (gets cons_locking) (\<lambda>locking. steps
     [only_if locking (acquire LkCons),
      case fmt of None \<Rightarrow> panic ''null fmt'' | Some f \<Rightarrow> (case cprintf_text f as of
        None \<Rightarrow> panic ''cprintf: argument''
      | Some t \<Rightarrow> for_each t (\<lambda>c. consputc (of_char c))),
      only_if locking (release LkCons)])"

definition state_name :: "procstate \<Rightarrow> string" where
  "state_name st = (case st of UNUSED \<Rightarrow> ''unused'' | EMBRYO \<Rightarrow> ''embryo'' | SLEEPING \<Rightarrow> ''sleep ''
     | RUNNABLE \<Rightarrow> ''runble'' | RUNNING \<Rightarrow> ''run   '' | ZOMBIE \<Rightarrow> ''zombie'')"

definition cstr :: "byte list \<Rightarrow> string" where
  "cstr bs = map (\<lambda>b. char_of (unat b)) (takeWhile (\<lambda>b. b \<noteq> 0) bs)"

definition procdump :: "('z cons_st_scheme, unit) kop" where
  "procdump = bnd (gets procs) (\<lambda>ps. for_each ps (\<lambda>p. only_if (p_state p \<noteq> UNUSED) (steps
     [cprintf (Some ''%d %s %s'') [Aint (of_int (p_pid p)), Astr (Some (state_name (p_state p))), Astr (Some (cstr (p_name p)))],
      only_if (p_state p = SLEEPING) (bnd (gets mem) (\<lambda>m.
        for_each (takeWhile (\<lambda>pc. pc \<noteq> 0) (getstackpcs m (load64 m (p_context p + 40) + 16))) (\<lambda>pc.
          cprintf (Some '' %p'') [Aaddr pc]))),
      cprintf (Some [newline]) []])))"

section \<open>Console input\<close>

text \<open>The characters of the line being edited are those from \<open>w\<close> up to \<open>e\<close>; \<open>kill_line\<close> is given their number.\<close>

fun kill_line :: "nat \<Rightarrow> ('z cons_st_scheme, unit) kop" where
  "kill_line 0 = ret ()"
| "kill_line (Suc n) = bnd (gets id) (\<lambda>s.
     only_if (in_e s \<noteq> in_w s \<and> in_buf s ! (unat (in_e s - 1) mod INPUT_BUF) \<noteq> 10) (steps
       [modify (\<lambda>s. s\<lparr>in_e := in_e s - 1\<rparr>), consputc BACKSPACE, kill_line n]))"

definition input_char :: "int \<Rightarrow> ('z cons_st_scheme, unit) kop" where
  "input_char c = bnd (gets id) (\<lambda>s.
     if c = 26 then modify (\<lambda>s. s\<lparr>idt_loaded := False\<rparr>)
     else if c = 16 then procdump
     else if c = 21 then kill_line (unat (in_e s - in_w s))
     else if c = 8 \<or> c = 0x7F then only_if (in_e s \<noteq> in_w s) (steps
       [modify (\<lambda>s. s\<lparr>in_e := in_e s - 1\<rparr>), consputc BACKSPACE])
     else only_if (c \<noteq> 0 \<and> unat (in_e s - in_r s) < INPUT_BUF)
       (let c = (if c = 13 then 10 else c) in steps
       [modify (\<lambda>s. s\<lparr>in_buf := (in_buf s)[unat (in_e s) mod INPUT_BUF := of_int c], in_e := in_e s + 1\<rparr>),
        consputc c,
        bnd (gets id) (\<lambda>s. only_if (c = 10 \<or> c = 4 \<or> in_e s = in_r s + of_nat INPUT_BUF) (steps
          [modify (\<lambda>s. s\<lparr>in_w := in_e s\<rparr>), wakeup ChInput]))]))"

text \<open>\<open>consoleintr\<close> on the characters its argument \<open>getc\<close> returns before the first negative value.\<close>

definition consoleintr :: "int list \<Rightarrow> ('z cons_st_scheme, unit) kop" where
  "consoleintr cs = steps [acquire LkInput, for_each cs input_char, release LkInput]"

definition kbdintr :: "('z cons_st_scheme, unit) kop" where
  "kbdintr = bnd (gets id) (\<lambda>s. let (cs, shift) = kbd_chars (kbd_in s) (kbd_shift s) in steps
     [modify (\<lambda>s. s\<lparr>kbd_in := [], kbd_shift := shift\<rparr>), consoleintr cs])"

definition uartintr :: "('z cons_st_scheme, unit) kop" where
  "uartintr = bnd (gets id) (\<lambda>s. if \<not> uart s then consoleintr [] else steps
     [modify (\<lambda>s. s\<lparr>uart_in := []\<rparr>), consoleintr (map uint (uart_in s))])"

text \<open>
  \<open>consoleread\<close> of \<open>target\<close> bytes, of which \<open>n\<close> are left; the value and the bytes copied out. A
  negative count reads nothing.
\<close>

definition consoleread_end :: "nat \<Rightarrow> nat \<Rightarrow> nat \<Rightarrow> byte list \<Rightarrow> ('z cons_st_scheme, int \<times> byte list) kop" where
  "consoleread_end ip target n bs =
     thn (release LkInput) (thn (ilock (Some ip)) (ret (int target - int n, bs)))"

fun consoleread_loop :: "nat \<Rightarrow> nat \<Rightarrow> nat \<Rightarrow> byte list \<Rightarrow> ('z cons_st_scheme, int \<times> byte list) kop" where
  "consoleread_loop ip target 0 bs = consoleread_end ip target 0 bs"
| "consoleread_loop ip target (Suc n) bs = bnd (gets id) (\<lambda>s.
     if in_r s = in_w s
     then bnd killed (\<lambda>k. if k then thn (release LkInput) (thn (ilock (Some ip)) (ret (- 1, bs)))
                          else thn (sleep ChInput LkInput) (ret (- 1, bs)))
     else let c = in_buf s ! (unat (in_r s) mod INPUT_BUF) in
       thn (modify (\<lambda>s. s\<lparr>in_r := in_r s + 1\<rparr>))
       (if c = 4 then thn (only_if (Suc n < target) (modify (\<lambda>s. s\<lparr>in_r := in_r s - 1\<rparr>)))
                        (consoleread_end ip target (Suc n) bs)
        else if c = 10 then consoleread_end ip target n (bs @ [c])
        else consoleread_loop ip target n (bs @ [c])))"

definition consoleread :: "nat \<Rightarrow> int \<Rightarrow> ('z cons_st_scheme, int \<times> byte list) kop" where
  "consoleread ip n = thn (iunlock (Some ip)) (thn (acquire LkInput) (consoleread_loop ip (nat n) (nat n) []))"

definition consoleread_resume :: "nat \<Rightarrow> nat \<Rightarrow> nat \<Rightarrow> byte list \<Rightarrow> ('z cons_st_scheme, int \<times> byte list) kop" where
  "consoleread_resume ip target n bs = thn (sleep_exit LkInput) (consoleread_loop ip target n bs)"

definition consolewrite :: "nat \<Rightarrow> byte list \<Rightarrow> ('z cons_st_scheme, int) kop" where
  "consolewrite ip buf = thn (steps
     [iunlock (Some ip), acquire LkCons, for_each buf (\<lambda>b. consputc (uint b)), release LkCons, ilock (Some ip)])
     (ret (int (length buf)))"

definition consoleinit :: "('z cons_st_scheme, unit) kop" where
  "consoleinit = modify (\<lambda>s. s\<lparr>devsw := (devsw s)(CONSOLE :=
     \<lparr>dv_read = Some Fn_consoleread, dv_write = Some Fn_consolewrite\<rparr>), cons_locking := True\<rparr>)"

end
