(* ===== verification/Fs.thy ===== *)
theory Fs
  imports Console
begin

text \<open>
  Files, directories and path names, src/fs.c from \<open>readi\<close> on. Data is read into and written from
  byte lists: what a call copies to its buffer is part of its value, what it copies from its
  buffer is an argument. A path or a name is the list of its bytes before the terminating zero;
  the buffer of \<open>DIRSIZ\<close> bytes for a path element is a list of 14 bytes.
\<close>

section \<open>Model\<close>

abbreviation (input) DIRSIZ :: nat where "DIRSIZ \<equiv> 14"
abbreviation (input) slash :: byte where "slash \<equiv> 0x2F"

text \<open>
  The rounds of the loops of \<open>readi\<close> and \<open>writei\<close>: for each the number of the file's block, the
  offset in it and the number of bytes.
\<close>

function chunks :: "nat \<Rightarrow> nat \<Rightarrow> (nat \<times> nat \<times> nat) list" where
  "chunks off n = (if n = 0 then []
     else let m = min n (BSIZE - off mod BSIZE) in (off div BSIZE, off mod BSIZE, m) # chunks (off + m) (n - m))"
  by pat_completeness auto

termination chunks
proof (relation "measure snd")
  fix off n m :: nat assume "n \<noteq> 0" "m = min n (BSIZE - off mod BSIZE)"
  then show "((off + m, n - m), (off, n)) \<in> measure snd" by (simp add: less_diff_conv2 min_def)
qed simp

declare chunks.simps [simp del]

definition read_chunk :: "nat \<Rightarrow> nat \<Rightarrow> nat \<Rightarrow> nat \<Rightarrow> ('z fs_st_scheme, byte list) kop" where
  "read_chunk i bn o' m = bnd (get_inode i) (\<lambda>ip. bnd (bmap i bn) (\<lambda>b. bnd (bread (i_dev ip) b) (\<lambda>bp.
     bnd (get_data bp) (\<lambda>d. thn (brelse bp) (ret (slice o' m d))))))"

fun read_chunks :: "nat \<Rightarrow> (nat \<times> nat \<times> nat) list \<Rightarrow> ('z fs_st_scheme, byte list) kop" where
  "read_chunks i [] = ret []"
| "read_chunks i ((bn, o', m) # cs) = bnd (read_chunk i bn o' m) (\<lambda>bs. bnd (read_chunks i cs) (\<lambda>rest. ret (bs @ rest)))"

definition readi :: "nat \<Rightarrow> nat \<Rightarrow> nat \<Rightarrow> ('z cons_st_scheme, int \<times> byte list) kop" where
  "readi i off n = bnd (get_inode i) (\<lambda>ip.
     if i_type ip = T_DEV then
       (if i_major ip < 0 \<or> i_major ip \<ge> int NDEV then ret (- 1, [])
        else bnd (gets devsw) (\<lambda>dv. case dv_read (dv (nat (i_major ip))) of
          None \<Rightarrow> ret (- 1, [])
        | Some Fn_consoleread \<Rightarrow> consoleread i (signed32 n)))
     else if off > i_size ip \<or> (off + n) mod 2 ^ 32 < off then ret (- 1, [])
     else let n = (if off + n > i_size ip then i_size ip - off else n)
       in bnd (read_chunks i (chunks off n)) (\<lambda>bs. ret (int n, bs)))"

definition write_chunk :: "nat \<Rightarrow> nat \<Rightarrow> nat \<Rightarrow> byte list \<Rightarrow> ('z fs_st_scheme, unit) kop" where
  "write_chunk i bn o' bs = bnd (get_inode i) (\<lambda>ip. bnd (bmap i bn) (\<lambda>b. bnd (bread (i_dev ip) b) (\<lambda>bp.
     steps [upd_data bp (put_at o' bs), log_write bp, brelse bp])))"

fun write_chunks :: "nat \<Rightarrow> (nat \<times> nat \<times> nat) list \<Rightarrow> byte list \<Rightarrow> ('z fs_st_scheme, unit) kop" where
  "write_chunks i [] src = ret ()"
| "write_chunks i ((bn, o', m) # cs) src = thn (write_chunk i bn o' (take m src)) (write_chunks i cs (drop m src))"

definition writei :: "nat \<Rightarrow> byte list \<Rightarrow> nat \<Rightarrow> ('z cons_st_scheme, int) kop" where
  "writei i src off = bnd (get_inode i) (\<lambda>ip. let n = length src in
     if i_type ip = T_DEV then
       (if i_major ip < 0 \<or> i_major ip \<ge> int NDEV then ret (- 1)
        else bnd (gets devsw) (\<lambda>dv. case dv_write (dv (nat (i_major ip))) of
          None \<Rightarrow> ret (- 1)
        | Some Fn_consolewrite \<Rightarrow> consolewrite i src))
     else if off > i_size ip \<or> (off + n) mod 2 ^ 32 < off then ret (- 1)
     else if off + n > MAXFILE * BSIZE then ret (- 1)
     else thn (write_chunks i (chunks off n) src)
       (thn (only_if (n > 0 \<and> off + n > i_size ip) (thn (upd_inode i (\<lambda>x. x\<lparr>i_size := off + n\<rparr>)) (iupdate i)))
       (ret (int n))))"

section \<open>Directories\<close>

text \<open>\<open>strncmp\<close> and \<open>strncpy\<close> on strings held in lists, which end where the list does or at a zero.\<close>

fun strncmp_list :: "nat \<Rightarrow> byte list \<Rightarrow> byte list \<Rightarrow> int" where
  "strncmp_list 0 p q = 0"
| "strncmp_list (Suc n) p q =
     (let a = (case p of [] \<Rightarrow> 0 | x # _ \<Rightarrow> x); b = (case q of [] \<Rightarrow> 0 | x # _ \<Rightarrow> x)
      in if a \<noteq> 0 \<and> a = b then strncmp_list n (tl p) (tl q) else uint a - uint b)"

definition strncpy_list :: "nat \<Rightarrow> byte list \<Rightarrow> byte list" where
  "strncpy_list n t = (let w = takeWhile (\<lambda>c. c \<noteq> 0) (take n t) in w @ replicate (n - length w) 0)"

definition namecmp :: "byte list \<Rightarrow> byte list \<Rightarrow> int" where
  "namecmp = strncmp_list DIRSIZ"

record dirent =
  de_inum :: nat
  de_name :: "byte list"

definition dirent_of :: "byte list \<Rightarrow> dirent" where
  "dirent_of bs = \<lparr>de_inum = le_val (take 2 bs), de_name = drop 2 bs\<rparr>"

definition dirent_bytes :: "dirent \<Rightarrow> byte list" where
  "dirent_bytes de = le_bytes 2 (de_inum de) @ de_name de"

definition dirent_offs :: "nat \<Rightarrow> nat list" where
  "dirent_offs sz = map ((*) 16) [0..<(sz + 15) div 16]"

definition read_dirent :: "string \<Rightarrow> nat \<Rightarrow> nat \<Rightarrow> ('z cons_st_scheme, dirent) kop" where
  "read_dirent msg i off = bnd (readi i off 16) (\<lambda>(r, bs). thn (panic_if (r \<noteq> 16) msg) (ret (dirent_of bs)))"

fun dirlookup_loop :: "nat \<Rightarrow> byte list \<Rightarrow> nat list \<Rightarrow> ('z cons_st_scheme, (nat \<times> nat) option) kop" where
  "dirlookup_loop dp name [] = ret None"
| "dirlookup_loop dp name (off # offs) = bnd (read_dirent ''dirlookup read'' dp off) (\<lambda>de.
     if de_inum de = 0 then dirlookup_loop dp name offs
     else if namecmp name (de_name de) = 0
     then bnd (get_inode dp) (\<lambda>d. bnd (iget (i_dev d) (de_inum de)) (\<lambda>ip. ret (Some (ip, off))))
     else dirlookup_loop dp name offs)"

text \<open>The inode of the entry and its offset.\<close>

definition dirlookup :: "nat \<Rightarrow> byte list \<Rightarrow> ('z cons_st_scheme, (nat \<times> nat) option) kop" where
  "dirlookup dp name = bnd (get_inode dp) (\<lambda>d. thn (panic_if (i_type d \<noteq> T_DIR) ''dirlookup not DIR'')
     (dirlookup_loop dp name (dirent_offs (i_size d))))"

fun free_dirent :: "nat \<Rightarrow> nat list \<Rightarrow> nat \<Rightarrow> ('z cons_st_scheme, nat) kop" where
  "free_dirent dp [] off = ret off"
| "free_dirent dp (off # offs) z = bnd (read_dirent ''dirlink read'' dp off) (\<lambda>de.
     if de_inum de = 0 then ret off else free_dirent dp offs z)"

definition dirlink :: "nat \<Rightarrow> byte list \<Rightarrow> nat \<Rightarrow> ('z cons_st_scheme, int) kop" where
  "dirlink dp name inum = bnd (dirlookup dp name) (\<lambda>r. case r of
     Some (ip, _) \<Rightarrow> thn (iput ip) (ret (- 1))
   | None \<Rightarrow> bnd (get_inode dp) (\<lambda>d.
       bnd (free_dirent dp (dirent_offs (i_size d)) (16 * ((i_size d + 15) div 16))) (\<lambda>off.
       bnd (writei dp (dirent_bytes \<lparr>de_inum = inum mod 2 ^ 16, de_name = strncpy_list DIRSIZ name\<rparr>) off) (\<lambda>r.
       thn (panic_if (r \<noteq> 16) ''dirlink'') (ret 0)))))"

section \<open>Paths\<close>

definition skipelem :: "byte list \<Rightarrow> byte list \<Rightarrow> (byte list \<times> byte list) option" where
  "skipelem path name = (let path = dropWhile (\<lambda>c. c = slash) path in
     if path = [] then None
     else let s = takeWhile (\<lambda>c. c \<noteq> slash) path; path = dropWhile (\<lambda>c. c \<noteq> slash) path;
              name = (if length s \<ge> DIRSIZ then put_at 0 (take DIRSIZ s) name else put_at 0 (s @ [0]) name)
          in Some (dropWhile (\<lambda>c. c = slash) path, name))"

lemma skipelem_shorter: "skipelem path name = Some (path', name') \<Longrightarrow> length path' < length path"
proof -
  assume a: "skipelem path name = Some (path', name')"
  let ?p = "dropWhile (\<lambda>c. c = slash) path"
  have ne: "?p \<noteq> []" and p': "path' = dropWhile (\<lambda>c. c = slash) (dropWhile (\<lambda>c. c \<noteq> slash) ?p)"
    using a by (auto simp: skipelem_def Let_def split: if_splits)
  obtain x xs where x: "?p = x # xs" using ne by (cases ?p) auto
  then have "x \<noteq> slash" using hd_dropWhile [OF ne] by simp
  then have "length path' \<le> length xs"
    unfolding p' x using length_dropWhile_le [of "\<lambda>c. c = slash" "dropWhile (\<lambda>c. c \<noteq> slash) xs"]
      length_dropWhile_le [of "\<lambda>c. c \<noteq> slash" xs] by simp
  moreover have "Suc (length xs) \<le> length path" using x length_dropWhile_le [of "\<lambda>c. c = slash" path] by simp
  ultimately show ?thesis by simp
qed

text \<open>The loop of \<open>namex\<close>; the value is the inode and the name buffer.\<close>

function namex_loop :: "nat \<Rightarrow> byte list \<Rightarrow> bool \<Rightarrow> byte list \<Rightarrow> ('z cons_st_scheme, nat option \<times> byte list) kop" where
  "namex_loop ip path par name = (case skipelem path name of
     None \<Rightarrow> if par then thn (iput ip) (ret (None, name)) else ret (Some ip, name)
   | Some (path, name) \<Rightarrow> thn (ilock (Some ip)) (bnd (get_inode ip) (\<lambda>x.
       if i_type x \<noteq> T_DIR then thn (iunlockput ip) (ret (None, name))
       else if par \<and> path = [] then thn (iunlock (Some ip)) (ret (Some ip, name))
       else bnd (dirlookup ip name) (\<lambda>r. thn (iunlockput ip) (case r of
         None \<Rightarrow> ret (None, name)
       | Some (nxt, _) \<Rightarrow> namex_loop nxt path par name)))))"
  by pat_completeness auto

termination namex_loop
  by (relation "measure (\<lambda>(ip, path, par, name). length path)") (auto dest: skipelem_shorter)

declare namex_loop.simps [simp del]

definition namex :: "byte list \<Rightarrow> bool \<Rightarrow> byte list \<Rightarrow> ('z cons_st_scheme, nat option \<times> byte list) kop" where
  "namex path par name = bnd
     (if take 1 path = [slash] then iget ROOTDEV ROOTINO
      else bnd myproc (\<lambda>p. bnd (gets procs) (\<lambda>ps. case p_cwd (ps ! p) of None \<Rightarrow> panic ''trap'' | Some d \<Rightarrow> idup d)))
     (\<lambda>ip. namex_loop ip path par name)"

definition namei :: "byte list \<Rightarrow> ('z cons_st_scheme, nat option) kop" where
  "namei path = bnd (namex path False (replicate DIRSIZ 0)) (\<lambda>(ip, _). ret ip)"

definition nameiparent :: "byte list \<Rightarrow> ('z cons_st_scheme, nat option \<times> byte list) kop" where
  "nameiparent path = namex path True (replicate DIRSIZ 0)"

end
