(* ===== verification/Files.thy ===== *)
theory Files
  imports Blocks Fs
begin

text \<open>
  The contents of files: \<open>readi\<close> and \<open>writei\<close> of \<open>fs.c\<close> over the blocks of \<open>Blocks\<close>. \<open>fbyte\<close> is the
  byte of a file at an offset, found through its direct and indirect blocks. \<open>readi\<close> returns these
  bytes; \<open>writei\<close> replaces them, extends the file and leaves every other file alone.
\<close>

section \<open>Reading\<close>

lemma own_bound: "geo s \<Longrightarrow> file_ok s ip \<Longrightarrow> b \<in> own (blk s) ip \<Longrightarrow> b < FSSIZE"
  using file_okD(5) [of s ip b] by (auto simp: geo_def)

lemma bmap_there:
  fixes s :: "'z fs_st_scheme"
  assumes ok: "cache_ok c {} s" and geo: "geo s" and f: "file_ok s (icache s ! i)" and bn: "bn < MAXFILE" and nz: "fmap (blk s) (icache s ! i) bn \<noteq> 0"
  shows "\<exists>t. bmap i bn s = Done (fmap (blk s) (icache s ! i) bn) t \<and> cache_ok c {} t \<and> same_view s t"
proof (cases "bn < NDIRECT")
  case True
  then show ?thesis using nz ok by (intro exI [of _ s]) (simp add: bmap_split [OF file_okD(1) [OF f]] fmap_def)
next
  case False
  let ?ip = "icache s ! i" let ?ind = "i_addrs ?ip ! NDIRECT"
  have ind: "?ind \<noteq> 0" "fmap (blk s) ?ip bn = u32_at (4 * (bn - NDIRECT)) (blk s ?ind)"
    using nz bn False by (auto simp: fmap_def split: if_splits)
  then have "?ind \<in> own (blk s) ?ip" using own_mem [of MAXFILE "blk s" ?ip] by (simp add: fmap_def)
  then have "?ind < FSSIZE" using own_bound [OF geo f] by blast
  from ind_entry_there [OF ok this, of "bn - NDIRECT"] show ?thesis
    using nz ind bn False by (simp add: bmap_split [OF file_okD(1) [OF f]] bnd_ret)
qed

lemma read_chunk_law:
  fixes s :: "'z fs_st_scheme"
  assumes ok: "cache_ok c {} s" and geo: "geo s" and f: "file_ok s (icache s ! i)" and bn: "bn < MAXFILE" and nz: "fmap (blk s) (icache s ! i) bn \<noteq> 0"
  shows "\<exists>t. read_chunk i bn o' m s = Done (slice o' m (blk s (fmap (blk s) (icache s ! i) bn))) t \<and> cache_ok c {} t \<and> same_view s t"
proof -
  let ?a = "fmap (blk s) (icache s ! i) bn"
  obtain u where 1: "bmap i bn s = Done ?a u" "cache_ok c {} u" "same_view s u" using bmap_there [OF assms] by blast
  have "?a \<in> own (blk s) (icache s ! i)" using own_mem nz bn by simp
  then have aF: "?a < FSSIZE" using own_bound [OF geo f] by blast
  obtain t where 2: "bnd (bread 1 ?a) (\<lambda>bp. bnd (get_data bp) (\<lambda>d. thn (brelse bp) (ret (slice o' m d)))) u = ret (slice o' m (blk u ?a)) t"
    "cache_ok c {} t" "same_view u t" using read_block [OF 1(2) _ aF, of "\<lambda>d. ret (slice o' m d)"] by auto
  have "read_chunk i bn o' m s = Done (slice o' m (blk s ?a)) t"
    using 1(1,3) 2(1) file_okD(1) [OF f] by (simp add: read_chunk_def get_inode_def bnd_gets bnd_Done same_view_def ret_def)
  then show ?thesis using 2(2) same_view_trans [OF 1(3) 2(3)] by blast
qed

text \<open>The rounds of the loops cover the bytes from \<open>off\<close> to \<open>off + n\<close>, each of them in one block.\<close>

lemma chunks_0 [simp]: "chunks off 0 = []"
  by (simp add: chunks.simps)

lemma chunks_step:
  "0 < n \<Longrightarrow> chunks off n = (off div BSIZE, off mod BSIZE, min n (BSIZE - off mod BSIZE)) #
     chunks (off + min n (BSIZE - off mod BSIZE)) (n - min n (BSIZE - off mod BSIZE))"
  by (subst chunks.simps) (simp add: Let_def)

lemma same_block:
  assumes "m \<le> BSIZE - off mod BSIZE" "j < m"
  shows "(off + j) div BSIZE = off div BSIZE" "(off + j) mod BSIZE = off mod BSIZE + j"
proof -
  have "off mod BSIZE + j < BSIZE" using assms by simp
  moreover have "off + j = BSIZE * (off div BSIZE) + (off mod BSIZE + j)" by simp
  ultimately show "(off + j) div BSIZE = off div BSIZE" "(off + j) mod BSIZE = off mod BSIZE + j"
    by (metis add.commute div_mult_self2 div_less add.right_neutral zero_neq_numeral, metis mod_mult_self4 mod_less mult.commute)
qed

lemma slice_fbyte:
  assumes "fmap B ip (off div BSIZE) \<noteq> 0" "length (B (fmap B ip (off div BSIZE))) = BSIZE" "m \<le> BSIZE - off mod BSIZE"
  shows "slice (off mod BSIZE) m (B (fmap B ip (off div BSIZE))) = map (fbyte B ip) [off..<off + m]"
proof (rule nth_equalityI)
  have le: "off mod BSIZE + m \<le> BSIZE" using assms(3) mod_less_divisor [of BSIZE off] by linarith
  then show "length (slice (off mod BSIZE) m (B (fmap B ip (off div BSIZE)))) = length (map (fbyte B ip) [off..<off + m])"
    using assms(2) by simp
  fix j assume "j < length (slice (off mod BSIZE) m (B (fmap B ip (off div BSIZE))))"
  then have "j < m" using le assms(2) by simp
  then show "slice (off mod BSIZE) m (B (fmap B ip (off div BSIZE))) ! j = map (fbyte B ip) [off..<off + m] ! j"
    using assms le same_block [OF assms(3)] by (simp add: fbyte_def Let_def)
qed

text \<open>All blocks that hold bytes from \<open>off\<close> to \<open>off + n\<close> are there.\<close>

definition there :: "'z fs_st_scheme \<Rightarrow> nat \<Rightarrow> nat \<Rightarrow> nat \<Rightarrow> bool" where
  "there s i off n \<longleftrightarrow> off + n \<le> MAXFILE * BSIZE \<and> (\<forall>k. off \<le> k \<longrightarrow> k < off + n \<longrightarrow> fmap (blk s) (icache s ! i) (k div BSIZE) \<noteq> 0)"

lemma same_view_readable:
  fixes s t :: "'z fs_st_scheme"
  assumes "same_view s t"
  shows "geo t = geo s" "file_ok t ip = file_ok s ip" "there t i off n = there s i off n" "icache t = icache s" "blk t = blk s"
proof -
  have f: "tx_frame s t" "blk t = blk s" using assms by (simp_all add: same_view_def)
  have e: "icache t = icache s" "sb t = sb s" using tx_frame_fs [OF f(1)] by simp_all
  have u: "used t = used s" "bmap_blk t = bmap_blk s" using f e by (auto simp: used_def bmap_blk_def fun_eq_iff)
  show "geo t = geo s" "file_ok t ip = file_ok s ip" "there t i off n = there s i off n" "icache t = icache s" "blk t = blk s"
    using f e u by (simp_all add: geo_def file_ok_def there_def)
qed

lemma read_chunks_law:
  fixes s :: "'z fs_st_scheme"
  assumes "cache_ok c {} s" "geo s" "file_ok s (icache s ! i)" "there s i off n"
  shows "\<exists>t. read_chunks i (chunks off n) s = Done (map (fbyte (blk s) (icache s ! i)) [off..<off + n]) t \<and> cache_ok c {} t \<and> same_view s t"
  using assms
proof (induction off n arbitrary: s rule: chunks.induct)
  case (1 off n)
  show ?case
  proof (cases "n = 0")
    case True
    then show ?thesis using 1(2) by (intro exI [of _ s]) (simp add: ret_def)
  next
    case False
    define m where "m = min n (BSIZE - off mod BSIZE)"
    let ?ip = "icache s ! i" let ?bn = "off div BSIZE"
    have m: "m \<le> n" "m \<le> BSIZE - off mod BSIZE" by (simp_all add: m_def)
    have nz: "fmap (blk s) ?ip ?bn \<noteq> 0" "?bn < MAXFILE" using 1(5) False by (auto simp: there_def less_mult_imp_div_less)
    obtain u where u: "read_chunk i ?bn (off mod BSIZE) m s = Done (slice (off mod BSIZE) m (blk s (fmap (blk s) ?ip ?bn))) u"
      "cache_ok c {} u" "same_view s u" using read_chunk_law [OF 1(2-4) nz(2,1)] by blast
    note V = same_view_readable [OF u(3)]
    have sl: "slice (off mod BSIZE) m (blk s (fmap (blk s) ?ip ?bn)) = map (fbyte (blk s) ?ip) [off..<off + m]"
    proof (rule slice_fbyte [OF nz(1) _ m(2)])
      show "length (blk s (fmap (blk s) ?ip ?bn)) = BSIZE"
        using own_bound [OF 1(3,4) own_mem] nz 1(3) by (simp add: geo_def)
    qed
    have th: "there u i (off + m) (n - m)" using 1(5) m by (simp add: V there_def)
    obtain t where t: "read_chunks i (chunks (off + m) (n - m)) u = Done (map (fbyte (blk u) (icache u ! i)) [off + m..<off + m + (n - m)]) t"
      "cache_ok c {} t" "same_view u t"
      using 1(1) [OF False m_def u(2) _ _ th] 1(3,4) V by auto
    have "read_chunks i (chunks off n) s = Done (map (fbyte (blk s) ?ip) [off..<off + n]) t"
    proof -
      have "[off..<off + n] = [off..<off + m] @ [off + m..<off + n]" using m(1) upt_add_eq_append [of off "off + m" "n - m"] by simp
      then show ?thesis using False u(1) t(1) m(1) unfolding sl
        by (simp add: chunks_step m_def [symmetric] bnd_Done V ret_def)
    qed
    then show ?thesis using t(2) same_view_trans [OF u(3) t(3)] by blast
  qed
qed

lemma readi_law:
  fixes s :: "'z cons_st_scheme"
  assumes "cache_ok c {} s" "geo s" "file_ok s (icache s ! i)" "i_type (icache s ! i) \<noteq> T_DEV" "off \<le> i_size (icache s ! i)" "off + n < 2 ^ 32"
  defines "n' \<equiv> min n (i_size (icache s ! i) - off)"
  shows "\<exists>t. readi i off n s = Done (int n', map (fbyte (blk s) (icache s ! i)) [off..<off + n']) t \<and> cache_ok c {} t \<and> same_view s t"
proof -
  have sz: "i_size (icache s ! i) \<le> MAXFILE * BSIZE" using file_okD(3) [OF assms(3)] .
  have th: "there s i off n'" unfolding there_def
  proof (intro conjI allI impI)
    show "off + n' \<le> MAXFILE * BSIZE" using sz assms(5) by (auto simp: n'_def)
    fix k assume "off \<le> k" "k < off + n'"
    then have "k < i_size (icache s ! i)" by (simp add: n'_def)
    then have "BSIZE * (k div BSIZE) < i_size (icache s ! i)" using div_times_less_eq_dividend [of k BSIZE] by linarith
    then show "fmap (blk s) (icache s ! i) (k div BSIZE) \<noteq> 0" by (rule file_okD(4) [OF assms(3)])
  qed
  obtain t where t: "read_chunks i (chunks off n') s = Done (map (fbyte (blk s) (icache s ! i)) [off..<off + n']) t" "cache_ok c {} t" "same_view s t"
    using read_chunks_law [OF assms(1-3) th] by blast
  have "(if off + n > i_size (icache s ! i) then i_size (icache s ! i) - off else n) = n'" using assms(5) by (auto simp: n'_def)
  then have "readi i off n s = Done (int n', map (fbyte (blk s) (icache s ! i)) [off..<off + n']) t"
    using t(1) assms(4-6) by (simp add: readi_def get_inode_def bnd_gets bnd_Done ret_def Let_def)
  then show ?thesis using t(2,3) by blast
qed

section \<open>Writing\<close>

text \<open>New contents for a block of the file.\<close>

lemma put_data:
  fixes s t :: "'z fs_st_scheme"
  assumes geo: "geo s" and ok: "file_ok s (icache s ! i)" and bn: "bn < MAXFILE" and a: "a = fmap (blk s) (icache s ! i) bn" "a \<noteq> 0"
    and fr: "tx_frame s t" and B: "blk t = (blk s)(a := v)" and v: "length v = BSIZE"
  shows "grown i s t" "free_blks t = free_blks s" "icache t = icache s" "geo t"
    and "k < MAXFILE * BSIZE \<Longrightarrow> fbyte (blk t) (icache t ! i) k = (if k div BSIZE = bn then v ! (k mod BSIZE) else fbyte (blk s) (icache s ! i) k)"
    and "fmap (blk t) (icache t ! i) = fmap (blk s) (icache s ! i)"
proof -
  let ?ip = "icache s ! i" let ?ind = "i_addrs ?ip ! NDIRECT"
  have own: "a \<in> own (blk s) ?ip" using own_mem [of bn "blk s" ?ip] bn a by simp
  have d: "bmap_blk s < a" "used s a" using file_okD(5) [OF ok own] by auto
  have ind: "?ind \<noteq> a"
  proof
    assume "?ind = a"
    then have "fmap (blk s) ?ip MAXFILE = fmap (blk s) ?ip bn" using a by (simp add: fmap_def)
    then have "bn = MAXFILE" using file_okD(6) [OF ok less_imp_le [OF bn] order_refl] a by metis
    then show False using bn by simp
  qed
  show e: "icache t = icache s" by (rule tx_frame_fs [OF fr])
  have sb: "sb t = sb s" by (rule tx_frame_fs [OF fr])
  then have bm: "bmap_blk t = bmap_blk s" by (simp add: bmap_blk_def)
  have u: "used t = used s" using d(1) by (auto simp: used_def bm B fun_eq_iff)
  show m: "fmap (blk t) (icache t ! i) = fmap (blk s) ?ip" using ind by (auto simp: fmap_def B e fun_eq_iff)
  then have o: "own (blk t) ?ip = own (blk s) ?ip" by (simp add: own_def e)
  show g: "geo t" using geo v by (simp add: geo_def bm sb u) (simp add: B)
  show "free_blks t = free_blks s" by (simp add: free_blks_def sb u)
  have "tx_frame s (t\<lparr>icache := icache s\<rparr>)" using fr by (simp add: e [symmetric])
  moreover have "blk t b = blk s b" if "b \<notin> own (blk s) ?ip" for b using that own by (auto simp: B)
  ultimately have "kept i ?ip s t" using g e by (simp add: kept_def u)
  moreover have "file_ok t ?ip" using ok m by (simp add: file_ok_def o bm sb u e)
  ultimately show "grown i s t" using m o e by (simp add: grown_def)
  assume "k < MAXFILE * BSIZE"
  then have k: "k div BSIZE \<le> MAXFILE" by (intro less_imp_le less_mult_imp_div_less) simp
  show "fbyte (blk t) (icache t ! i) k = (if k div BSIZE = bn then v ! (k mod BSIZE) else fbyte (blk s) ?ip k)"
  proof (cases "k div BSIZE = bn")
    case True
    then show ?thesis unfolding fbyte_def m Let_def True a(1) [symmetric] using a(2) by (simp add: B)
  next
    case False
    then have "fmap (blk s) ?ip (k div BSIZE) \<noteq> a" using file_okD(6) [OF ok less_imp_le [OF bn] k] a(2) unfolding a(1) by metis
    with False show ?thesis unfolding fbyte_def m Let_def by (simp add: B)
  qed
qed

text \<open>The bytes from \<open>off\<close> on are now \<open>bs\<close>.\<close>

definition patched :: "nat \<Rightarrow> nat \<Rightarrow> byte list \<Rightarrow> 'z fs_st_scheme \<Rightarrow> 'z fs_st_scheme \<Rightarrow> bool" where
  "patched i off bs s t \<longleftrightarrow> (\<forall>k<MAXFILE * BSIZE. fbyte (blk t) (icache t ! i) k =
     (if off \<le> k \<and> k < off + length bs then bs ! (k - off) else fbyte (blk s) (icache s ! i) k))"

lemma patched_append:
  assumes "patched i off xs s t" "patched i (off + length xs) ys t u"
  shows "patched i off (xs @ ys) s u"
  using assms by (auto simp: patched_def nth_append diff_diff_left)

lemma put_at_in_block:
  assumes "length d = BSIZE" "off mod BSIZE + length bs \<le> BSIZE" "k div BSIZE = off div BSIZE"
  shows "put_at (off mod BSIZE) bs d ! (k mod BSIZE) = (if off \<le> k \<and> k < off + length bs then bs ! (k - off) else d ! (k mod BSIZE))"
proof -
  have e: "BSIZE * (k div BSIZE) + k mod BSIZE = k" "BSIZE * (off div BSIZE) + off mod BSIZE = off" by simp_all
  have "off mod BSIZE \<le> k mod BSIZE \<longleftrightarrow> off \<le> k" "k mod BSIZE < off mod BSIZE + length bs \<longleftrightarrow> k < off + length bs" "k mod BSIZE - off mod BSIZE = k - off"
    using e unfolding assms(3) by linarith+
  then show ?thesis using assms by (simp add: nth_put_at)
qed

lemma write_chunk_law:
  fixes s :: "'z fs_st_scheme"
  assumes F: "fready c X i (Suc r) s" and bs: "off mod BSIZE + length bs \<le> BSIZE" and off: "off < MAXFILE * BSIZE"
  shows "\<exists>t. write_chunk i (off div BSIZE) (off mod BSIZE) bs s = Done () t \<and> grown i s t \<and> fready c X i r t \<and> patched i off bs s t \<and>
    fmap (blk t) (icache t ! i) (off div BSIZE) \<noteq> 0"
proof -
  let ?bn = "off div BSIZE"
  have bn: "?bn < MAXFILE" using off by (intro less_mult_imp_div_less) simp
  obtain a u where 1: "bmap i ?bn s = Done a u" "mapped c X i r ?bn a s u" using bmap_law [OF F bn] by blast
  have M: "grown i s u" "same_bytes i s u" "a \<noteq> 0" "a = fmap (blk u) (icache u ! i) ?bn"
    "txn c {} X (r + ind_cost X i u + (if a \<in> set (logged u) \<union> X then 0 else 1)) u" "r + need i u \<le> card (free_blks u)"
    using 1(2) unfolding mapped_def by blast+
  have gu: "geo u" "file_ok u (icache u ! i)" "bmap_blk u = bmap_blk s" "length (icache u) = length (icache s)"
    using M(1) keptD [of i _ s u] by (auto simp: grown_def)
  have "a \<in> own (blk u) (icache u ! i)" using own_mem [of ?bn "blk u" "icache u ! i"] bn M(3,4) by simp
  then have aF: "a < FSSIZE" by (rule own_bound [OF gu(1,2)])
  obtain t where 2: "bnd (bread 1 a) (\<lambda>bp. steps [upd_data bp (put_at (off mod BSIZE) bs), log_write bp, brelse bp]) u = Done () t"
    "txn c {} X (r + ind_cost X i u) t" "tx_frame u t" "blk t = (blk u)(a := put_at (off mod BSIZE) bs (blk u a))"
    "set (logged t) = insert a (set (logged u))"
    using put_block [OF M(5) _ aF, where n = "r + ind_cost X i u" and f = "put_at (off mod BSIZE) bs"] by auto
  have la: "length (blk u a) = BSIZE" using gu(1) aF by (simp add: geo_def)
  have lv: "length (put_at (off mod BSIZE) bs (blk u a)) = BSIZE" using la bs by simp
  note P = put_data [OF gu(1,2) bn M(4,3) 2(3,4) lv]
  have run: "write_chunk i ?bn (off mod BSIZE) bs s = Done () t"
    using 1(1) 2(1) freadyD(7) [OF F] by (simp add: write_chunk_def get_inode_def bnd_gets bnd_Done del: steps.simps)
  have "fbyte (blk t) (icache t ! i) k = (if off \<le> k \<and> k < off + length bs then bs ! (k - off) else fbyte (blk s) (icache s ! i) k)"
    if k: "k < MAXFILE * BSIZE" for k
  proof (cases "k div BSIZE = ?bn")
    case True
    have "fbyte (blk u) (icache u ! i) k = blk u a ! (k mod BSIZE)" using M(3) unfolding fbyte_def True M(4) [symmetric] by simp
    then show ?thesis using P(5) [OF k] True put_at_in_block [OF la bs True] M(2) k by (simp add: same_bytes_def)
  next
    case False
    have "length bs \<le> BSIZE - off mod BSIZE" using bs by linarith
    from same_block(1) [OF this, of "k - off"] have "\<not> (off \<le> k \<and> k < off + length bs)"
      using False by (auto simp: less_diff_conv2)
    then show ?thesis using P(5) [OF k] False M(2) k by (auto simp: same_bytes_def)
  qed
  moreover have "fready c X i r t"
  proof -
    have "ind_cost X i t \<le> ind_cost X i u" using ind_cost_le [of t i u] 2(5) P(3) by auto
    then show ?thesis using txn_less [OF 2(2)] P(1-4) M(6) freadyD(3,4) [OF F] gu keptD(2) [of i _ u t]
      by (auto simp: fready_def need_def grown_def)
  qed
  ultimately show ?thesis using run grown_trans [OF M(1) P(1)] P(6) M(3,4) by (intro exI [of _ t]) (simp add: patched_def)
qed

lemma write_chunks_law:
  fixes s :: "'z fs_st_scheme"
  assumes "fready c X i (r + length (chunks off (length src))) s" "off + length src \<le> MAXFILE * BSIZE"
  shows "\<exists>t. write_chunks i (chunks off (length src)) src s = Done () t \<and> grown i s t \<and> fready c X i r t \<and> patched i off src s t \<and>
    there t i off (length src)"
  using assms
proof (induction off "length src" arbitrary: s src rule: chunks.induct)
  case (1 off)
  show ?case
  proof (cases "length src = 0")
    case True
    have "grown i s s" using same_view_file [OF same_view_refl] freadyD(2,5) [OF 1(2)] by blast
    then show ?thesis using True 1(2,3) by (intro exI [of _ s]) (auto simp: ret_def patched_def there_def)
  next
    case False
    define m where "m = min (length src) (BSIZE - off mod BSIZE)"
    let ?cs = "chunks (off + m) (length src - m)"
    have m: "m \<le> length src" "off mod BSIZE + m \<le> BSIZE" "0 < m" using False by (auto simp: m_def)
    have cs: "chunks off (length src) = (off div BSIZE, off mod BSIZE, m) # ?cs" using False by (simp add: chunks_step m_def)
    have F: "fready c X i (Suc (r + length ?cs)) s" using 1(2) unfolding cs by simp
    have off: "off < MAXFILE * BSIZE" using 1(3) m by linarith
    obtain u where u: "write_chunk i (off div BSIZE) (off mod BSIZE) (take m src) s = Done () u" "grown i s u" "fready c X i (r + length ?cs) u"
      "patched i off (take m src) s u" "fmap (blk u) (icache u ! i) (off div BSIZE) \<noteq> 0"
      using write_chunk_law [OF F _ off, of "take m src"] m by auto
    obtain t where t: "write_chunks i ?cs (drop m src) u = Done () t" "grown i u t" "fready c X i r t" "patched i (off + m) (drop m src) u t"
      "there t i (off + m) (length src - m)"
    proof -
      have len: "length src - m = length (drop m src)" by simp
      have "fready c X i (r + length (chunks (off + m) (length (drop m src)))) u" "off + m + length (drop m src) \<le> MAXFILE * BSIZE"
        using u(3) 1(3) m(1) by simp_all
      from 1(1) [OF False m_def len this] show ?thesis using that unfolding len [symmetric] by blast
    qed
    have "write_chunks i (chunks off (length src)) src s = Done () t" unfolding cs using u(1) t(1) by (simp add: thn_Done)
    moreover have "patched i off src s t" using patched_append [OF u(4), of "drop m src" t] t(4) m by simp
    moreover have "there t i off (length src)" unfolding there_def
    proof (intro conjI allI impI)
      fix k assume k: "off \<le> k" "k < off + length src"
      have bn: "off div BSIZE \<le> MAXFILE" using off by (intro less_imp_le less_mult_imp_div_less) simp
      show "fmap (blk t) (icache t ! i) (k div BSIZE) \<noteq> 0"
      proof (cases "k < off + m")
        case True
        then have "k div BSIZE = off div BSIZE" using same_block(1) [of m off "k - off"] m k by simp
        then show ?thesis using t(2) u(5) bn by (simp add: grown_def)
      next
        case False
        then show ?thesis using t(5) k m by (simp add: there_def)
      qed
    qed (rule 1(3))
    ultimately show ?thesis using t(3) grown_trans [OF u(2) t(2)] by blast
  qed
qed

section \<open>The inode on disk\<close>

lemma length_dinode_bytes: "length (d_addrs x) = 13 \<Longrightarrow> length (dinode_bytes x) = 64"
  by (simp add: dinode_bytes_def le_short_def length_concat comp_def sum_list_triv)

lemma length_put_dinode:
  assumes "length (d_addrs x) = 13" "length d = BSIZE" "k < IPB"
  shows "length (put_dinode k x d) = BSIZE"
proof -
  have "64 * k + length (dinode_bytes x) \<le> length d" using assms length_dinode_bytes [OF assms(1)] by simp
  then show ?thesis unfolding put_dinode_def by (simp only: length_put_at assms(2))
qed

lemma meta_put:
  fixes s t :: "'z fs_st_scheme"
  assumes geo: "geo s" and fr: "tx_frame s t" and B: "blk t = (blk s)(b := v)" and b: "b < bmap_blk s" and v: "length v = BSIZE"
  shows "geo t" "used t = used s" "bmap_blk t = bmap_blk s" "sb t = sb s" "icache t = icache s" "free_blks t = free_blks s"
    and "file_ok s ip \<Longrightarrow> fmap (blk t) ip = fmap (blk s) ip \<and> file_ok t ip \<and> (\<forall>k<MAXFILE * BSIZE. fbyte (blk t) ip k = fbyte (blk s) ip k)"
proof -
  show e: "icache t = icache s" "sb t = sb s" using tx_frame_fs [OF fr] by simp_all
  then show bm: "bmap_blk t = bmap_blk s" by (simp add: bmap_blk_def)
  show u: "used t = used s" using b by (auto simp: used_def bm B fun_eq_iff)
  show g: "geo t" using geo v by (simp add: geo_def bm e u) (simp add: B)
  show "free_blks t = free_blks s" by (simp add: free_blks_def e u)
  assume ok: "file_ok s ip"
  have ne: "fmap (blk s) ip x \<noteq> b" if "x \<le> MAXFILE" "fmap (blk s) ip x \<noteq> 0" for x
    using file_okD(5) [OF ok own_mem [OF that]] b by auto
  have m: "fmap (blk t) ip = fmap (blk s) ip"
    using ne [of MAXFILE] by (auto simp: fmap_def B fun_eq_iff)
  then have o: "own (blk t) ip = own (blk s) ip" by (simp add: own_def)
  have "file_ok t ip" using ok by (simp add: file_ok_def m o bm e u)
  moreover have "fbyte (blk t) ip k = fbyte (blk s) ip k" if "k < MAXFILE * BSIZE" for k
  proof -
    have "k div BSIZE \<le> MAXFILE" using that by (intro less_imp_le less_mult_imp_div_less) simp
    then show ?thesis using ne [of "k div BSIZE"] unfolding fbyte_def m Let_def by (simp add: B)
  qed
  ultimately show "fmap (blk t) ip = fmap (blk s) ip \<and> file_ok t ip \<and> (\<forall>k<MAXFILE * BSIZE. fbyte (blk t) ip k = fbyte (blk s) ip k)"
    using m by blast
qed

lemma iupdate_law:
  fixes s :: "'z fs_st_scheme"
  assumes tx: "txn c {} X n s" and geo: "geo s" and dev: "i_dev (icache s ! i) = 1" "length (i_addrs (icache s ! i)) = 13"
  defines "b \<equiv> IBLOCK (i_inum (icache s ! i)) (sb s)"
  assumes b: "b \<in> X" "b < bmap_blk s"
  shows "\<exists>t. iupdate i s = Done () t \<and> txn c {} X n t \<and> tx_frame s t \<and>
    blk t = (blk s)(b := put_dinode (i_inum (icache s ! i) mod IPB) (to_dinode (icache s ! i)) (blk s b)) \<and>
    length (blk t b) = BSIZE \<and> set (logged s) \<subseteq> set (logged t)"
proof -
  have bF: "b < FSSIZE" using b geo by (auto simp: geo_def)
  obtain t where t: "bnd (bread 1 b) (\<lambda>bp. steps [upd_data bp (put_dinode (i_inum (icache s ! i) mod IPB) (to_dinode (icache s ! i))), log_write bp, brelse bp]) s = Done () t"
    "txn c {} X n t" "tx_frame s t" "blk t = (blk s)(b := put_dinode (i_inum (icache s ! i) mod IPB) (to_dinode (icache s ! i)) (blk s b))"
    "set (logged t) = insert b (set (logged s))"
    using put_block [OF tx _ bF, where n = n and f = "put_dinode (i_inum (icache s ! i) mod IPB) (to_dinode (icache s ! i))"] b by auto
  have "iupdate i s = Done () t"
    using t(1) dev unfolding b_def by (simp add: iupdate_def get_inode_def bnd_gets del: steps.simps)
  moreover have "length (put_dinode (i_inum (icache s ! i) mod IPB) (to_dinode (icache s ! i)) (blk s b)) = BSIZE"
    using geo bF dev by (intro length_put_dinode) (auto simp: to_dinode_def geo_def)
  ultimately show ?thesis using t by (intro exI [of _ t]) auto
qed

section \<open>writei\<close>

definition iblk :: "nat \<Rightarrow> 'z fs_st_scheme \<Rightarrow> nat" where
  "iblk i s = IBLOCK (i_inum (icache s ! i)) (sb s)"

text \<open>The last lines of \<open>writei\<close>: a longer file has its new size and its inode is written.\<close>

lemma set_size_law:
  fixes s :: "'z fs_st_scheme"
  assumes tx: "txn c {} X n s" and geo: "geo s" and i: "i < length (icache s)" and f: "file_ok s (icache s ! i)"
    and ib: "iblk i s \<in> X" "iblk i s < bmap_blk s" and sz: "sz \<le> MAXFILE * BSIZE" "\<And>x. BSIZE * x < sz \<Longrightarrow> fmap (blk s) (icache s ! i) x \<noteq> 0"
  shows "\<exists>t. thn (upd_inode i (\<lambda>x. x\<lparr>i_size := sz\<rparr>)) (iupdate i) s = Done () t \<and> txn c {} X n t \<and> geo t \<and>
    tx_frame s (t\<lparr>icache := icache s\<rparr>) \<and> icache t = (icache s)[i := (icache s ! i)\<lparr>i_size := sz\<rparr>] \<and> file_ok t (icache t ! i) \<and>
    same_bytes i s t \<and> set (logged s) \<subseteq> set (logged t) \<and> free_blks t = free_blks s \<and> used t = used s \<and>
    blk t = (blk s)(iblk i s := put_dinode (i_inum (icache s ! i) mod IPB) (to_dinode (icache t ! i)) (blk s (iblk i s)))"
proof -
  define ip where "ip = (icache s ! i)\<lparr>i_size := sz\<rparr>"
  define u where "u = s\<lparr>icache := (icache s)[i := ip]\<rparr>"
  have ui: "icache u ! i = ip" "sb u = sb s" "icache u = (icache s)[i := ip]" using i by (simp_all add: u_def)
  have fm: "fmap B ip = fmap B (icache s ! i)" "fbyte B ip = fbyte B (icache s ! i)" "own B ip = own B (icache s ! i)" for B
    by (simp_all add: ip_def fmap_def fbyte_def own_def fun_eq_iff)
  have fu: "file_ok u ip" using f sz unfolding u_def icache_view file_ok_def fm by (simp add: ip_def)
  have ib2: "IBLOCK (i_inum (icache u ! i)) (sb u) = iblk i s" unfolding ui(1,2) by (simp add: iblk_def ip_def)
  have ub: "blk u = blk s" "bmap_blk u = bmap_blk s" "logged u = logged s" by (simp_all add: u_def)
  obtain t where t: "iupdate i u = Done () t" "txn c {} X n t" "tx_frame u t"
    "blk t = (blk u)(iblk i s := put_dinode (i_inum (icache u ! i) mod IPB) (to_dinode (icache u ! i)) (blk u (iblk i s)))"
    "length (blk t (iblk i s)) = BSIZE" "set (logged u) \<subseteq> set (logged t)"
    using iupdate_law [of c X n u i, unfolded ib2] tx geo ib ub ui(1) file_okD(1,2) [OF fu] by (auto simp: u_def)
  have lt: "length (put_dinode (i_inum (icache u ! i) mod IPB) (to_dinode (icache u ! i)) (blk u (iblk i s))) = BSIZE" using t(4,5) by simp
  have gu: "geo u" "iblk i s < bmap_blk u" using geo ib(2) by (simp_all add: u_def)
  note P = meta_put [OF gu(1) t(3,4) gu(2) lt]
  have run: "thn (upd_inode i (\<lambda>x. x\<lparr>i_size := sz\<rparr>)) (iupdate i) s = Done () t"
    using t(1) by (simp add: upd_inode_def thn_modify u_def ip_def)
  have "tx_frame s (t\<lparr>icache := icache s\<rparr>)"
    using tx_frame_icache [OF t(3), of "icache s"] by (simp add: u_def)
  moreover have "free_blks t = free_blks s" "used t = used s" using P(2,6) by (auto simp: u_def free_blks_def fun_eq_iff)
  moreover have "same_bytes i s t" using P(7) [OF fu] P(5) fm i by (simp add: same_bytes_def ui ub)
  moreover have "i_inum ip = i_inum (icache s ! i)" by (simp add: ip_def)
  ultimately show ?thesis using run t(2,4,6) P(1,5) P(7) [OF fu] ui ub i by (intro exI [of _ t]) (simp add: ip_def)
qed

text \<open>What \<open>writei\<close> does to the file and to everything else.\<close>

definition rewritten :: "nat \<Rightarrow> nat \<Rightarrow> byte list \<Rightarrow> 'z fs_st_scheme \<Rightarrow> 'z fs_st_scheme \<Rightarrow> bool" where
  "rewritten i off src s t \<longleftrightarrow> geo t \<and> file_ok t (icache t ! i) \<and> patched i off src s t \<and>
     icache t = (icache s)[i := (icache s ! i)\<lparr>i_addrs := i_addrs (icache t ! i), i_size := max (i_size (icache s ! i)) (off + length src)\<rparr>] \<and>
     sb t = sb s \<and> tx_frame s (t\<lparr>icache := icache s\<rparr>) \<and> (\<forall>b. used s b \<longrightarrow> used t b) \<and>
     (\<forall>b. used s b \<longrightarrow> b \<noteq> bmap_blk s \<longrightarrow> b \<noteq> iblk i s \<longrightarrow> b \<notin> own (blk s) (icache s ! i) \<longrightarrow> blk t b = blk s b)"

lemma writei_law:
  fixes s :: "'z cons_st_scheme"
  assumes F: "fready c X i (r + length (chunks off (length src))) s" and ty: "i_type (icache s ! i) \<noteq> T_DEV"
    and off: "off \<le> i_size (icache s ! i)" "off + length src \<le> MAXFILE * BSIZE"
    and ib: "iblk i s \<in> X" "iblk i s < bmap_blk s"
  shows "\<exists>t. writei i src off s = Done (int (length src)) t \<and> fready c X i r t \<and> rewritten i off src s t"
proof -
  let ?n = "length src" let ?sz = "i_size (icache s ! i)"
  obtain u where u: "write_chunks i (chunks off ?n) src s = Done () u" "grown i s u" "fready c X i r u" "patched i off src s u" "there u i off ?n"
    using write_chunks_law [OF F off(2)] by blast
  have k: "kept i (icache s ! i) s u" and at: "icache u ! i = (icache s ! i)\<lparr>i_addrs := i_addrs (icache u ! i)\<rparr>"
    and okU: "file_ok u (icache u ! i)" using u(2) by (auto simp: grown_def)
  note K = keptD [OF k]
  have szu: "i_size (icache u ! i) = ?sz" by (subst at) simp
  have inu: "i_inum (icache u ! i) = i_inum (icache s ! i)" by (subst at) simp
  have ic: "icache u = (icache s)[i := (icache s ! i)\<lparr>i_addrs := i_addrs (icache u ! i)\<rparr>]" using k at by (simp add: kept_def)
  have run: "writei i src off s = thn (only_if (?n > 0 \<and> off + ?n > ?sz) (thn (upd_inode i (\<lambda>x. x\<lparr>i_size := off + ?n\<rparr>)) (iupdate i))) (ret (int ?n)) u"
    using ty off u(1) by (simp add: writei_def get_inode_def bnd_gets Let_def thn_Done)
  show ?thesis
  proof (cases "off + ?n > ?sz")
    case False
    then have "max ?sz (off + ?n) = ?sz" by simp
    then have "rewritten i off src s u" using k K okU u(4) ic by (simp add: rewritten_def kept_def)
    then show ?thesis using run False u(3) by (intro exI [of _ u]) (simp add: thn_Done only_if_run ret_def)
  next
    case True
    have ibu: "iblk i u = iblk i s" "bmap_blk u = bmap_blk s" using K inu by (simp_all add: iblk_def)
    have there: "fmap (blk u) (icache u ! i) x \<noteq> 0" if "BSIZE * x < off + ?n" for x
    proof (cases "BSIZE * x < ?sz")
      case True
      then show ?thesis using file_okD(4) [OF okU] szu by simp
    next
      case False
      then show ?thesis using u(5) that off(1) spec [of "\<lambda>k. off \<le> k \<longrightarrow> k < off + ?n \<longrightarrow> fmap (blk u) (icache u ! i) (k div BSIZE) \<noteq> 0" "BSIZE * x"]
        by (simp add: there_def)
    qed
    note f = freadyD [OF u(3)]
    obtain t where t: "thn (upd_inode i (\<lambda>x. x\<lparr>i_size := off + ?n\<rparr>)) (iupdate i) u = Done () t" "txn c {} X (r + ind_cost X i u) t" "geo t"
      "tx_frame u (t\<lparr>icache := icache u\<rparr>)" "icache t = (icache u)[i := (icache u ! i)\<lparr>i_size := off + ?n\<rparr>]" "file_ok t (icache t ! i)"
      "same_bytes i u t" "set (logged u) \<subseteq> set (logged t)" "free_blks t = free_blks u" "used t = used u"
      "blk t = (blk u)(iblk i s := put_dinode (i_inum (icache u ! i) mod IPB) (to_dinode (icache t ! i)) (blk u (iblk i s)))"
      using set_size_law [OF f(1,2,4,5) _ _ off(2) there] ib ibu by auto
    have ti: "icache t ! i = (icache u ! i)\<lparr>i_size := off + ?n\<rparr>" using t(5) f(4) by simp
    have tf: "tx_frame s (t\<lparr>icache := icache s\<rparr>)"
      using tx_frame_icache [OF t(4), of "icache s"] k tx_frame_trans by (auto simp: kept_def)
    have "sb t = sb s" using tx_frame_fs(1) [OF tf] by simp
    moreover have "patched i off src s t" using u(4) t(7) by (simp add: patched_def same_bytes_def)
    moreover have "icache t = (icache s)[i := (icache s ! i)\<lparr>i_addrs := i_addrs (icache t ! i), i_size := off + ?n\<rparr>]"
    proof -
      have "(icache u ! i)\<lparr>i_size := off + ?n\<rparr> = (icache s ! i)\<lparr>i_addrs := i_addrs (icache t ! i), i_size := off + ?n\<rparr>"
        by (subst at) (simp add: ti)
      then show ?thesis using t(5) by (metis ic list_update_overwrite)
    qed
    moreover have "max ?sz (off + ?n) = off + ?n" using True by simp
    moreover have "\<forall>b. used s b \<longrightarrow> used t b" using k t(10) by (simp add: kept_def)
    moreover have "blk t b = blk s b" if "used s b" "b \<noteq> bmap_blk s" "b \<noteq> iblk i s" "b \<notin> own (blk s) (icache s ! i)" for b
      using that t(11) k by (simp add: kept_def)
    ultimately have R: "rewritten i off src s t" using t(3,6) tf by (simp add: rewritten_def)
    have "ind_cost X i t \<le> ind_cost X i u" using ind_cost_le [of t i u] t(8) ti by simp
    then have "fready c X i r t" using txn_less [OF t(2)] t(3,5,6,9) f ti \<open>sb t = sb s\<close> K(1)
      by (simp add: fready_def need_def bmap_blk_def)
    moreover have "0 < ?n" using True off(1) by linarith
    then have "writei i src off s = Done (int ?n) t" using run True t(1) by (simp add: only_if_def thn_Done ret_def)
    ultimately show ?thesis using R by blast
  qed
qed

section \<open>What is written is read\<close>

lemma other_file:
  fixes s t :: "'z fs_st_scheme"
  assumes R: "rewritten i off src s t" and ok: "file_ok s ip" and dis: "own (blk s) ip \<inter> own (blk s) (icache s ! i) = {}" and ib: "iblk i s < bmap_blk s"
  shows "file_ok t ip \<and> (\<forall>k<MAXFILE * BSIZE. fbyte (blk t) ip k = fbyte (blk s) ip k)"
proof -
  have bm: "bmap_blk t = bmap_blk s" "sb t = sb s" using R by (auto simp: rewritten_def bmap_blk_def)
  have same: "blk t b = blk s b" if "b \<in> own (blk s) ip" for b
    using R file_okD(5) [OF ok that] dis that ib by (auto simp: rewritten_def)
  have m: "fmap (blk t) ip = fmap (blk s) ip"
    using same own_mem [of MAXFILE "blk s" ip] by (auto simp: fmap_def fun_eq_iff)
  then have o: "own (blk t) ip = own (blk s) ip" by (simp add: own_def)
  have "file_ok t ip" using ok R by (simp add: file_ok_def m o bm rewritten_def)
  moreover have "fbyte (blk t) ip k = fbyte (blk s) ip k" if "k < MAXFILE * BSIZE" for k
  proof -
    have "k div BSIZE \<le> MAXFILE" using that by (intro less_imp_le less_mult_imp_div_less) simp
    then show ?thesis using same own_mem [of "k div BSIZE" "blk s" ip] unfolding fbyte_def m Let_def by simp
  qed
  ultimately show ?thesis by blast
qed

text \<open>
  C33. Inside a transaction with room for the blocks, \<open>writei\<close> writes the whole of its source, and \<open>readi\<close> at the
  same offset then returns it, through direct and indirect blocks, the cache and the log. The rest of
  the file and the contents of every other file are as before.
\<close>

theorem writei_readi:
  fixes s :: "'z cons_st_scheme"
  assumes F: "fready c {bmap_blk s, iblk i s} i (length (chunks off (length src))) s" and ib: "iblk i s < bmap_blk s"
    and ty: "i_type (icache s ! i) \<noteq> T_DEV" and off: "off \<le> i_size (icache s ! i)" "off + length src \<le> MAXFILE * BSIZE"
  shows "\<exists>t u. writei i src off s = Done (int (length src)) t \<and> readi i off (length src) t = Done (int (length src), src) u \<and>
    i_size (icache t ! i) = max (i_size (icache s ! i)) (off + length src) \<and> file_ok t (icache t ! i) \<and>
    (\<forall>k<i_size (icache s ! i). k < off \<or> off + length src \<le> k \<longrightarrow> fbyte (blk t) (icache t ! i) k = fbyte (blk s) (icache s ! i) k) \<and>
    (\<forall>ip. file_ok s ip \<longrightarrow> own (blk s) ip \<inter> own (blk s) (icache s ! i) = {} \<longrightarrow>
       file_ok t ip \<and> (\<forall>k<MAXFILE * BSIZE. fbyte (blk t) ip k = fbyte (blk s) ip k))"
proof -
  obtain t where t: "writei i src off s = Done (int (length src)) t" "fready c {bmap_blk s, iblk i s} i 0 t" "rewritten i off src s t"
    using writei_law [of c _ i 0 off src s, OF _ ty off _ ib] F by auto
  note f = freadyD [OF t(2)] and f0 = freadyD [OF F]
  have P: "patched i off src s t" using t(3) by (simp add: rewritten_def)
  have ti: "icache t ! i = (icache s ! i)\<lparr>i_addrs := i_addrs (icache t ! i), i_size := max (i_size (icache s ! i)) (off + length src)\<rparr>"
    using t(3) f0(4) unfolding rewritten_def by (metis nth_list_update_eq)
  have sz: "i_size (icache t ! i) = max (i_size (icache s ! i)) (off + length src)" by (subst ti) simp
  have ty': "i_type (icache t ! i) \<noteq> T_DEV" by (subst ti) (simp add: ty)
  have le: "off \<le> i_size (icache t ! i)" "off + length src < 2 ^ 32" "min (length src) (i_size (icache t ! i) - off) = length src"
    using off sz by auto
  have "map (fbyte (blk t) (icache t ! i)) [off..<off + length src] = src"
    using P off(2) by (intro nth_equalityI) (auto simp: patched_def)
  then obtain u where u: "readi i off (length src) t = Done (int (length src), src) u"
    using readi_law [OF txn_cache [OF f(1)] f(2,5) ty' le(1,2)] unfolding le(3) by auto
  have "fbyte (blk t) (icache t ! i) k = fbyte (blk s) (icache s ! i) k" if "k < i_size (icache s ! i)" "k < off \<or> off + length src \<le> k" for k
    using P that file_okD(3) [OF f0(5)] by (auto simp: patched_def)
  then show ?thesis using t(1) u sz f(5) other_file [OF t(3) _ _ ib] by blast
qed

text \<open>An empty file on a disk as \<open>mkfs\<close> leaves it.\<close>

definition fs_bitmap :: "byte list" where
  "fs_bitmap = replicate 7 255 @ 7 # replicate 504 0"

definition fs_file :: inode where
  "fs_file = \<lparr>i_dev = 1, i_inum = 5, i_ref = 1, i_lock = unlocked, i_valid = True, i_type = T_FILE, i_major = 0, i_minor = 0,
     i_nlink = 1, i_size = 0, i_addrs = replicate 13 0\<rparr>"

definition fs_start :: cons_st where
  "fs_start = \<lparr>held = {}, procs = [proc0\<lparr>p_state := RUNNING\<rparr>], curp = Some 0, nextpid = 2, initproc = 0,
     mem = (\<lambda>_. 0), freelist = 0, use_lock = True, kend = 0xFFFF800000150000, pipes = Map.empty,
     bufs = replicate NBUF buf0, idequeue = [], havedisk1 = True, ide_regs = (\<lambda>_. 0), ide_fault = False,
     disk = (\<lambda>d b. if b = 58 then fs_bitmap else replicate BSIZE 0), diskw = [], lru = [0..<NBUF],
     log_start = 2, log_size = 30, log_outstanding = 1, log_committing = False, log_dev = 1, lh_n = 0, lh_block = replicate LOGSIZE 0,
     kpml4 = 0, kpdpt = 0, cr3 = 0, cpu_local = 0,
     sb = \<lparr>sb_size = 1000, sb_nblocks = 941, sb_ninodes = 200, sb_nlog = 30, sb_logstart = 2, sb_inodestart = 32, sb_bmapstart = 58\<rparr>,
     icache = [fs_file], cpu_panicked = False, cons_locking = True, crt = (\<lambda>_. 0), crtc = (\<lambda>_. 0), uart = False, uart_out = [],
     uart_in = [], kbd_in = [], kbd_shift = 0, idt_loaded = True, in_buf = replicate 128 0, in_r = 0, in_w = 0, in_e = 0,
     devsw = (\<lambda>_. \<lparr>dv_read = None, dv_write = None\<rparr>)\<rparr>"

lemma fs_start_cache: "bio_inv {} fs_start" "io_ready 0 fs_start" "dirty fs_start = {}" "logged fs_start = []"
  by (auto simp: fs_start_def bio_inv_def io_ready_def running_def proc0_def dirty_def key_def buf0_def unlocked_def logged_def)

lemma fs_start_blk: "blk fs_start b = (if b = 58 then fs_bitmap else replicate BSIZE 0)"
  unfolding blk_def by (subst kdata_uncached) (simp_all add: fs_start_def key_def buf0_def)

lemma fs_start_used: "b \<le> 58 \<Longrightarrow> used fs_start b" "\<not> used fs_start 59" "\<not> used fs_start 60"
proof -
  have bits: "\<forall>b\<in>set [0..<59]. bit_at b fs_bitmap" "\<not> bit_at 59 fs_bitmap" "\<not> bit_at 60 fs_bitmap" by code_simp+
  have bm: "bmap_blk fs_start = 58" by (simp add: bmap_blk_def fs_start_def)
  show "b \<le> 58 \<Longrightarrow> used fs_start b" "\<not> used fs_start 59" "\<not> used fs_start 60"
    using bits by (simp_all add: used_def bm fs_start_blk)
qed

lemma fs_start_parts:
  "bmap_blk fs_start = 58" "iblk 0 fs_start = 32" "file_ok fs_start fs_file" "geo fs_start" "2 \<le> card (free_blks fs_start)"
  "txn 0 {} {58, 32} 2 fs_start"
proof -
  show b: "bmap_blk fs_start = 58" "iblk 0 fs_start = 32"
    by (simp_all add: bmap_blk_def iblk_def IBLOCK_def fs_start_def fs_file_def)
  have sz: "sb_size (sb fs_start) = 1000" by (simp add: fs_start_def)
  have z: "fmap B fs_file x = 0" if "x \<le> MAXFILE" for B x using that by (simp add: fmap_def fs_file_def)
  then have own: "own B fs_file = {}" for B by (auto simp: own_def)
  show "file_ok fs_start fs_file" using z own by (auto simp: file_ok_def) (simp_all add: fs_file_def)
  show "geo fs_start" using fs_start_used by (simp add: geo_def b sz fs_start_blk fs_bitmap_def)
  show "2 \<le> card (free_blks fs_start)"
    using fs_start_used(2,3) card_mono [of "free_blks fs_start" "{59, 60}"] by (simp add: free_blks_def sz)
  show "txn 0 {} {58, 32} 2 fs_start"
    using fs_start_cache by (simp add: txn_def) (simp add: fs_start_def)
qed

lemma fs_start_ready: "fready 0 {bmap_blk fs_start, iblk 0 fs_start} 0 1 fs_start" "iblk 0 fs_start < bmap_blk fs_start"
proof -
  have "icache fs_start = [fs_file]" by (simp add: fs_start_def)
  then show "fready 0 {bmap_blk fs_start, iblk 0 fs_start} 0 1 fs_start" "iblk 0 fs_start < bmap_blk fs_start"
    using fs_start_parts by (simp_all add: fready_def need_def ind_cost_def numeral_2_eq_2) (simp add: fs_file_def)
qed

theorem writei_readi_witness:
  "fready 0 {bmap_blk fs_start, iblk 0 fs_start} 0 1 fs_start \<and>
   (\<exists>t u. writei 0 [104, 105] 0 fs_start = Done 2 t \<and> readi 0 0 2 t = Done (2, [104, 105]) u)"
proof -
  have "length (chunks 0 2) = 1" by (simp add: chunks.simps)
  moreover have "i_type (icache fs_start ! 0) \<noteq> T_DEV" by (simp add: fs_start_def fs_file_def)
  ultimately show ?thesis using writei_readi [of 0 fs_start 0 0 "[104, 105]"] fs_start_ready by (auto simp: numeral_2_eq_2)
qed

end
