(* ===== verification/Directory.thy ===== *)
theory Directory
  imports Files
begin

text \<open>
  Directories as maps from names to inode numbers: \<open>dirlookup\<close>, \<open>dirlink\<close> and \<open>iget\<close> of \<open>fs.c\<close> over the
  contents of files. \<open>dlookup\<close> is the map; \<open>dirlookup\<close> computes it and \<open>dirlink\<close> adds one name to it.
\<close>

section \<open>Directory entries\<close>

lemma length_strncpy_list [simp]: "length (strncpy_list n t) = n"
proof -
  have "length (takeWhile (\<lambda>c. c \<noteq> 0) (take n t)) \<le> n" using length_takeWhile_le [of "\<lambda>c. c \<noteq> 0" "take n t"] by simp
  then show ?thesis by (simp add: strncpy_list_def Let_def)
qed

lemma strncpy_list_rec:
  "strncpy_list (Suc n) (c # cs) = (if c = 0 then replicate (Suc n) 0 else c # strncpy_list n cs)" "strncpy_list (Suc n) [] = replicate (Suc n) 0"
  by (simp_all add: strncpy_list_def Let_def)

lemma strncmp_copy: "strncmp_list n p (strncpy_list n p) = 0"
proof (induction n arbitrary: p)
  case (Suc n)
  then show ?case by (cases p) (simp_all add: strncpy_list_rec)
qed simp

lemma dirent_roundtrip: "de_inum de < 2 ^ 16 \<Longrightarrow> dirent_of (dirent_bytes de) = de"
  by (simp add: dirent_of_def dirent_bytes_def le_val_le_bytes)

text \<open>The entry at an offset of a directory, and the entries that \<open>dirlookup\<close> takes.\<close>

definition dent :: "'z fs_st_scheme \<Rightarrow> nat \<Rightarrow> nat \<Rightarrow> dirent" where
  "dent s dp off = dirent_of (map (fbyte (blk s) (icache s ! dp)) [off..<off + 16])"

definition has_name :: "byte list \<Rightarrow> dirent \<Rightarrow> bool" where
  "has_name name de \<longleftrightarrow> de_inum de \<noteq> 0 \<and> namecmp name (de_name de) = 0"

definition dir_ok :: "nat \<Rightarrow> 'z fs_st_scheme \<Rightarrow> nat \<Rightarrow> bool" where
  "dir_ok c s dp \<longleftrightarrow> cache_ok c {} s \<and> geo s \<and> file_ok s (icache s ! dp) \<and> i_type (icache s ! dp) = T_DIR \<and> 16 dvd i_size (icache s ! dp)"

lemma same_view_dir:
  fixes s t :: "'z fs_st_scheme"
  assumes "dir_ok c s dp" "cache_ok c {} t" "same_view s t"
  shows "dir_ok c t dp" "dent t dp off = dent s dp off" "icache t = icache s"
  using assms same_view_readable [OF assms(3)] by (simp_all add: dir_ok_def dent_def)

lemma read_dirent_law:
  fixes s :: "'z cons_st_scheme"
  assumes "dir_ok c s dp" "off + 16 \<le> i_size (icache s ! dp)"
  shows "\<exists>t. read_dirent msg dp off s = Done (dent s dp off) t \<and> cache_ok c {} t \<and> same_view s t"
proof -
  note d = assms(1) [unfolded dir_ok_def]
  have "i_size (icache s ! dp) \<le> MAXFILE * BSIZE" using d file_okD(3) by blast
  then have b: "off \<le> i_size (icache s ! dp)" "off + 16 < 2 ^ 32" "min 16 (i_size (icache s ! dp) - off) = 16" using assms(2) by auto
  have ty: "i_type (icache s ! dp) \<noteq> T_DEV" using d by simp
  obtain t where t: "readi dp off 16 s = Done (int 16, map (fbyte (blk s) (icache s ! dp)) [off..<off + 16]) t" "cache_ok c {} t" "same_view s t"
    using readi_law [of c s dp off 16] d ty b by auto
  then have "read_dirent msg dp off s = Done (dent s dp off) t"
    by (simp add: read_dirent_def bnd_Done thn_panic_if ret_def dent_def)
  with t show ?thesis by blast
qed

lemma dirent_offs_mem: "16 dvd sz \<Longrightarrow> off \<in> set (dirent_offs sz) \<longleftrightarrow> 16 dvd off \<and> off + 16 \<le> sz"
  by (auto simp: dirent_offs_def dvd_def)

lemma dirlookup_loop_law:
  fixes s :: "'z cons_st_scheme"
  assumes "dir_ok c s dp" "\<forall>off\<in>set offs. off + 16 \<le> i_size (icache s ! dp)"
  shows "\<exists>t. dirlookup_loop dp name offs s = (case find (\<lambda>off. has_name name (dent s dp off)) offs of
      None \<Rightarrow> Done None t
    | Some off \<Rightarrow> bnd (iget 1 (de_inum (dent s dp off))) (\<lambda>ip. ret (Some (ip, off))) t) \<and> cache_ok c {} t \<and> same_view s t"
  using assms
proof (induction offs arbitrary: s)
  case Nil
  then show ?case by (intro exI [of _ s]) (simp add: ret_def dir_ok_def)
next
  case (Cons off offs)
  obtain u where u: "read_dirent ''dirlookup read'' dp off s = Done (dent s dp off) u" "cache_ok c {} u" "same_view s u"
    using read_dirent_law [OF Cons.prems(1)] Cons.prems(2) by (meson list.set_intros(1))
  note V = same_view_dir [OF Cons.prems(1) u(2,3)]
  have dev: "i_dev (icache s ! dp) = 1" using Cons.prems(1) file_okD(1) by (auto simp: dir_ok_def)
  show ?case
  proof (cases "has_name name (dent s dp off)")
    case True
    then show ?thesis using u dev V(3)
      by (intro exI [of _ u]) (simp add: bnd_Done has_name_def get_inode_def bnd_gets)
  next
    case False
    obtain t where t: "dirlookup_loop dp name offs u = (case find (\<lambda>off. has_name name (dent u dp off)) offs of
        None \<Rightarrow> Done None t | Some off \<Rightarrow> bnd (iget 1 (de_inum (dent u dp off))) (\<lambda>ip. ret (Some (ip, off))) t)" "cache_ok c {} t" "same_view u t"
      using Cons.IH [OF V(1)] Cons.prems(2) V(3) by auto
    have eq: "dent u dp = dent s dp" by (rule ext) (rule V(2))
    have "dirlookup_loop dp name (off # offs) s = dirlookup_loop dp name offs u" using u(1) False by (auto simp: bnd_Done has_name_def)
    then show ?thesis using t(2) t(1) [unfolded eq] False same_view_trans [OF u(3) t(3)] by (intro exI [of _ t]) simp
  qed
qed

lemma dirlookup_law:
  fixes s :: "'z cons_st_scheme"
  assumes d: "dir_ok c s dp"
  shows "\<exists>t. dirlookup dp name s = (case find (\<lambda>off. has_name name (dent s dp off)) (dirent_offs (i_size (icache s ! dp))) of
      None \<Rightarrow> Done None t
    | Some off \<Rightarrow> bnd (iget 1 (de_inum (dent s dp off))) (\<lambda>ip. ret (Some (ip, off))) t) \<and> cache_ok c {} t \<and> same_view s t"
proof -
  have "dirlookup dp name s = dirlookup_loop dp name (dirent_offs (i_size (icache s ! dp))) s"
    using d by (simp add: dirlookup_def get_inode_def bnd_gets thn_panic_if dir_ok_def)
  then show ?thesis using dirlookup_loop_law [OF d, of "dirent_offs (i_size (icache s ! dp))" name] dirent_offs_mem d by (simp add: dir_ok_def)
qed

section \<open>iget\<close>

definition icached :: "nat \<Rightarrow> nat \<Rightarrow> inode \<Rightarrow> bool" where
  "icached dev inum ip \<longleftrightarrow> i_ref ip > 0 \<and> i_dev ip = dev \<and> i_inum ip = inum"

text \<open>There is a place for the inode in the cache: it is there already, or an entry is not in use.\<close>

definition iroom :: "'z fs_st_scheme \<Rightarrow> nat \<Rightarrow> nat \<Rightarrow> bool" where
  "iroom s dev inum \<longleftrightarrow> length (icache s) = NINODE \<and> (\<exists>j<NINODE. icached dev inum (icache s ! j) \<or> i_ref (icache s ! j) = 0)"

lemma iget_law:
  fixes s :: "'z fs_st_scheme"
  assumes "iroom s dev inum" "LkIcache \<notin> held s"
  shows "\<exists>j x. iget dev inum s = Done j (s\<lparr>icache := (icache s)[j := x]\<rparr>) \<and> j < length (icache s) \<and> icached dev inum x \<and>
    (if icached dev inum (icache s ! j) then x = (icache s ! j)\<lparr>i_ref := i_ref (icache s ! j) + 1\<rparr>
     else i_ref (icache s ! j) = 0 \<and> (\<forall>k<NINODE. \<not> icached dev inum (icache s ! k)) \<and> i_ref x = 1 \<and> \<not> i_valid x \<and> i_lock x = i_lock (icache s ! j))"
proof (cases "\<exists>j<NINODE. icached dev inum (icache s ! j)")
  case True
  then have "find (\<lambda>i. icached dev inum (icache s ! i)) [0..<NINODE] \<noteq> None" by (auto simp: find_None_iff)
  then obtain j where j: "find (\<lambda>i. icached dev inum (icache s ! i)) [0..<NINODE] = Some j" by blast
  then have f: "j < NINODE" "icached dev inum (icache s ! j)" by (auto simp: find_Some_iff)
  let ?x = "(icache s ! j)\<lparr>i_ref := i_ref (icache s ! j) + 1\<rparr>"
  have "iget dev inum s = Done j (s\<lparr>icache := (icache s)[j := ?x]\<rparr>)"
    using j assms(2) by (simp add: iget_def icached_def kop_simps upd_inode_def)
  then show ?thesis using f assms(1) by (intro exI [of _ j] exI [of _ ?x]) (simp add: iroom_def icached_def)
next
  case False
  then have none: "find (\<lambda>i. icached dev inum (icache s ! i)) [0..<NINODE] = None" by (auto simp: find_None_iff)
  have "find (\<lambda>i. i_ref (icache s ! i) = 0) [0..<NINODE] \<noteq> None" using False assms(1) by (auto simp: find_None_iff iroom_def)
  then obtain j where j: "find (\<lambda>i. i_ref (icache s ! i) = 0) [0..<NINODE] = Some j" by blast
  then have f: "j < NINODE" "i_ref (icache s ! j) = 0" by (auto simp: find_Some_iff)
  let ?x = "(icache s ! j)\<lparr>i_dev := dev, i_inum := inum, i_ref := 1, i_valid := False\<rparr>"
  have "iget dev inum s = Done j (s\<lparr>icache := (icache s)[j := ?x]\<rparr>)"
    using none j assms(2) by (simp add: iget_def icached_def kop_simps upd_inode_def)
  then show ?thesis using f False assms(1) by (intro exI [of _ j] exI [of _ ?x]) (auto simp: iroom_def icached_def)
qed

section \<open>dirlink\<close>

lemma free_dirent_law:
  fixes s :: "'z cons_st_scheme"
  assumes "dir_ok c s dp" "\<forall>off\<in>set offs. off + 16 \<le> i_size (icache s ! dp)"
  shows "\<exists>t. free_dirent dp offs z s = Done (case find (\<lambda>off. de_inum (dent s dp off) = 0) offs of None \<Rightarrow> z | Some off \<Rightarrow> off) t \<and>
    cache_ok c {} t \<and> same_view s t"
  using assms
proof (induction offs arbitrary: s)
  case Nil
  then show ?case by (intro exI [of _ s]) (simp add: ret_def dir_ok_def)
next
  case (Cons off offs)
  obtain u where u: "read_dirent ''dirlink read'' dp off s = Done (dent s dp off) u" "cache_ok c {} u" "same_view s u"
    using read_dirent_law [OF Cons.prems(1)] Cons.prems(2) by (meson list.set_intros(1))
  note V = same_view_dir [OF Cons.prems(1) u(2,3)]
  have eq: "dent u dp = dent s dp" by (rule ext) (rule V(2))
  show ?case
  proof (cases "de_inum (dent s dp off) = 0")
    case True
    then show ?thesis using u by (intro exI [of _ u]) (simp add: bnd_Done ret_def)
  next
    case False
    obtain t where t: "free_dirent dp offs z u = Done (case find (\<lambda>off. de_inum (dent s dp off) = 0) offs of None \<Rightarrow> z | Some off \<Rightarrow> off) t"
      "cache_ok c {} t" "same_view u t" using Cons.IH [OF V(1)] Cons.prems(2) V(3) unfolding eq by auto
    then show ?thesis using u(1) False same_view_trans [OF u(3) t(3)] by (intro exI [of _ t]) (simp add: bnd_Done)
  qed
qed

lemma fready_same_view:
  fixes s t :: "'z fs_st_scheme"
  assumes "fready c X i r s" "cache_ok c {} t" "same_view s t"
  shows "fready c X i r t"
proof -
  note f = freadyD [OF assms(1)] and V = same_view_file [OF assms(3) freadyD(2,5) [OF assms(1)]]
  have "ind_cost X i t = ind_cost X i s" "need i t = need i s" using V(3,5) by (simp_all add: ind_cost_def need_def)
  then show ?thesis using f V same_view_txn [OF f(1) assms(3,2)] same_view_readable(2) [OF assms(3)]
    by (simp add: fready_def bmap_blk_def)
qed

lemma chunks_dirent: "16 dvd off \<Longrightarrow> chunks off 16 = [(off div BSIZE, off mod BSIZE, 16)]"
proof -
  assume "16 dvd off"
  then obtain k where "off = 16 * k" by (elim dvdE)
  then have "off mod BSIZE \<le> 496" using mult_mod_right [of 16 k 32] by simp
  then show ?thesis by (simp add: chunks_step min_def)
qed

text \<open>Names are equal for \<open>namecmp\<close> exactly when \<open>dirlink\<close> stores the same bytes for them.\<close>

lemma strncmp_list_iff: "strncmp_list n p q = 0 \<longleftrightarrow> strncpy_list n p = strncpy_list n q"
proof (induction n arbitrary: p q)
  case 0
  then show ?case by (simp add: strncpy_list_def)
next
  case (Suc n)
  show ?case using Suc [of "tl p" "tl q"]
    by (cases p; cases q) (auto simp: strncpy_list_rec Let_def uint_0_iff word_uint_eq_iff [symmetric])
qed

text \<open>A directory as a map from names to inode numbers.\<close>

definition dlookup :: "'z fs_st_scheme \<Rightarrow> nat \<Rightarrow> byte list \<Rightarrow> nat option" where
  "dlookup s dp name = map_option (\<lambda>off. de_inum (dent s dp off))
     (find (\<lambda>off. has_name name (dent s dp off)) (dirent_offs (i_size (icache s ! dp))))"

lemma dirent_offs_Suc: "16 dvd sz \<Longrightarrow> dirent_offs (sz + 16) = dirent_offs sz @ [sz]"
proof -
  assume "16 dvd sz"
  then obtain k where k: "sz = 16 * k" by (elim dvdE)
  have "(sz + 16 + 15) div 16 = Suc k" "(sz + 15) div 16 = k" using k by simp_all
  then show ?thesis by (simp add: dirent_offs_def k)
qed

lemma find_congr: "(\<And>x. x \<in> set xs \<Longrightarrow> P x = Q x) \<Longrightarrow> find P xs = find Q xs"
  by (induction xs) auto

lemma find_snoc: "\<not> P x \<Longrightarrow> find P (xs @ [x]) = find P xs"
  by (induction xs) auto

lemma find_mem: "find P xs = Some x \<Longrightarrow> x \<in> set xs \<and> P x"
  by (induction xs) (auto split: if_splits)

lemma find_unique:
  assumes "x \<in> set xs" "P x" "\<And>y. y \<in> set xs \<Longrightarrow> P y \<Longrightarrow> y = x"
  shows "find P xs = Some x"
proof -
  have "find P xs \<noteq> None" using assms(1,2) by (metis find_None_iff)
  then obtain z where z: "find P xs = Some z" by blast
  then show ?thesis using find_mem [OF z] assms(3) by metis
qed

text \<open>One entry is set: a free one, or a new one at the end.\<close>

lemma dlookup_set:
  assumes sz: "16 dvd i_size (icache s ! dp)"
    and offs: "off \<in> set (dirent_offs (i_size (icache s ! dp))) \<and> i_size (icache t ! dp) = i_size (icache s ! dp) \<and> de_inum (dent s dp off) = 0 \<or>
      off = i_size (icache s ! dp) \<and> i_size (icache t ! dp) = i_size (icache s ! dp) + 16"
    and new: "dent t dp off = \<lparr>de_inum = inum, de_name = strncpy_list DIRSIZ name\<rparr>" "inum \<noteq> 0"
    and old: "\<And>x. x \<in> set (dirent_offs (i_size (icache s ! dp))) \<Longrightarrow> x \<noteq> off \<Longrightarrow> dent t dp x = dent s dp x"
    and none: "dlookup s dp name = None"
  shows "dlookup t dp n = (if strncpy_list DIRSIZ n = strncpy_list DIRSIZ name then Some inum else dlookup s dp n)"
proof -
  let ?S = "dirent_offs (i_size (icache s ! dp))" let ?T = "dirent_offs (i_size (icache t ! dp))"
  have T: "?T = ?S \<or> ?T = ?S @ [off]" using offs dirent_offs_Suc [OF sz] by auto
  have onT: "off \<in> set ?T" and fresh: "off \<in> set ?S \<Longrightarrow> de_inum (dent s dp off) = 0" using offs dirent_offs_Suc [OF sz] dirent_offs_mem [OF sz] by auto
  have hn: "has_name n (dent t dp off) \<longleftrightarrow> strncpy_list DIRSIZ n = strncpy_list DIRSIZ name"
    using new strncmp_list_iff [of DIRSIZ n "strncpy_list DIRSIZ name"] strncmp_list_iff [of DIRSIZ name "strncpy_list DIRSIZ name"] strncmp_copy [of DIRSIZ name]
    by (simp add: has_name_def namecmp_def)
  have no: "\<not> has_name name (dent s dp x)" if "x \<in> set ?S" for x using none that by (auto simp: dlookup_def find_None_iff)
  have nf: "\<not> has_name n (dent s dp off)" if "off \<in> set ?S" using fresh [OF that] by (simp add: has_name_def)
  have same: "has_name n (dent t dp x) \<longleftrightarrow> has_name n (dent s dp x)" if "x \<in> set ?S" "x \<noteq> off" for x using old [OF that] by simp
  show ?thesis
  proof (cases "strncpy_list DIRSIZ n = strncpy_list DIRSIZ name")
    case True
    then have eq: "has_name n = has_name name" by (simp add: has_name_def namecmp_def strncmp_list_iff fun_eq_iff)
    have "find (\<lambda>x. has_name n (dent t dp x)) ?T = Some off"
    proof (rule find_unique [OF onT])
      show "has_name n (dent t dp off)" using hn True by simp
      show "y = off" if y: "y \<in> set ?T" "has_name n (dent t dp y)" for y
      proof (rule ccontr)
        assume "y \<noteq> off"
        then have "y \<in> set ?S" using T y(1) by auto
        then show False using same \<open>y \<noteq> off\<close> no y(2) unfolding eq by blast
      qed
    qed
    then show ?thesis using True new by (simp add: dlookup_def)
  next
    case False
    have "find (\<lambda>x. has_name n (dent t dp x)) ?S = find (\<lambda>x. has_name n (dent s dp x)) ?S"
    proof (rule find_congr)
      fix x assume x: "x \<in> set ?S"
      show "has_name n (dent t dp x) = has_name n (dent s dp x)"
        using same [OF x] hn False nf x by blast
    qed
    then have f: "find (\<lambda>x. has_name n (dent t dp x)) ?T = find (\<lambda>x. has_name n (dent s dp x)) ?S"
      using T find_snoc [of "\<lambda>x. has_name n (dent t dp x)" off ?S] hn False by metis
    have "dent t dp x = dent s dp x" if "find (\<lambda>x. has_name n (dent s dp x)) ?S = Some x" for x
    proof -
      have "x \<in> set ?S" "has_name n (dent s dp x)" using find_mem [OF that] by blast+
      then show ?thesis using old nf by blast
    qed
    then show ?thesis using False f by (cases "find (\<lambda>x. has_name n (dent s dp x)) ?S") (simp_all add: dlookup_def)
  qed
qed

lemma patched_dent:
  fixes s t :: "'z fs_st_scheme"
  assumes p: "patched dp off bs s t" and bs: "length bs = 16" and off: "16 dvd off" "off + 16 \<le> MAXFILE * BSIZE"
  shows "dent t dp off = dirent_of bs"
    and "16 dvd x \<Longrightarrow> x + 16 \<le> MAXFILE * BSIZE \<Longrightarrow> x \<noteq> off \<Longrightarrow> dent t dp x = dent s dp x"
proof -
  have at: "fbyte (blk t) (icache t ! dp) k = (if off \<le> k \<and> k < off + 16 then bs ! (k - off) else fbyte (blk s) (icache s ! dp) k)"
    if "k < MAXFILE * BSIZE" for k using p that bs by (simp add: patched_def)
  have "map (fbyte (blk t) (icache t ! dp)) [off..<off + 16] = bs" using at off bs by (intro nth_equalityI) auto
  then show "dent t dp off = dirent_of bs" by (simp add: dent_def)
  assume x: "16 dvd x" "x + 16 \<le> MAXFILE * BSIZE" "x \<noteq> off"
  obtain a b where ab: "x = 16 * a" "off = 16 * b" using x(1) off(1) by (auto elim!: dvdE)
  then have dis: "x + 16 \<le> off \<or> off + 16 \<le> x" using x(3) by arith
  have "map (fbyte (blk t) (icache t ! dp)) [x..<x + 16] = map (fbyte (blk s) (icache s ! dp)) [x..<x + 16]"
    using at dis x(2) by (intro map_cong) auto
  then show "dent t dp x = dent s dp x" by (simp only: dent_def)
qed

text \<open>The run of \<open>dirlink\<close> for a new name.\<close>

lemma dirlink_run:
  fixes s :: "'z cons_st_scheme" and inum :: nat
  assumes F: "fready c {bmap_blk s, iblk dp s} dp 1 s" and ib: "iblk dp s < bmap_blk s" and d: "dir_ok c s dp"
    and full: "i_size (icache s ! dp) + 16 \<le> MAXFILE * BSIZE" and none: "dlookup s dp name = None"
  defines "bs \<equiv> dirent_bytes \<lparr>de_inum = inum mod 2 ^ 16, de_name = strncpy_list DIRSIZ name\<rparr>"
  shows "\<exists>off t. dirlink dp name inum s = Done 0 t \<and> fready c {bmap_blk s, iblk dp s} dp 0 t \<and> patched dp off bs s t \<and>
    icache t = (icache s)[dp := (icache s ! dp)\<lparr>i_addrs := i_addrs (icache t ! dp), i_size := max (i_size (icache s ! dp)) (off + 16)\<rparr>] \<and> held t = held s \<and>
    (off \<in> set (dirent_offs (i_size (icache s ! dp))) \<and> de_inum (dent s dp off) = 0 \<or> off = i_size (icache s ! dp))"
proof -
  let ?sz = "i_size (icache s ! dp)" let ?offs = "dirent_offs ?sz" let ?X = "{bmap_blk s, iblk dp s}"
  have sz: "16 dvd ?sz" "i_type (icache s ! dp) \<noteq> T_DEV" using d by (auto simp: dir_ok_def)
  have up: "16 * ((?sz + 15) div 16) = ?sz" using sz(1) by (auto elim!: dvdE)
  obtain u where u: "dirlookup dp name s = Done None u" "cache_ok c {} u" "same_view s u"
    using dirlookup_law [OF d, of name] none by (auto simp: dlookup_def)
  note U = same_view_dir [OF d u(2,3)]
  have dU: "dent u dp = dent s dp" by (rule ext) (rule U(2))
  define off where "off = (case find (\<lambda>off. de_inum (dent s dp off) = 0) ?offs of None \<Rightarrow> ?sz | Some off \<Rightarrow> off)"
  have off: "off \<in> set ?offs \<and> de_inum (dent s dp off) = 0 \<or> off = ?sz"
    using find_mem [of "\<lambda>off. de_inum (dent s dp off) = 0" ?offs] by (auto simp: off_def split: option.splits)
  then have off16: "16 dvd off" "off \<le> ?sz" "off + 16 \<le> MAXFILE * BSIZE" using dirent_offs_mem [OF sz(1)] full sz(1) by auto
  obtain v where v: "free_dirent dp ?offs ?sz u = Done off v" "cache_ok c {} v" "same_view u v"
    using free_dirent_law [OF U(1), of ?offs ?sz] dirent_offs_mem [OF sz(1)] U(3) unfolding dU off_def by auto
  have sv: "same_view s v" by (rule same_view_trans [OF u(3) v(3)])
  note V = same_view_readable [OF sv] and Vf = same_view_file [OF sv freadyD(2,5) [OF F]]
  have len: "length bs = 16" by (simp add: bs_def dirent_bytes_def)
  have Fv: "fready c ?X dp (0 + length (chunks off (length bs))) v"
    unfolding len chunks_dirent [OF off16(1)] using fready_same_view [OF F v(2) sv] by simp
  have ibv: "iblk dp v = iblk dp s" "bmap_blk v = bmap_blk s" using V(4) Vf(8) by (simp_all add: iblk_def bmap_blk_def)
  obtain t where t: "writei dp bs off v = Done (int (length bs)) t" "fready c ?X dp 0 t" "rewritten dp off bs v t"
    using writei_law [OF Fv] sz(2) off16 V(4) ib ibv len by auto
  have "dirlink dp name inum s = Done 0 t"
    using u(1) v(1) t(1) U(3) up len
    by (simp add: dirlink_def bnd_Done get_inode_def bnd_gets thn_panic_if ret_def bs_def)
  moreover have "patched dp off bs s t" "icache t = (icache s)[dp := (icache s ! dp)\<lparr>i_addrs := i_addrs (icache t ! dp), i_size := max ?sz (off + 16)\<rparr>]"
    using t(3) V(4,5) len by (simp_all add: rewritten_def patched_def)
  moreover have "held t = held s"
    using t(3) tx_frame_fields(1) [of v "t\<lparr>icache := icache v\<rparr>"] tx_frame_fields(1) [OF same_view_frame [OF sv]] by (simp add: rewritten_def)
  ultimately show ?thesis using t(2) off by blast
qed

text \<open>
  C34. Directories implement maps from names to inode numbers. \<open>dirlink\<close> of a name that is not in the directory
  returns 0 and adds exactly this name, also when it has to extend the directory by an entry; names count up
  to their first 14 bytes. \<open>dirlookup\<close> then finds the inode, with a reference in the cache.
\<close>

theorem dirlink_dirlookup:
  fixes s :: "'z cons_st_scheme"
  assumes F: "fready c {bmap_blk s, iblk dp s} dp 1 s" and ib: "iblk dp s < bmap_blk s"
    and dir: "i_type (icache s ! dp) = T_DIR" "16 dvd i_size (icache s ! dp)" "i_size (icache s ! dp) + 16 \<le> MAXFILE * BSIZE"
    and inum: "0 < inum" "inum < 2 ^ 16" and none: "dlookup s dp name = None"
  shows "\<exists>t. dirlink dp name inum s = Done 0 t \<and>
    (\<forall>n. dlookup t dp n = (if strncpy_list DIRSIZ n = strncpy_list DIRSIZ name then Some inum else dlookup s dp n)) \<and>
    (iroom t 1 inum \<longrightarrow> (\<exists>j off u. dirlookup dp name t = Done (Some (j, off)) u \<and> icached 1 inum (icache u ! j)))"
proof -
  note f = freadyD [OF F]
  have d: "dir_ok c s dp" using txn_cache [OF f(1)] f(2,5) dir by (simp add: dir_ok_def)
  let ?de = "\<lparr>de_inum = inum, de_name = strncpy_list DIRSIZ name\<rparr>"
  obtain off t where t: "dirlink dp name inum s = Done 0 t" "fready c {bmap_blk s, iblk dp s} dp 0 t" "patched dp off (dirent_bytes ?de) s t"
    "icache t = (icache s)[dp := (icache s ! dp)\<lparr>i_addrs := i_addrs (icache t ! dp), i_size := max (i_size (icache s ! dp)) (off + 16)\<rparr>]" "held t = held s"
    "off \<in> set (dirent_offs (i_size (icache s ! dp))) \<and> de_inum (dent s dp off) = 0 \<or> off = i_size (icache s ! dp)"
    using dirlink_run [OF F ib d dir(3) none, of inum] inum by auto
  note ft = freadyD [OF t(2)]
  have off: "16 dvd off" "off + 16 \<le> MAXFILE * BSIZE" using t(6) dirent_offs_mem [OF dir(2), of off] dir(2,3) by auto
  have len: "length (dirent_bytes ?de) = 16" by (simp add: dirent_bytes_def)
  note D = patched_dent [OF t(3) len off]
  have new: "dent t dp off = ?de" using D(1) inum by (simp add: dirent_roundtrip)
  have ti: "icache t ! dp = (icache s ! dp)\<lparr>i_addrs := i_addrs (icache t ! dp), i_size := max (i_size (icache s ! dp)) (off + 16)\<rparr>"
    using t(4) f(4) by (metis nth_list_update_eq)
  have sz: "i_size (icache t ! dp) = max (i_size (icache s ! dp)) (off + 16)" "i_type (icache t ! dp) = T_DIR"
    by (subst ti, simp, subst ti, simp add: dir)
  have case2: "off \<in> set (dirent_offs (i_size (icache s ! dp))) \<and> i_size (icache t ! dp) = i_size (icache s ! dp) \<and> de_inum (dent s dp off) = 0 \<or>
      off = i_size (icache s ! dp) \<and> i_size (icache t ! dp) = i_size (icache s ! dp) + 16"
    using t(6)
  proof
    assume a: "off \<in> set (dirent_offs (i_size (icache s ! dp))) \<and> de_inum (dent s dp off) = 0"
    then have "off + 16 \<le> i_size (icache s ! dp)" using dirent_offs_mem [OF dir(2)] by blast
    then show ?thesis using a sz(1) by simp
  next
    assume "off = i_size (icache s ! dp)"
    then show ?thesis using sz(1) by simp
  qed
  have old: "dent t dp x = dent s dp x" if "x \<in> set (dirent_offs (i_size (icache s ! dp)))" "x \<noteq> off" for x
    using D(2) [of x] that dirent_offs_mem [OF dir(2), of x] dir(3) by simp
  have map: "dlookup t dp n = (if strncpy_list DIRSIZ n = strncpy_list DIRSIZ name then Some inum else dlookup s dp n)" for n
    using dlookup_set [OF dir(2) case2 new _ old none] inum(1) by simp
  have dt: "dir_ok c t dp" using txn_cache [OF ft(1)] ft(2,5) sz dir(2) off by (auto simp: dir_ok_def max_def)
  have "\<exists>j off u. dirlookup dp name t = Done (Some (j, off)) u \<and> icached 1 inum (icache u ! j)" if room: "iroom t 1 inum"
  proof -
    obtain o' where o': "find (\<lambda>off. has_name name (dent t dp off)) (dirent_offs (i_size (icache t ! dp))) = Some o'" "de_inum (dent t dp o') = inum"
      using map [of name] by (auto simp: dlookup_def)
    obtain u where u: "dirlookup dp name t = bnd (iget 1 inum) (\<lambda>ip. ret (Some (ip, o'))) u" "cache_ok c {} u" "same_view t u"
      using dirlookup_law [OF dt, of name] o' by auto
    have h: "LkIcache \<notin> held u" using u(2) by (simp add: cache_ok_def io_ready_def running_def)
    have ru: "iroom u 1 inum" using room same_view_readable(4) [OF u(3)] by (simp add: iroom_def)
    obtain j x where "iget 1 inum u = Done j (u\<lparr>icache := (icache u)[j := x]\<rparr>)" "j < length (icache u)" "icached 1 inum x"
      using iget_law [OF ru h] by (elim exE conjE) (rule that)
    then show ?thesis using u(1) by (simp add: bnd_Done ret_def)
  qed
  then show ?thesis using t(1) map by blast
qed

definition fs_dir :: inode where
  "fs_dir = fs_file\<lparr>i_inum := 1, i_type := T_DIR\<rparr>"

definition dir_start :: cons_st where
  "dir_start = fs_start\<lparr>icache := fs_dir # replicate 49 (fs_file\<lparr>i_ref := 0\<rparr>)\<rparr>"

theorem dirlink_dirlookup_witness:
  "\<exists>t. dirlink 0 [97] 7 dir_start = Done 0 t \<and> dlookup t 0 [97] = Some 7 \<and> dlookup t 0 [98] = None"
proof -
  have ok: "file_ok fs_start fs_file" "geo fs_start" "2 \<le> card (free_blks fs_start)" "txn 0 {} {58, 32} 2 fs_start"
    "bmap_blk fs_start = 58" using fs_start_parts by auto
  have st: "icache dir_start ! 0 = fs_dir" "bmap_blk dir_start = 58" "free_blks dir_start = free_blks fs_start"
    using ok(5) by (simp_all add: dir_start_def free_blks_def)
  have ib: "iblk 0 dir_start = 32"
    by (simp add: iblk_def IBLOCK_def st(1) fs_dir_def) (simp add: dir_start_def fs_start_def)
  have fm: "fmap B fs_dir = fmap B fs_file" for B by (simp add: fun_eq_iff fmap_def fs_dir_def)
  have own: "own B fs_dir = own B fs_file" for B by (simp only: own_def fm)
  have "file_ok fs_start fs_dir" using ok(1) unfolding file_ok_def fm own by (simp add: fs_dir_def)
  then have F: "fready 0 {bmap_blk dir_start, iblk 0 dir_start} 0 1 dir_start"
    unfolding fready_def st ib using ok by (simp add: dir_start_def ind_cost_def need_def numeral_2_eq_2 fs_dir_def) (simp add: fs_file_def)
  have "dlookup dir_start 0 n = None" for n by (simp add: dlookup_def st dirent_offs_def fs_dir_def fs_file_def)
  moreover have "strncpy_list DIRSIZ [98] \<noteq> strncpy_list DIRSIZ [97]" by code_simp
  ultimately show ?thesis
    using dirlink_dirlookup [OF F, of 7 "[97]"] st ib by (auto simp: fs_dir_def fs_file_def)
qed

end
