(* ===== verification/Mkfs.thy ===== *)
theory Mkfs
  imports Directory
begin

text \<open>
  The program that makes the first disk image, src/mkfs.c, on the build host, and what the kernel then finds on the disk. The
  image is the list of its sectors: every access is to one whole sector. The calls of the host on the image file are taken to
  succeed, up to reading past its end; an \<open>exit(1)\<close> and a failed \<open>assert\<close> end the run as a panic does. A file to be copied is
  its name and, if it can be opened, the results of the \<open>read\<close> calls on it. The host is little-endian.
\<close>

section \<open>Model\<close>

abbreviation (input) NINODES :: nat where "NINODES \<equiv> 200"

record mk_st =
  img :: "byte list list"
  freeinode :: nat
  freeblock :: nat
  msb :: superblock

definition xshort :: "nat \<Rightarrow> nat" where
  "xshort x = le_val (le_bytes 2 x)"

definition xint :: "nat \<Rightarrow> nat" where
  "xint x = le_val (le_bytes 4 x)"

text \<open>\<open>sec * BSIZE\<close> is a \<open>uint\<close>.\<close>

definition sect :: "nat \<Rightarrow> nat" where
  "sect sec = sec * BSIZE mod 2 ^ 32 div BSIZE"

definition wsect :: "nat \<Rightarrow> byte list \<Rightarrow> (mk_st, unit) kop" where
  "wsect sec buf = modify (\<lambda>s. s\<lparr>img := (img s @ replicate (Suc (sect sec) - length (img s)) (replicate BSIZE 0))[sect sec := buf]\<rparr>)"

definition rsect :: "nat \<Rightarrow> (mk_st, byte list) kop" where
  "rsect sec = bnd (gets img) (\<lambda>m. if sect sec < length m then ret (m ! sect sec) else panic ''exit'')"

definition winode :: "nat \<Rightarrow> dinode \<Rightarrow> (mk_st, unit) kop" where
  "winode inum ip = bnd (gets msb) (\<lambda>b. bnd (rsect (IBLOCK inum b)) (\<lambda>buf.
     wsect (IBLOCK inum b) (put_dinode (inum mod IPB) ip buf)))"

definition rinode :: "nat \<Rightarrow> (mk_st, dinode) kop" where
  "rinode inum = bnd (gets msb) (\<lambda>b. bnd (rsect (IBLOCK inum b)) (\<lambda>buf. ret (dinode_at (inum mod IPB) buf)))"

definition mk_ialloc :: "nat \<Rightarrow> (mk_st, nat) kop" where
  "mk_ialloc ty = bnd (gets freeinode) (\<lambda>inum. thn (steps
     [modify (\<lambda>s. s\<lparr>freeinode := inum + 1\<rparr>),
      winode inum \<lparr>d_type = int (xshort ty), d_major = 0, d_minor = 0, d_nlink = int (xshort 1), d_size = xint 0,
        d_addrs = replicate (NDIRECT + 1) 0\<rparr>]) (ret inum))"

definition mk_balloc :: "nat \<Rightarrow> (mk_st, unit) kop" where
  "mk_balloc n = thn (panic_if (\<not> n < BSIZE * 8) ''assert'') (bnd (gets msb) (\<lambda>b.
     wsect (sb_bmapstart b) (fold set_bit_at [0..<n] (replicate BSIZE 0))))"

text \<open>\<open>freeblock++\<close>, and the block of the file that \<open>iappend\<close> writes to next, with the inode as it is in memory.\<close>

definition next_block :: "(mk_st, nat) kop" where
  "next_block = bnd (gets freeblock) (\<lambda>b. thn (modify (\<lambda>s. s\<lparr>freeblock := b + 1\<rparr>)) (ret b))"

definition set_addr :: "nat \<Rightarrow> dinode \<Rightarrow> (mk_st, dinode) kop" where
  "set_addr i din = (if xint (d_addrs din ! i) = 0
     then bnd next_block (\<lambda>a. ret (din\<lparr>d_addrs := (d_addrs din)[i := xint a]\<rparr>)) else ret din)"

definition append_block :: "dinode \<Rightarrow> nat \<Rightarrow> (mk_st, dinode \<times> nat) kop" where
  "append_block din fbn =
     (if fbn < NDIRECT then bnd (set_addr fbn din) (\<lambda>din. ret (din, xint (d_addrs din ! fbn)))
      else bnd (set_addr NDIRECT din) (\<lambda>din. let ia = xint (d_addrs din ! NDIRECT); j = 4 * (fbn - NDIRECT) in
        bnd (rsect ia) (\<lambda>ind. if u32_at j ind = 0
          then bnd next_block (\<lambda>a. let ind = put_at j (le_bytes 4 (xint a)) ind in
            thn (wsect ia ind) (ret (din, xint (u32_at j ind))))
          else ret (din, xint (u32_at j ind)))))"

function append_loop :: "dinode \<Rightarrow> nat \<Rightarrow> byte list \<Rightarrow> (mk_st, dinode \<times> nat) kop" where
  "append_loop din off p = (if p = [] then ret (din, off)
     else let fbn = off div BSIZE; n1 = min (length p) ((fbn + 1) * BSIZE - off) in
       thn (panic_if (\<not> fbn < MAXFILE) ''assert'') (bnd (append_block din fbn) (\<lambda>(din, x).
         bnd (rsect x) (\<lambda>buf. thn (wsect x (put_at (off - fbn * BSIZE) (take n1 p) buf))
           (append_loop din (off + n1) (drop n1 p))))))"
  by auto
termination append_loop
  by (relation "measure (\<lambda>(din, off, p). length p)") (auto simp: min_def)

definition iappend :: "nat \<Rightarrow> byte list \<Rightarrow> (mk_st, unit) kop" where
  "iappend inum p = bnd (rinode inum) (\<lambda>din. bnd (append_loop din (xint (d_size din)) p) (\<lambda>(din, off).
     winode inum (din\<lparr>d_size := xint off\<rparr>)))"

definition mk_sb :: superblock where
  "mk_sb = (let nbitmap = FSSIZE div (BSIZE * 8) + 1; ninodeblocks = NINODES div IPB + 1; nlog = LOGSIZE;
       nmeta = 2 + nlog + ninodeblocks + nbitmap; nblocks = FSSIZE - nmeta
     in \<lparr>sb_size = xint FSSIZE, sb_nblocks = xint nblocks, sb_ninodes = xint NINODES, sb_nlog = xint nlog,
        sb_logstart = xint 2, sb_inodestart = xint (2 + nlog), sb_bmapstart = xint (2 + nlog + ninodeblocks)\<rparr>)"

definition sb_bytes :: "superblock \<Rightarrow> byte list" where
  "sb_bytes b = concat (map (le_bytes 4) [sb_size b, sb_nblocks b, sb_ninodes b, sb_nlog b, sb_logstart b, sb_inodestart b, sb_bmapstart b])"

definition append_dirent :: "nat \<Rightarrow> nat \<Rightarrow> byte list \<Rightarrow> (mk_st, unit) kop" where
  "append_dirent rootino inum name = iappend rootino (dirent_bytes \<lparr>de_inum = xshort inum, de_name = strncpy_list DIRSIZ name\<rparr>)"

definition mk_start :: "(mk_st, unit) kop" where
  "mk_start = steps
     [modify (\<lambda>s. s\<lparr>msb := mk_sb, freeblock := 2 + LOGSIZE + (NINODES div IPB + 1) + (FSSIZE div (BSIZE * 8) + 1)\<rparr>),
      for_each [0..<FSSIZE] (\<lambda>i. wsect i (replicate BSIZE 0)),
      wsect 1 (put_at 0 (sb_bytes mk_sb) (replicate BSIZE 0))]"

definition skip_underscore :: "byte list \<Rightarrow> byte list" where
  "skip_underscore name = (case name of [] \<Rightarrow> [] | c # cs \<Rightarrow> if c = 95 then cs else name)"

definition mk_file :: "nat \<Rightarrow> byte list \<times> byte list list option \<Rightarrow> (mk_st, unit) kop" where
  "mk_file rootino f = (case f of (name, fd) \<Rightarrow> thn (panic_if (slash \<in> set name) ''assert'') (case fd of
     None \<Rightarrow> panic ''exit''
   | Some reads \<Rightarrow> bnd (mk_ialloc 2) (\<lambda>inum. steps
       [append_dirent rootino inum (skip_underscore name), for_each reads (iappend inum)])))"

definition fix_root :: "nat \<Rightarrow> (mk_st, unit) kop" where
  "fix_root rootino = bnd (rinode rootino) (\<lambda>din.
     winode rootino (din\<lparr>d_size := xint ((xint (d_size din) div BSIZE + 1) * BSIZE)\<rparr>))"

definition mkfs_main :: "(byte list \<times> byte list list option) list \<Rightarrow> (mk_st, unit) kop" where
  "mkfs_main files = thn mk_start (bnd (mk_ialloc 1) (\<lambda>rootino. steps
     [panic_if (rootino \<noteq> ROOTINO) ''assert'',
      append_dirent rootino rootino [46],
      append_dirent rootino rootino [46, 46],
      for_each files (mk_file rootino),
      fix_root rootino,
      bnd (gets freeblock) mk_balloc]))"

definition mk0 :: mk_st where
  "mk0 = \<lparr>img = [], freeinode = 1, freeblock = 0,
     msb = \<lparr>sb_size = 0, sb_nblocks = 0, sb_ninodes = 0, sb_nlog = 0, sb_logstart = 0, sb_inodestart = 0, sb_bmapstart = 0\<rparr>\<rparr>"

declare append_loop.simps [simp del]



section \<open>Inodes as bytes\<close>

lemma slice_slice: "a + n \<le> m \<Longrightarrow> slice a n (slice b m xs) = slice (b + a) n xs"
  by (simp add: slice_def drop_take add.commute min_def)

lemma slice_append: "length xs = a \<Longrightarrow> slice (a + b) n (xs @ ys) = slice b n ys" "a + n \<le> length xs \<Longrightarrow> slice a n (xs @ ys) = slice a n xs"
  by (simp_all add: slice_def)

lemma length_words: "length (concat (map (le_bytes 4) xs)) = 4 * length xs"
  by (induction xs) auto

lemma u32_words: "i < length xs \<Longrightarrow> u32_at (4 * i) (concat (map (le_bytes 4) xs)) = xs ! i mod 2 ^ 32"
proof (induction xs arbitrary: i)
  case (Cons x xs)
  show ?case
  proof (cases i)
    case 0
    then show ?thesis using le_val_le_bytes [of 4 x] by (simp add: u32_at_def slice_def)
  next
    case (Suc j)
    then show ?thesis using Cons slice_append(1) [of "le_bytes 4 x" 4 "4 * j" 4 "concat (map (le_bytes 4) xs)"] by (simp add: u32_at_def)
  qed
qed simp

definition dinode_fits :: "dinode \<Rightarrow> bool" where
  "dinode_fits x \<longleftrightarrow> (\<forall>v\<in>{d_type x, d_major x, d_minor x, d_nlink x}. - (2 ^ 15) \<le> v \<and> v < 2 ^ 15) \<and> d_size x < 2 ^ 32 \<and>
     length (d_addrs x) = 13 \<and> (\<forall>a\<in>set (d_addrs x). a < 2 ^ 32)"

lemma le_short_val:
  assumes "- (2 ^ 15) \<le> v" "v < 2 ^ 15"
  shows "(let w = le_val (le_short v) in if w < 2 ^ 15 then int w else int w - 2 ^ 16) = v"
proof -
  have "le_val (le_short v) = nat (v mod 2 ^ 16)" unfolding le_short_def le_val_le_bytes by (simp add: nat_less_iff)
  moreover have "v mod 2 ^ 16 = (if v < 0 then v + 2 ^ 16 else v)"
    using assms mod_pos_pos_trivial [of "v + 2 ^ 16" "2 ^ 16"] mod_pos_pos_trivial [of v "2 ^ 16"] mod_add_self2 [of v "2 ^ 16"] by auto
  ultimately show ?thesis using assms by (auto simp: Let_def)
qed

lemma dinode_at_slice:
  assumes "64 * k + 64 \<le> length d"
  shows "dinode_at k d = dinode_at 0 (slice (64 * k) 64 d)"
  by (simp add: dinode_at_def s16_at_def u32_at_def slice_slice add.assoc)

lemma dinode_bytes_at:
  assumes "dinode_fits x"
  shows "dinode_at 0 (dinode_bytes x) = x"
proof -
  have x: "length (d_addrs x) = 13" "d_size x < 2 ^ 32" "\<forall>a\<in>set (d_addrs x). a < 2 ^ 32" using assms by (simp_all add: dinode_fits_def)
  let ?w = "concat (map (le_bytes 4) (d_addrs x))" and ?h = "le_short (d_type x) @ le_short (d_major x) @ le_short (d_minor x) @ le_short (d_nlink x)"
  have len: "length (le_short v) = 2" for v by (simp add: le_short_def)
  have b: "dinode_bytes x = (?h @ le_bytes 4 (d_size x)) @ ?w" by (simp add: dinode_bytes_def)
  have "s16_at 0 (dinode_bytes x) = d_type x" "s16_at 2 (dinode_bytes x) = d_major x" "s16_at 4 (dinode_bytes x) = d_minor x" "s16_at 6 (dinode_bytes x) = d_nlink x"
    using assms le_short_val by (simp_all add: dinode_fits_def s16_at_def dinode_bytes_def slice_def len)
  moreover have "u32_at 8 (dinode_bytes x) = d_size x"
    using x(2) by (simp add: u32_at_def dinode_bytes_def slice_def len le_val_le_bytes)
  moreover have "map (\<lambda>i. u32_at (12 + 4 * i) (dinode_bytes x)) [0..<13] = d_addrs x"
  proof (rule nth_equalityI)
    fix i assume "i < length (map (\<lambda>i. u32_at (12 + 4 * i) (dinode_bytes x)) [0..<13])"
    then have i: "i < 13" by simp
    have "u32_at (12 + 4 * i) (dinode_bytes x) = u32_at (4 * i) ?w"
      unfolding b u32_at_def by (subst slice_append(1)) (simp_all add: len)
    also have "\<dots> = d_addrs x ! i" using u32_words [of i "d_addrs x"] x i by simp
    finally show "map (\<lambda>i. u32_at (12 + 4 * i) (dinode_bytes x)) [0..<13] ! i = d_addrs x ! i" using i by simp
  qed (simp add: x)
  ultimately show ?thesis by (simp add: dinode_at_def numeral_2_eq_2)
qed

lemma dinode_at_put:
  assumes "dinode_fits x" "length d = BSIZE" "k < IPB" "j < IPB"
  shows "dinode_at j (put_dinode k x d) = (if j = k then x else dinode_at j d)"
proof -
  have len: "length (dinode_bytes x) = 64" using assms(1) by (simp add: length_dinode_bytes dinode_fits_def)
  have fit: "64 * k + length (dinode_bytes x) \<le> length d" using assms len by simp
  then have lp: "length (put_dinode k x d) = length d" by (simp add: put_dinode_def)
  show ?thesis
  proof (cases "j = k")
    case True
    then show ?thesis using dinode_at_slice [of k "put_dinode k x d"] fit len lp dinode_bytes_at [OF assms(1)]
      by (simp add: put_dinode_def slice_put_at_same)
  next
    case False
    then have "slice (64 * j) 64 (put_dinode k x d) = slice (64 * j) 64 d"
      unfolding put_dinode_def using assms fit len by (intro slice_put_at_apart) auto
    then show ?thesis using False assms lp dinode_at_slice [of j "put_dinode k x d"] dinode_at_slice [of j d] by simp
  qed
qed



section \<open>The image\<close>

abbreviation (input) nmeta :: nat where "nmeta \<equiv> 59"

lemma mk_sb_fields [simp]: "sb_size mk_sb = FSSIZE" "sb_ninodes mk_sb = NINODES" "sb_inodestart mk_sb = 32" "sb_bmapstart mk_sb = 58"
  by (simp_all add: mk_sb_def xint_def le_val_le_bytes Let_def)

lemma xint_id [simp]: "x < 2 ^ 32 \<Longrightarrow> xint x = x"
  by (simp add: xint_def le_val_le_bytes)

lemma xshort_id [simp]: "x < 2 ^ 16 \<Longrightarrow> xshort x = x"
  by (simp add: xshort_def le_val_le_bytes)

definition image_ok :: "mk_st \<Rightarrow> bool" where
  "image_ok t \<longleftrightarrow> length (img t) = FSSIZE \<and> (\<forall>b<FSSIZE. length (img t ! b) = BSIZE) \<and> msb t = mk_sb \<and>
     nmeta \<le> freeblock t \<and> freeblock t \<le> FSSIZE \<and> (\<forall>b. freeblock t \<le> b \<longrightarrow> b < FSSIZE \<longrightarrow> img t ! b = replicate BSIZE 0)"

lemma image_okD:
  assumes "image_ok t"
  shows "length (img t) = FSSIZE" "b < FSSIZE \<Longrightarrow> length (img t ! b) = BSIZE" "msb t = mk_sb" "nmeta \<le> freeblock t" "freeblock t \<le> FSSIZE"
    "freeblock t \<le> b \<Longrightarrow> b < FSSIZE \<Longrightarrow> img t ! b = replicate BSIZE 0"
  using assms by (simp_all add: image_ok_def)

lemma sect_id: "b < FSSIZE \<Longrightarrow> sect b = b"
  by (simp add: sect_def)

lemma rsect_run: "image_ok t \<Longrightarrow> b < FSSIZE \<Longrightarrow> rsect b t = Done (img t ! b) t"
  by (simp add: rsect_def bnd_gets sect_id image_okD ret_def)

lemma wsect_run: "length (img t) = FSSIZE \<Longrightarrow> b < FSSIZE \<Longrightarrow> wsect b d t = Done () (t\<lparr>img := (img t)[b := d]\<rparr>)"
  by (simp add: wsect_def modify_def sect_id)

lemma wsect_ok: "image_ok t \<Longrightarrow> b < freeblock t \<Longrightarrow> length d = BSIZE \<Longrightarrow> image_ok (t\<lparr>img := (img t)[b := d]\<rparr>)"
  by (auto simp: image_ok_def nth_list_update)

lemma next_block_run: "next_block t = Done (freeblock t) (t\<lparr>freeblock := freeblock t + 1\<rparr>)"
  by (simp add: next_block_def bnd_gets thn_modify ret_def)

lemma next_block_ok: "image_ok t \<Longrightarrow> freeblock t < FSSIZE \<Longrightarrow> image_ok (t\<lparr>freeblock := freeblock t + 1\<rparr>)"
  by (simp add: image_ok_def)

section \<open>A file on the image\<close>

text \<open>
  The inode the kernel makes of a disk inode. \<open>mfile B hi ip S data\<close>: of the positions of a file (the last one is its indirect block)
  those in \<open>S\<close> have blocks, all below \<open>hi\<close> and different, and its bytes are \<open>data\<close>, followed by zeros.
\<close>

definition ipd :: "dinode \<Rightarrow> inode" where
  "ipd din = from_dinode din fs_file"

lemma ipd_simps [simp]: "i_addrs (ipd din) = d_addrs din" "ipd (din\<lparr>d_addrs := as\<rparr>) = (ipd din)\<lparr>i_addrs := as\<rparr>" "i_size (ipd din) = d_size din"
  "i_type (ipd din) = d_type din" "i_dev (ipd din) = 1"
  by (simp_all add: ipd_def from_dinode_def fs_file_def)

definition pad :: "byte list \<Rightarrow> nat \<Rightarrow> byte" where
  "pad data k = (if k < length data then data ! k else 0)"

definition mfile :: "(nat \<Rightarrow> byte list) \<Rightarrow> nat \<Rightarrow> inode \<Rightarrow> nat set \<Rightarrow> byte list \<Rightarrow> bool" where
  "mfile B hi ip S data \<longleftrightarrow> length (i_addrs ip) = 13 \<and> (\<forall>x\<in>S. x \<le> MAXFILE) \<and> (\<forall>x\<le>MAXFILE. fmap B ip x \<noteq> 0 \<longleftrightarrow> x \<in> S) \<and>
     (\<forall>x\<in>S. nmeta \<le> fmap B ip x \<and> fmap B ip x < hi) \<and> inj_on (fmap B ip) S \<and> length data \<le> MAXFILE * BSIZE \<and>
     (\<forall>k<length data. k div BSIZE \<in> S) \<and>
     (\<forall>k<MAXFILE * BSIZE. k div BSIZE \<in> S \<longrightarrow> B (fmap B ip (k div BSIZE)) ! (k mod BSIZE) = pad data k)"

lemma mfileD:
  assumes "mfile B hi ip S data"
  shows "length (i_addrs ip) = 13" "x \<in> S \<Longrightarrow> x \<le> MAXFILE" "x \<le> MAXFILE \<Longrightarrow> fmap B ip x \<noteq> 0 \<longleftrightarrow> x \<in> S"
    "x \<in> S \<Longrightarrow> nmeta \<le> fmap B ip x" "x \<in> S \<Longrightarrow> fmap B ip x < hi" "inj_on (fmap B ip) S" "length data \<le> MAXFILE * BSIZE"
    "k < length data \<Longrightarrow> k div BSIZE \<in> S"
    "k < MAXFILE * BSIZE \<Longrightarrow> k div BSIZE \<in> S \<Longrightarrow> B (fmap B ip (k div BSIZE)) ! (k mod BSIZE) = pad data k"
  using assms unfolding mfile_def by simp_all

lemma mfile_own:
  assumes "mfile B hi ip S data"
  shows "own B ip = fmap B ip ` S"
proof -
  have "fmap B ip x \<in> fmap B ip ` S" if "x \<le> MAXFILE" "fmap B ip x \<noteq> 0" for x using that mfileD(3) [OF assms that(1)] by simp
  moreover have "x \<le> MAXFILE \<and> fmap B ip x \<noteq> 0" if "x \<in> S" for x using mfileD(2,3) [OF assms, of x] that by simp
  ultimately show ?thesis unfolding own_def by (intro equalityI subsetI) (auto simp del: atMost_iff simp: atMost_def)
qed

lemma mfile_finite: "mfile B hi ip S data \<Longrightarrow> finite S"
  by (rule finite_subset [of S "{..MAXFILE}"]) (auto dest: mfileD(2))

text \<open>A new block at position \<open>p\<close>.\<close>

lemma mfile_grow:
  assumes f: "mfile B hi ip S data" and p: "p \<le> MAXFILE" "p \<notin> S" and hi: "nmeta \<le> hi" and ip': "length (i_addrs ip') = 13"
    and m: "\<And>x. x \<le> MAXFILE \<Longrightarrow> fmap B' ip' x = (if x = p then hi else fmap B ip x)"
    and same: "\<And>x. x \<in> S \<Longrightarrow> x < MAXFILE \<Longrightarrow> B' (fmap B ip x) = B (fmap B ip x)"
    and new: "p < MAXFILE \<Longrightarrow> B' hi = replicate BSIZE 0"
  shows "mfile B' (Suc hi) ip' (insert p S) data"
proof -
  note F = mfileD [OF f]
  have S: "x \<le> MAXFILE" if "x \<in> S" for x by (rule F(2) [OF that])
  have eq: "fmap B' ip' x = fmap B ip x" if "x \<in> S" for x using m [OF S [OF that]] p(2) that by auto
  have inj: "inj_on (fmap B' ip') (insert p S)"
  proof -
    have "inj_on (fmap B' ip') S" using F(6) eq by (simp add: inj_on_def)
    moreover have "fmap B' ip' p \<notin> fmap B' ip' ` S" using m [OF p(1)] eq F(5) by fastforce
    ultimately show ?thesis by (simp add: inj_on_insert p(2))
  qed
  have "B' (fmap B' ip' (k div BSIZE)) ! (k mod BSIZE) = pad data k" if k: "k < MAXFILE * BSIZE" "k div BSIZE \<in> insert p S" for k
  proof -
    have lt: "k div BSIZE < MAXFILE" using k(1) by (simp add: less_mult_imp_div_less)
    show ?thesis
    proof (cases "k div BSIZE = p")
      case True
      then have "\<not> k < length data" using F(8) p(2) by blast
      then show ?thesis using True m [OF p(1)] new lt by (simp add: pad_def)
    next
      case False
      then have "k div BSIZE \<in> S" using k(2) by simp
      then show ?thesis using F(9) [OF k(1)] eq same lt by simp
    qed
  qed
  moreover have "fmap B' ip' x \<noteq> 0 \<longleftrightarrow> x \<in> insert p S" if "x \<le> MAXFILE" for x using m [OF that] F(3) [OF that] hi by auto
  moreover have "nmeta \<le> fmap B' ip' x \<and> fmap B' ip' x < Suc hi" if "x \<in> insert p S" for x
    using that m [OF p(1)] eq F(4,5) hi by (auto simp: less_Suc_eq)
  ultimately show ?thesis unfolding mfile_def using ip' p(1) S F(7,8) inj by auto
qed

text \<open>Bytes written at the end of the contents, inside one block.\<close>

lemma split_block: "r < BSIZE \<Longrightarrow> (r + q * BSIZE) div BSIZE = (q :: nat)" "r < BSIZE \<Longrightarrow> (r + q * BSIZE) mod BSIZE = r"
  by simp_all

lemma mfile_append:
  assumes f: "mfile B hi ip S data" and n: "length data = r + q * BSIZE" "r + length c \<le> BSIZE" "r < BSIZE" and b: "q \<in> S" "q < MAXFILE"
    and len: "length (B (fmap B ip q)) = BSIZE"
  defines "x \<equiv> fmap B ip q"
  shows "fmap (B(x := put_at r c (B x))) ip = fmap B ip" (is "fmap ?B _ = _") and "mfile (B(x := put_at r c (B x))) hi ip S (data @ c)"
proof -
  note F = mfileD [OF f]
  have ind: "i_addrs ip ! NDIRECT \<noteq> x \<or> i_addrs ip ! NDIRECT = 0"
  proof (rule disjCI)
    assume "\<not> i_addrs ip ! NDIRECT = 0"
    then have m: "fmap B ip MAXFILE = i_addrs ip ! NDIRECT" "MAXFILE \<in> S" using F(3) [of MAXFILE] by (simp_all add: fmap_def)
    then show "i_addrs ip ! NDIRECT \<noteq> x" using inj_onD [OF F(6), of MAXFILE q] b by (auto simp: x_def)
  qed
  show fm: "fmap ?B ip = fmap B ip" using ind by (auto simp: fmap_def fun_eq_iff)
  have "k div BSIZE \<in> S" if k: "k < length data + length c" for k
  proof (cases "k < length data")
    case False
    then have "k div BSIZE = q" using split_block(1) [of "k - q * BSIZE" q] k n by simp
    then show ?thesis using b(1) by simp
  qed (rule F(8))
  moreover have "?B (fmap B ip (k div BSIZE)) ! (k mod BSIZE) = pad (data @ c) k" if k: "k < MAXFILE * BSIZE" "k div BSIZE \<in> S" for k
  proof -
    define i j where "i = k mod BSIZE" and "j = k div BSIZE"
    have ij: "k = i + j * BSIZE" "i < BSIZE" by (simp_all add: i_def j_def)
    have old: "j \<in> S" "B (fmap B ip j) ! i = pad data k" using F(9) [OF k] k(2) by (simp_all add: i_def j_def)
    have "?B (fmap B ip j) ! i = pad (data @ c) k"
    proof (cases "j = q")
      case True
      then have "B x ! i = pad data k" "length (B x) = BSIZE" using old(2) len by (simp_all add: x_def)
      then show ?thesis using True ij n by (auto simp: x_def nth_put_at pad_def nth_append)
    next
      case False
      then have "fmap B ip j \<noteq> x" using inj_onD [OF F(6) _ old(1) b(1)] by (auto simp: x_def)
      moreover have "k < length data \<longleftrightarrow> k < length (data @ c)" using False ij n by auto
      ultimately show ?thesis using old(2) by (auto simp: pad_def nth_append)
    qed
    then show ?thesis by (simp add: i_def j_def)
  qed
  moreover have "length data + length c \<le> MAXFILE * BSIZE" using b(2) n by simp
  ultimately show "mfile ?B hi ip S (data @ c)" using f unfolding mfile_def fm length_append by (elim conjE, intro conjI allI impI; simp)
qed



text \<open>
  From \<open>t\<close> to \<open>t'\<close> the file has changed and got new blocks; what other files have is as it was.
\<close>

definition mext :: "mk_st \<Rightarrow> inode \<Rightarrow> mk_st \<Rightarrow> inode \<Rightarrow> bool" where
  "mext t ip t' ip' \<longleftrightarrow> image_ok t' \<and> freeblock t \<le> freeblock t' \<and> freeinode t' = freeinode t \<and>
     (\<forall>b<freeblock t. b \<notin> own (nth (img t)) ip \<longrightarrow> img t' ! b = img t ! b) \<and>
     own (nth (img t')) ip' \<subseteq> own (nth (img t)) ip \<union> {freeblock t..<freeblock t'}"

lemma mext_refl: "image_ok t \<Longrightarrow> mext t ip t ip"
  by (simp add: mext_def)

lemma mext_trans:
  assumes "mext t ip t1 ip1" "mext t1 ip1 t2 ip2"
  shows "mext t ip t2 ip2"
proof -
  have "img t2 ! b = img t ! b" if b: "b < freeblock t" "b \<notin> own (nth (img t)) ip" for b
  proof -
    have "b < freeblock t1" "b \<notin> own (nth (img t1)) ip1" using assms(1) b by (auto simp: mext_def)
    then show ?thesis using assms b by (simp add: mext_def)
  qed
  moreover have "own (nth (img t2)) ip2 \<subseteq> own (nth (img t)) ip \<union> {freeblock t..<freeblock t2}"
    using assms unfolding mext_def by fastforce
  ultimately show ?thesis using assms unfolding mext_def by (metis le_trans)
qed

definition mgot :: "mk_st \<Rightarrow> dinode \<Rightarrow> nat set \<Rightarrow> mk_st \<Rightarrow> dinode \<Rightarrow> nat set \<Rightarrow> byte list \<Rightarrow> bool" where
  "mgot t din S t' din' S' data \<longleftrightarrow> mfile (nth (img t')) (freeblock t') (ipd din') S' data \<and> mext t (ipd din) t' (ipd din') \<and>
     freeblock t' + card S = freeblock t + card S' \<and> (\<exists>as. din' = din\<lparr>d_addrs := as\<rparr>)"

lemma mgot_refl: "image_ok t \<Longrightarrow> mfile (nth (img t)) (freeblock t) (ipd din) S data \<Longrightarrow> mgot t din S t din S data"
  using dinode.surjective [of din] by (auto simp: mgot_def mext_refl intro!: exI [of _ "d_addrs din"])

lemma mgot_trans:
  assumes "mgot t din S t1 din1 S1 data1" "mgot t1 din1 S1 t2 din2 S2 data2"
  shows "mgot t din S t2 din2 S2 data2"
proof -
  obtain as as' where "din1 = din\<lparr>d_addrs := as\<rparr>" "din2 = din1\<lparr>d_addrs := as'\<rparr>" using assms by (auto simp: mgot_def)
  then have "\<exists>as. din2 = din\<lparr>d_addrs := as\<rparr>" by auto
  moreover have "mext t (ipd din) t2 (ipd din2)" by (rule mext_trans [of _ _ t1 "ipd din1"]) (use assms in \<open>simp_all add: mgot_def\<close>)
  moreover have "freeblock t2 + card S = freeblock t + card S2" using assms by (simp add: mgot_def)
  ultimately show ?thesis using assms(2) by (simp add: mgot_def)
qed

lemma mfile_addr_lt:
  assumes "image_ok t" "mfile (nth (img t)) (freeblock t) ip S data" "x \<le> MAXFILE"
  shows "fmap (nth (img t)) ip x < FSSIZE"
  using mfileD(3,5) [OF assms(2), of x] assms(3) image_okD(5) [OF assms(1)] by (cases "x \<in> S") auto

lemma set_addr_law:
  assumes ok: "image_ok t" and f: "mfile (nth (img t)) (freeblock t) (ipd din) S data" and i: "i \<le> NDIRECT"
    and p: "p = (if i = NDIRECT then MAXFILE else i)" and room: "p \<notin> S \<Longrightarrow> freeblock t < FSSIZE"
  shows "\<exists>din' t'. set_addr i din t = Done din' t' \<and> mgot t din S t' din' (insert p S) data"
proof -
  note F = mfileD [OF f]
  have pm: "p \<le> MAXFILE" and a: "d_addrs din ! i = fmap (nth (img t)) (ipd din) p" using i p by (auto simp: fmap_def)
  then have x: "xint (d_addrs din ! i) = fmap (nth (img t)) (ipd din) p" using mfile_addr_lt [OF ok f pm] by simp
  show ?thesis
  proof (cases "p \<in> S")
    case True
    then have "set_addr i din t = Done din t" using x F(3) [OF pm] by (simp add: set_addr_def ret_def)
    then show ?thesis using True mgot_refl [OF ok f] by (auto simp: insert_absorb)
  next
    case False
    let ?h = "freeblock t" let ?din = "din\<lparr>d_addrs := (d_addrs din)[i := ?h]\<rparr>" and ?t = "t\<lparr>freeblock := ?h + 1\<rparr>"
    have z: "fmap (nth (img t)) (ipd din) p = 0" using F(3) [OF pm] False by simp
    have h: "?h < FSSIZE" "nmeta \<le> ?h" using room [OF False] image_okD(4) [OF ok] by simp_all
    have run: "set_addr i din t = Done ?din ?t" using x z h by (simp add: set_addr_def next_block_run bnd_Done ret_def)
    have m: "fmap (nth (img t)) (ipd ?din) x = (if x = p then ?h else fmap (nth (img t)) (ipd din) x)" if "x \<le> MAXFILE" for x
      using fmap_set_addr [of "ipd din" i "nth (img t)" "nth (img t)" ?h x] F(1) i a z that image_okD(6) [OF ok, of ?h] h p by simp
    have g: "mfile (nth (img t)) (Suc ?h) (ipd ?din) (insert p S) data"
      by (rule mfile_grow [OF f pm False h(2)]) (use F(1) m image_okD(6) [OF ok, of ?h] h in simp_all)
    have "own (nth (img t)) (ipd ?din) \<subseteq> own (nth (img t)) (ipd din) \<union> {?h..<Suc ?h}"
      unfolding mfile_own [OF g] mfile_own [OF f] using m F(2) pm by auto
    then have "mgot t din S ?t ?din (insert p S) data"
      using g next_block_ok [OF ok h(1)] False mfile_finite [OF f] by (auto simp: mgot_def mext_def)
    then show ?thesis using run by blast
  qed
qed



lemma nth_update: "b < length xs \<Longrightarrow> nth (xs[b := d]) = (nth xs)(b := d)"
  by (auto simp: fun_eq_iff)

lemma entry_law:
  assumes ok: "image_ok t" and f: "mfile (nth (img t)) (freeblock t) (ipd din) S data" and fbn: "NDIRECT \<le> fbn" "fbn < MAXFILE" and ind: "MAXFILE \<in> S"
    and room: "fbn \<notin> S \<Longrightarrow> freeblock t < FSSIZE"
  defines "ia \<equiv> xint (d_addrs din ! NDIRECT)" and "j \<equiv> 4 * (fbn - NDIRECT)"
  shows "\<exists>t'. bnd (rsect ia) (\<lambda>ind. if u32_at j ind = 0
        then bnd next_block (\<lambda>a. let ind = put_at j (le_bytes 4 (xint a)) ind in thn (wsect ia ind) (ret (din, xint (u32_at j ind))))
        else ret (din, xint (u32_at j ind))) t = Done (din, fmap (nth (img t')) (ipd din) fbn) t' \<and>
      mgot t din S t' din (insert fbn S) data"
proof -
  note F = mfileD [OF f]
  let ?B = "nth (img t)" and ?h = "freeblock t"
  have m0: "fmap ?B (ipd din) MAXFILE = d_addrs din ! NDIRECT" by (simp add: fmap_def)
  have ia: "ia = d_addrs din ! NDIRECT" "nmeta \<le> ia" "ia < ?h" "ia < FSSIZE"
    using F(4,5) [OF ind] m0 image_okD(5) [OF ok] by (simp_all add: ia_def)
  have e: "fmap ?B (ipd din) fbn = u32_at j (img t ! ia)" using fbn ia by (simp add: fmap_def j_def)
  have el: "u32_at j (img t ! ia) < FSSIZE" using mfile_addr_lt [OF ok f, of fbn] fbn e by simp
  have len: "length (img t ! ia) = BSIZE" using image_okD(2) [OF ok ia(4)] .
  show ?thesis
  proof (cases "fbn \<in> S")
    case True
    then show ?thesis using F(3) [of fbn] fbn e el rsect_run [OF ok ia(4)] mgot_refl [OF ok f] by (simp add: bnd_Done ret_def insert_absorb)
  next
    case False
    let ?d = "put_at j (le_bytes 4 ?h) (img t ! ia)" let ?t = "t\<lparr>freeblock := ?h + 1, img := (img t)[ia := ?d]\<rparr>"
    have z: "u32_at j (img t ! ia) = 0" using F(3) [of fbn] fbn e False by simp
    have h: "?h < FSSIZE" "nmeta \<le> ?h" using room [OF False] image_okD(4) [OF ok] by simp_all
    have jl: "j + 4 \<le> BSIZE" using fbn by (simp add: j_def)
    have u: "u32_at j ?d = ?h" using jl len h by (simp add: u32_at_def slice_put_at_same le_val_le_bytes)
    have B: "nth (img ?t) = ?B(ia := ?d)" using ia image_okD(1) [OF ok] by (simp add: nth_update)
    have m: "fmap (nth (img ?t)) (ipd din) x = (if x = fbn then ?h else fmap ?B (ipd din) x)" if "x \<le> MAXFILE" for x
      using fmap_set_entry [of "ipd din" ia ?B "fbn - NDIRECT" ?h "nth (img ?t)" x] fbn ia len h that unfolding B by (simp add: j_def)
    have run: "wsect ia ?d (t\<lparr>freeblock := ?h + 1\<rparr>) = Done () ?t" using image_okD(1) [OF ok] ia by (simp add: wsect_run)
    have g: "mfile (nth (img ?t)) (Suc ?h) (ipd din) (insert fbn S) data"
    proof (rule mfile_grow [OF f _ False h(2) F(1) m])
      show "nth (img ?t) (fmap ?B (ipd din) x) = ?B (fmap ?B (ipd din) x)" if "x \<in> S" "x < MAXFILE" for x
        using inj_onD [OF F(6) _ that(1) ind] that(2) m0 ia unfolding B by auto
      show "nth (img ?t) ?h = replicate BSIZE 0" unfolding B using ia h image_okD(6) [OF ok, of ?h] by simp
    qed (use fbn in auto)
    have "own (nth (img ?t)) (ipd din) \<subseteq> own ?B (ipd din) \<union> {?h..<Suc ?h}"
      unfolding mfile_own [OF g] mfile_own [OF f] using m F(2) fbn by fastforce
    moreover have "(img t)[ia := ?d] ! b = img t ! b" if "b \<notin> own ?B (ipd din)" for b
    proof -
      have "ia \<in> own ?B (ipd din)" unfolding mfile_own [OF f] using m0 ia ind by force
      then show ?thesis using that by (cases "b = ia") auto
    qed
    moreover have "image_ok ?t" using wsect_ok [OF next_block_ok [OF ok h(1)], of ia ?d] ia jl len by simp
    ultimately have "mext t (ipd din) ?t (ipd din)" by (auto simp: mext_def)
    then have "mgot t din S ?t din (insert fbn S) data" using g False mfile_finite [OF f] dinode.surjective [of din]
      by (auto simp: mgot_def intro!: exI [of _ "d_addrs din"])
    moreover have "fmap (nth (img ?t)) (ipd din) fbn = ?h" using m [of fbn] fbn by simp
    ultimately show ?thesis using z h u run rsect_run [OF ok ia(4)]
      by (intro exI [of _ ?t]) (simp add: bnd_Done next_block_run thn_Done ret_def)
  qed
qed

lemma append_block_law:
  assumes ok: "image_ok t" and f: "mfile (nth (img t)) (freeblock t) (ipd din) S data" and fbn: "fbn < MAXFILE"
  defines "S' \<equiv> insert fbn (if fbn < NDIRECT then S else insert MAXFILE S)"
  assumes room: "freeblock t + card S' \<le> FSSIZE + card S"
  shows "\<exists>din' t'. append_block din fbn t = Done (din', fmap (nth (img t')) (ipd din') fbn) t' \<and> mgot t din S t' din' S' data"
proof (cases "fbn < NDIRECT")
  case True
  then have S': "S' = insert fbn S" by (simp add: S'_def)
  have "fbn \<notin> S \<Longrightarrow> freeblock t < FSSIZE" using room mfile_finite [OF f] by (simp add: S')
  then obtain din' t' where 1: "set_addr fbn din t = Done din' t'" "mgot t din S t' din' (insert fbn S) data"
    using set_addr_law [OF ok f, of fbn fbn] True by auto
  have ok': "image_ok t'" and f': "mfile (nth (img t')) (freeblock t') (ipd din') (insert fbn S) data" using 1(2) by (simp_all add: mgot_def mext_def)
  have "xint (d_addrs din' ! fbn) = fmap (nth (img t')) (ipd din') fbn"
    using mfile_addr_lt [OF ok' f', of fbn] True by (simp add: fmap_def)
  then show ?thesis using 1 True S' by (intro exI [of _ din'] exI [of _ t']) (simp add: append_block_def bnd_Done ret_def)
next
  case False
  then have S': "S' = insert fbn (insert MAXFILE S)" by (simp add: S'_def)
  have fin: "finite S" by (rule mfile_finite [OF f])
  have "MAXFILE \<notin> S \<Longrightarrow> freeblock t < FSSIZE" using room fin by (auto simp: S' card_insert_if split: if_splits)
  then obtain din' t' where 1: "set_addr NDIRECT din t = Done din' t'" "mgot t din S t' din' (insert MAXFILE S) data"
    using set_addr_law [OF ok f, of NDIRECT MAXFILE] by auto
  have ok': "image_ok t'" and f': "mfile (nth (img t')) (freeblock t') (ipd din') (insert MAXFILE S) data" using 1(2) by (simp_all add: mgot_def mext_def)
  have c: "freeblock t' + card S = freeblock t + card (insert MAXFILE S)" using 1(2) by (simp add: mgot_def)
  have room': "fbn \<notin> insert MAXFILE S \<Longrightarrow> freeblock t' < FSSIZE" using room c fin by (simp add: S')
  obtain t2 where 2: "append_block din fbn t = Done (din', fmap (nth (img t2)) (ipd din') fbn) t2" "mgot t' din' (insert MAXFILE S) t2 din' S' data"
    using entry_law [OF ok' f' _ fbn _ room'] False 1(1) unfolding S' by (auto simp: append_block_def bnd_Done Let_def)
  then show ?thesis using mgot_trans [OF 1(2) 2(2)] by blast
qed



section \<open>Appending\<close>

text \<open>The positions of a file of \<open>n\<close> bytes.\<close>

definition pos :: "nat \<Rightarrow> nat set" where
  "pos n = {..<(n + (BSIZE - 1)) div BSIZE} \<union> (if NDIRECT * BSIZE < n then {MAXFILE} else {})"

lemma finite_pos [simp]: "finite (pos n)"
  by (simp add: pos_def)

lemma pos_mono: "n \<le> m \<Longrightarrow> pos n \<subseteq> pos m"
  using div_le_mono [of "n + 511" "m + 511" 512] by (auto simp: pos_def)

lemma card_pos_mono: "n \<le> m \<Longrightarrow> card (pos n) \<le> card (pos m)"
  by (rule card_mono) (simp_all add: pos_mono)

lemma pos_step:
  assumes "r < BSIZE" "0 < k" "r + k \<le> BSIZE"
  shows "pos (r + q * BSIZE + k) = insert q (if q < NDIRECT then pos (r + q * BSIZE) else insert MAXFILE (pos (r + q * BSIZE)))"
proof -
  have up: "(r' + q * BSIZE + (BSIZE - 1)) div BSIZE = Suc q" if "0 < r'" "r' \<le> BSIZE" for r'
    using split_block(1) [of "r' - 1" "Suc q"] that by (simp add: algebra_simps)
  have "(r + q * BSIZE + k + (BSIZE - 1)) div BSIZE = Suc q" using up [of "r + k"] assms by (simp add: algebra_simps)
  moreover have "(r + q * BSIZE + (BSIZE - 1)) div BSIZE = (if r = 0 then q else Suc q)"
    using up [of r] split_block(1) [of 511 q] assms by (auto simp: algebra_simps)
  moreover have "NDIRECT * BSIZE < r + q * BSIZE + k \<longleftrightarrow> NDIRECT \<le> q"
  proof
    assume "NDIRECT * BSIZE < r + q * BSIZE + k"
    then have "NDIRECT * BSIZE < Suc q * BSIZE" using assms by simp
    then show "NDIRECT \<le> q" by simp
  next
    assume "NDIRECT \<le> q"
    then show "NDIRECT * BSIZE < r + q * BSIZE + k" using mult_le_mono1 [of NDIRECT q BSIZE] assms by linarith
  qed
  moreover have "NDIRECT * BSIZE < r + q * BSIZE \<Longrightarrow> NDIRECT \<le> q" using assms by simp
  ultimately show ?thesis unfolding pos_def by (auto simp: lessThan_Suc)
qed

lemma append_loop_law:
  assumes "image_ok t" "mfile (nth (img t)) (freeblock t) (ipd din) (pos (length data)) data" "length data + length p \<le> MAXFILE * BSIZE"
    "freeblock t + card (pos (length data + length p)) \<le> FSSIZE + card (pos (length data))"
  shows "\<exists>din' t'. append_loop din (length data) p t = Done (din', length data + length p) t' \<and>
    mgot t din (pos (length data)) t' din' (pos (length data + length p)) (data @ p)"
  using assms
proof (induction "length p" arbitrary: din data p t rule: less_induct)
  case less
  note ok = less.prems(1) and f = less.prems(2)
  show ?case
  proof (cases "p = []")
    case True
    then show ?thesis using mgot_refl [OF ok f] by (auto simp: append_loop.simps ret_def)
  next
    case False
    define r q where "r = length data mod BSIZE" and "q = length data div BSIZE"
    have n: "length data = r + q * BSIZE" "r < BSIZE" by (simp_all add: r_def q_def)
    define k where "k = min (length p) (BSIZE - r)"
    have k: "0 < k" "r + k \<le> BSIZE" "k \<le> length p" using n(2) False by (auto simp: k_def)
    have q: "q < MAXFILE" using less.prems(3) False n by (cases p) auto
    let ?c = "take k p" let ?S = "pos (length data)" and ?S' = "pos (length data + k)"
    have S': "?S' = insert q (if q < NDIRECT then ?S else insert MAXFILE ?S)" using pos_step [OF n(2) k(1,2), of q] n(1) by simp
    have "freeblock t + card ?S' \<le> FSSIZE + card ?S" using less.prems(4) card_pos_mono [of "length data + k" "length data + length p"] k(3) by simp
    then obtain din1 t1 where 1: "append_block din q t = Done (din1, fmap (nth (img t1)) (ipd din1) q) t1" "mgot t din ?S t1 din1 ?S' data"
      using append_block_law [OF ok f q] unfolding S' by blast
    let ?x = "fmap (nth (img t1)) (ipd din1) q"
    have ok1: "image_ok t1" and f1: "mfile (nth (img t1)) (freeblock t1) (ipd din1) ?S' data" using 1(2) by (simp_all add: mgot_def mext_def)
    have qS: "q \<in> ?S'" unfolding S' by simp
    have x: "?x < freeblock t1" "?x < FSSIZE" using mfileD(5) [OF f1 qS] image_okD(5) [OF ok1] by simp_all
    have xl: "length (img t1 ! ?x) = BSIZE" by (rule image_okD(2) [OF ok1 x(2)])
    let ?d = "put_at r ?c (img t1 ! ?x)" let ?t2 = "t1\<lparr>img := (img t1)[?x := ?d]\<rparr>"
    have B: "nth (img ?t2) = (nth (img t1))(?x := ?d)" using x image_okD(1) [OF ok1] by (simp add: nth_update)
    have A: "fmap (nth (img ?t2)) (ipd din1) = fmap (nth (img t1)) (ipd din1)" "mfile (nth (img ?t2)) (freeblock t1) (ipd din1) ?S' (data @ ?c)"
      unfolding B using mfile_append [OF f1 n(1) _ n(2) qS q xl, of ?c] k by simp_all
    have own2: "own (nth (img ?t2)) (ipd din1) = own (nth (img t1)) (ipd din1)" by (simp only: own_def A(1))
    have "img ?t2 ! b = img t1 ! b" if "b \<notin> own (nth (img t1)) (ipd din1)" for b
    proof -
      have "?x \<in> own (nth (img t1)) (ipd din1)" unfolding mfile_own [OF f1] using qS by simp
      then show ?thesis using that by (cases "b = ?x") auto
    qed
    moreover have ok2: "image_ok ?t2" using wsect_ok [OF ok1 x(1), of ?d] xl k by simp
    ultimately have "mext t1 (ipd din1) ?t2 (ipd din1)" unfolding mext_def own2 by simp
    then have "mgot t1 din1 ?S' ?t2 din1 ?S' (data @ ?c)" using A(2) dinode.surjective [of din1]
      by (auto simp: mgot_def intro!: exI [of _ "d_addrs din1"])
    then have g2: "mgot t din ?S ?t2 din1 ?S' (data @ ?c)" by (rule mgot_trans [OF 1(2)])
    have fb: "freeblock ?t2 + card ?S = freeblock t + card ?S'" using 1(2) by (simp add: mgot_def)
    have l: "length (data @ ?c) = length data + k" using k(3) by simp
    have "\<exists>din' t'. append_loop din1 (length (data @ ?c)) (drop k p) ?t2 = Done (din', length (data @ ?c) + length (drop k p)) t' \<and>
      mgot ?t2 din1 (pos (length (data @ ?c))) t' din' (pos (length (data @ ?c) + length (drop k p))) ((data @ ?c) @ drop k p)"
      by (rule less.hyps) (use k ok2 A(2) less.prems(3,4) fb in \<open>simp_all add: l\<close>)
    then obtain din' t' where 2: "append_loop din1 (length data + k) (drop k p) ?t2 = Done (din', length data + length p) t'"
      "mgot ?t2 din1 ?S' t' din' (pos (length data + length p)) (data @ p)" using k(3) by (auto simp: l)
    have "append_loop din (length data) p t = Done (din', length data + length p) t'"
      using 1(1) 2(1) False q x(2) rsect_run [OF ok1 x(2)] wsect_run [OF image_okD(1) [OF ok1] x(2)] n
      by (subst append_loop.simps) (simp add: Let_def q_def [symmetric] thn_panic_if bnd_Done thn_Done k_def)
    then show ?thesis using mgot_trans [OF g2 2(2)] by blast
  qed
qed


end
