(* ===== verification/Disk_Image.thy ===== *)
theory Disk_Image
  imports Mkfs
begin

text \<open>
  What \<open>mkfs\<close> (theory \<open>Mkfs\<close>) leaves on the disk, and that the kernel finds it there: the invariant over all files of the image, one law for
  each step of \<open>main\<close>, and the agreement with the file system's invariants of theories \<open>Blocks\<close>, \<open>Files\<close> and \<open>Directory\<close>.
\<close>

section \<open>All files of an image\<close>

text \<open>
  A file is its type and its contents; the inode of file \<open>k\<close> has number \<open>k + 1\<close>. The inodes are on disk, no two files share a
  block, and the blocks that have been handed out are exactly those that the files need.
\<close>

type_synonym mk_files = "(int \<times> byte list) list"

definition din_on :: "mk_st \<Rightarrow> nat \<Rightarrow> dinode" where
  "din_on t inum = dinode_at (inum mod IPB) (img t ! IBLOCK inum mk_sb)"

definition fblocks :: "mk_st \<Rightarrow> nat \<Rightarrow> nat set" where
  "fblocks t inum = own (nth (img t)) (ipd (din_on t inum))"

definition blocks :: "mk_files \<Rightarrow> nat" where
  "blocks fs = (\<Sum>f\<leftarrow>fs. card (pos (length (snd f))))"

definition on_disk :: "mk_st \<Rightarrow> nat \<Rightarrow> int \<times> byte list \<Rightarrow> bool" where
  "on_disk t inum f \<longleftrightarrow> (case f of (ty, data) \<Rightarrow> let d = din_on t inum in dinode_fits d \<and> d_type d = ty \<and> d_nlink d = 1 \<and>
     d_size d = length data \<and> mfile (nth (img t)) (freeblock t) (ipd d) (pos (length data)) data)"

definition sb_block :: "byte list" where
  "sb_block = put_at 0 (sb_bytes mk_sb) (replicate BSIZE 0)"

definition mk_inv :: "mk_st \<Rightarrow> mk_files \<Rightarrow> bool" where
  "mk_inv t fs \<longleftrightarrow> image_ok t \<and> img t ! 1 = sb_block \<and> freeinode t = Suc (length fs) \<and> length fs < NINODES \<and> freeblock t = nmeta + blocks fs \<and>
     (\<forall>k<length fs. on_disk t (Suc k) (fs ! k)) \<and>
     (\<forall>k<length fs. \<forall>j<length fs. k \<noteq> j \<longrightarrow> fblocks t (Suc k) \<inter> fblocks t (Suc j) = {})"

lemma IBLOCK_mk [simp]: "IBLOCK inum mk_sb = inum div IPB + 32"
  by (simp add: IBLOCK_def)

text \<open>A file is not touched by writes to other blocks.\<close>

lemma fmap_cong:
  assumes "\<And>b. b \<in> own B ip \<Longrightarrow> B' b = B b"
  shows "fmap B' ip = fmap B ip"
proof -
  have "B' (i_addrs ip ! NDIRECT) = B (i_addrs ip ! NDIRECT)" if "i_addrs ip ! NDIRECT \<noteq> 0"
  proof (rule assms)
    have "fmap B ip MAXFILE = i_addrs ip ! NDIRECT" by (simp add: fmap_def)
    then show "i_addrs ip ! NDIRECT \<in> own B ip" using own_mem [of MAXFILE B ip] that by simp
  qed
  then show ?thesis by (auto simp: fmap_def fun_eq_iff)
qed

lemma mfile_cong:
  assumes f: "mfile B hi ip S data" and same: "\<And>b. b \<in> own B ip \<Longrightarrow> B' b = B b" and hi: "hi \<le> hi'"
  shows "mfile B' hi' ip S data" "own B' ip = own B ip"
proof -
  have fm: "fmap B' ip = fmap B ip" by (rule fmap_cong) (rule same)
  then show "own B' ip = own B ip" by (simp only: own_def)
  have eq: "B' (fmap B ip x) = B (fmap B ip x)" if "x \<in> S" for x using that same unfolding mfile_own [OF f] by simp
  have "fmap B ip x < hi'" if "x \<in> S" for x using mfileD(5) [OF f that] hi by simp
  then show "mfile B' hi' ip S data" using f eq unfolding mfile_def fm by (elim conjE, intro conjI allI ballI impI; simp)
qed

section \<open>Inode blocks\<close>

lemma winode_law:
  assumes ok: "image_ok t" and i: "inum < NINODES" and x: "dinode_fits x"
  obtains t' where "winode inum x t = Done () t'" "image_ok t'" "\<forall>j<NINODES. din_on t' j = (if j = inum then x else din_on t j)"
    "\<forall>b. b < 32 \<or> nmeta \<le> b \<longrightarrow> img t' ! b = img t ! b" "freeblock t' = freeblock t" "freeinode t' = freeinode t"
proof (rule that)
  define t' where "t' = t\<lparr>img := (img t)[inum div IPB + 32 := put_dinode (inum mod IPB) x (img t ! (inum div IPB + 32))]\<rparr>"
  let ?b = "inum div IPB + 32"
  have b: "?b < nmeta" "?b < FSSIZE" using i by simp_all
  have len: "length (img t ! ?b) = BSIZE" "length (img t) = FSSIZE" using image_okD(1,2) [OF ok] b by simp_all
  have pl: "length (put_dinode (inum mod IPB) x (img t ! ?b)) = BSIZE"
    using length_put_dinode [of x "img t ! ?b" "inum mod IPB"] x len by (simp add: dinode_fits_def)
  show "winode inum x t = Done () t'"
    using rsect_run [OF ok b(2)] wsect_run [OF len(2) b(2)] image_okD(3) [OF ok] by (simp add: winode_def bnd_gets bnd_Done t'_def)
  show "image_ok t'" unfolding t'_def by (rule wsect_ok [OF ok _ pl]) (use b image_okD(4) [OF ok] in simp)
  show "freeblock t' = freeblock t" "freeinode t' = freeinode t" by (simp_all add: t'_def)
  show "\<forall>b. b < 32 \<or> nmeta \<le> b \<longrightarrow> img t' ! b = img t ! b" using b(1) by (simp add: t'_def)
  have "din_on t' j = (if j = inum then x else din_on t j)" for j
  proof (cases "j div IPB = inum div IPB")
    case True
    then have "j = inum \<longleftrightarrow> j mod IPB = inum mod IPB" by (metis div_mod_decomp)
    then show ?thesis using True b(2) len dinode_at_put [OF x len(1), of "inum mod IPB" "j mod IPB"] by (simp add: din_on_def t'_def)
  next
    case False
    then show ?thesis by (auto simp: din_on_def t'_def)
  qed
  then show "\<forall>j<NINODES. din_on t' j = (if j = inum then x else din_on t j)" by blast
qed

lemma rinode_law: "image_ok t \<Longrightarrow> inum < NINODES \<Longrightarrow> rinode inum t = Done (din_on t inum) t"
  by (simp add: rinode_def bnd_gets bnd_Done rsect_run image_okD din_on_def ret_def)

lemma mk_invD:
  assumes "mk_inv t fs"
  shows "image_ok t" "freeinode t = Suc (length fs)" "length fs < NINODES" "freeblock t = nmeta + blocks fs"
    "k < length fs \<Longrightarrow> on_disk t (Suc k) (fs ! k)"
    "k < length fs \<Longrightarrow> j < length fs \<Longrightarrow> k \<noteq> j \<Longrightarrow> fblocks t (Suc k) \<inter> fblocks t (Suc j) = {}" "img t ! 1 = sb_block"
  using assms by (simp_all add: mk_inv_def)

lemma on_diskD:
  assumes "on_disk t inum f"
  shows "dinode_fits (din_on t inum)" "d_type (din_on t inum) = fst f" "d_nlink (din_on t inum) = 1" "d_size (din_on t inum) = length (snd f)"
    "mfile (nth (img t)) (freeblock t) (ipd (din_on t inum)) (pos (length (snd f))) (snd f)" "b \<in> fblocks t inum \<Longrightarrow> nmeta \<le> b \<and> b < freeblock t"
proof -
  show f: "dinode_fits (din_on t inum)" "d_type (din_on t inum) = fst f" "d_nlink (din_on t inum) = 1" "d_size (din_on t inum) = length (snd f)"
    "mfile (nth (img t)) (freeblock t) (ipd (din_on t inum)) (pos (length (snd f))) (snd f)"
    using assms by (simp_all add: on_disk_def Let_def split: prod.splits)
  show "b \<in> fblocks t inum \<Longrightarrow> nmeta \<le> b \<and> b < freeblock t"
    unfolding fblocks_def mfile_own [OF f(5)] using mfileD(4,5) [OF f(5)] by auto
qed

text \<open>A file whose inode and blocks are as they were.\<close>

lemma on_disk_cong:
  assumes "on_disk t inum f" "din_on t' inum = din_on t inum" "\<And>b. b \<in> fblocks t inum \<Longrightarrow> img t' ! b = img t ! b" "freeblock t \<le> freeblock t'"
  shows "on_disk t' inum f" "fblocks t' inum = fblocks t inum"
  using on_diskD [OF assms(1)] mfile_cong [OF on_diskD(5) [OF assms(1)] _ assms(4), of "nth (img t')"] assms(2,3)
  by (cases f, simp_all add: on_disk_def fblocks_def Let_def)



lemma fmap_addrs: "i_addrs ip = i_addrs ip' \<Longrightarrow> fmap B ip = fmap B ip'"
  by (simp add: fmap_def fun_eq_iff)

lemma mfile_addrs: "i_addrs ip = i_addrs ip' \<Longrightarrow> mfile B hi ip S data = mfile B hi ip' S data" "i_addrs ip = i_addrs ip' \<Longrightarrow> own B ip = own B ip'"
  using fmap_addrs [of ip ip' B] by (simp_all only: mfile_def own_def)

lemma mfile_empty: "d_addrs din = replicate 13 0 \<Longrightarrow> mfile B hi (ipd din) (pos 0) []" "d_addrs din = replicate 13 0 \<Longrightarrow> own B (ipd din) = {}"
proof -
  assume "d_addrs din = replicate 13 0"
  then have z: "fmap B (ipd din) x = 0" if "x \<le> MAXFILE" for x using that by (simp add: fmap_def)
  then show "own B (ipd din) = {}" by (auto simp: own_def)
  show "mfile B hi (ipd din) (pos 0) []" using z \<open>d_addrs din = replicate 13 0\<close> by (simp add: mfile_def pos_def)
qed

lemma mk_ialloc_law:
  assumes inv: "mk_inv t fs" and n: "Suc (length fs) < NINODES" and ty: "ty < 2 ^ 15"
  shows "\<exists>t'. mk_ialloc ty t = Done (Suc (length fs)) t' \<and> mk_inv t' (fs @ [(int ty, [])])"
proof -
  note I = mk_invD [OF inv]
  let ?i = "Suc (length fs)" and ?x = "\<lparr>d_type = int ty, d_major = 0, d_minor = 0, d_nlink = 1, d_size = 0, d_addrs = replicate 13 0\<rparr>"
  let ?t = "t\<lparr>freeinode := Suc ?i\<rparr>"
  have ok: "image_ok ?t" using I(1) by (simp add: image_ok_def)
  have fit: "dinode_fits ?x" using ty by (simp add: dinode_fits_def)
  obtain t' where W: "winode ?i ?x ?t = Done () t'" "image_ok t'" "\<forall>j<NINODES. din_on t' j = (if j = ?i then ?x else din_on ?t j)"
    "\<forall>b. b < 32 \<or> nmeta \<le> b \<longrightarrow> img t' ! b = img ?t ! b" "freeblock t' = freeblock ?t" "freeinode t' = freeinode ?t" by (rule winode_law [OF ok n fit])
  have eq: "din_on ?t j = din_on t j" for j by (simp add: din_on_def)
  have 1: "winode ?i ?x ?t = Done () t'" "image_ok t'" "\<And>j. j < NINODES \<Longrightarrow> din_on t' j = (if j = ?i then ?x else din_on t j)"
    "\<And>b. b < 32 \<or> nmeta \<le> b \<Longrightarrow> img t' ! b = img t ! b" "freeblock t' = freeblock t" "freeinode t' = Suc ?i" using W by (auto simp: eq)
  have old: "on_disk t' (Suc k) (fs ! k)" "fblocks t' (Suc k) = fblocks t (Suc k)" if "k < length fs" for k
    using on_disk_cong [OF I(5) [OF that], of t'] on_diskD(6) [OF I(5) [OF that]] 1(3) [of "Suc k"] 1(4,5) that I(3) by simp_all
  have d: "din_on t' ?i = ?x" using 1(3) [OF n] by simp
  have new: "on_disk t' ?i (int ty, [])" "fblocks t' ?i = {}"
    using mfile_empty [of ?x] fit d by (simp_all add: on_disk_def fblocks_def)
  have "on_disk t' (Suc k) ((fs @ [(int ty, [])]) ! k)" if "k < Suc (length fs)" for k
    using that old new by (auto simp: nth_append less_Suc_eq)
  moreover have "fblocks t' (Suc k) \<inter> fblocks t' (Suc j) = {}" if "k < Suc (length fs)" "j < Suc (length fs)" "k \<noteq> j" for k j
    using that old(2) new(2) I(6) [of k j] by (auto simp: less_Suc_eq)
  moreover have "blocks (fs @ [(int ty, [])]) = blocks fs" by (simp add: blocks_def pos_def)
  ultimately have "mk_inv t' (fs @ [(int ty, [])])" using 1(2,5,6) 1(4) [of 1] I(4,7) n by (simp add: mk_inv_def)
  moreover have "mk_ialloc ty t = Done ?i t'"
    using 1(1) I(2) ty by (simp add: mk_ialloc_def bnd_gets thn_modify thn_Done kop_simps)
  ultimately show ?thesis by blast
qed



lemma mfile_addrs_lt:
  assumes "image_ok t" "mfile (nth (img t)) (freeblock t) (ipd din) S data"
  shows "length (d_addrs din) = 13" "\<forall>a\<in>set (d_addrs din). a < FSSIZE"
proof -
  show l: "length (d_addrs din) = 13" using mfileD(1) [OF assms(2)] by simp
  have "d_addrs din ! i < FSSIZE" if "i < 13" for i
    using mfile_addr_lt [OF assms, of i] mfile_addr_lt [OF assms, of MAXFILE] that by (cases "i = 12") (auto simp: fmap_def)
  then show "\<forall>a\<in>set (d_addrs din). a < FSSIZE" using l by (auto simp: in_set_conv_nth)
qed

lemma blocks_update: "k < length fs \<Longrightarrow> blocks (fs[k := f]) + card (pos (length (snd (fs ! k)))) = blocks fs + card (pos (length (snd f)))"
proof (induction fs arbitrary: k)
  case (Cons g gs)
  then show ?case by (cases k) (auto simp: blocks_def)
qed simp

lemma mext_other:
  assumes inv: "mk_inv t fs" and k: "k < length fs" and e: "mext t (ipd (din_on t (Suc k))) t1 ip1" and j: "j < length fs" "j \<noteq> k"
  shows "din_on t1 (Suc j) = din_on t (Suc j)" "b \<in> fblocks t (Suc j) \<Longrightarrow> img t1 ! b = img t ! b"
proof -
  note I = mk_invD [OF inv]
  have img1: "img t1 ! b = img t ! b" if "b < freeblock t" "b \<notin> fblocks t (Suc k)" for b using e that by (simp add: mext_def fblocks_def)
  let ?b = "Suc j div IPB + 32"
  have b: "?b < nmeta" using j(1) I(3) by simp
  then have "?b \<notin> fblocks t (Suc k)" using on_diskD(6) [OF I(5) [OF k], of ?b] by auto
  then have "img t1 ! ?b = img t ! ?b" using b img1 image_okD(4) [OF I(1)] by simp
  then show "din_on t1 (Suc j) = din_on t (Suc j)" by (simp add: din_on_def)
  show "img t1 ! b = img t ! b" if "b \<in> fblocks t (Suc j)"
    using on_diskD(6) [OF I(5) [OF j(1)] that] I(6) [OF j(1) k j(2)] img1 [of b] that by auto
qed

lemma iappend_law:
  assumes inv: "mk_inv t fs" and k: "k < length fs" and f: "fs ! k = (ty, data)" and len: "length data + length p \<le> MAXFILE * BSIZE"
    and room: "nmeta + blocks (fs[k := (ty, data @ p)]) \<le> FSSIZE"
  shows "\<exists>t'. iappend (Suc k) p t = Done () t' \<and> mk_inv t' (fs[k := (ty, data @ p)])"
proof -
  note I = mk_invD [OF inv]
  let ?din = "din_on t (Suc k)" let ?n = "length data + length p"
  have K: "Suc k < NINODES" using k I(3) by simp
  have D: "dinode_fits ?din" "d_type ?din = ty" "d_nlink ?din = 1" "d_size ?din = length data"
    "mfile (nth (img t)) (freeblock t) (ipd ?din) (pos (length data)) data" using on_diskD(1-5) [OF I(5) [OF k]] f by simp_all
  have bl: "blocks (fs[k := (ty, data @ p)]) + card (pos (length data)) = blocks fs + card (pos ?n)" using blocks_update [OF k, of "(ty, data @ p)"] f by simp
  then have "freeblock t + card (pos ?n) \<le> FSSIZE + card (pos (length data))" using room I(4) by simp
  then obtain din1 t1 where 1: "append_loop ?din (length data) p t = Done (din1, ?n) t1" "mgot t ?din (pos (length data)) t1 din1 (pos ?n) (data @ p)"
    using append_loop_law [OF I(1) D(5) len] by blast
  obtain as where as: "din1 = ?din\<lparr>d_addrs := as\<rparr>" using 1(2) by (auto simp: mgot_def)
  have m1: "mfile (nth (img t1)) (freeblock t1) (ipd din1) (pos ?n) (data @ p)" and e1: "mext t (ipd ?din) t1 (ipd din1)"
    and fb1: "freeblock t1 + card (pos (length data)) = freeblock t + card (pos ?n)" using 1(2) by (simp_all add: mgot_def)
  have ok1: "image_ok t1" "freeblock t \<le> freeblock t1" "freeinode t1 = freeinode t"
    and own1: "own (nth (img t1)) (ipd din1) \<subseteq> fblocks t (Suc k) \<union> {freeblock t..<freeblock t1}" using e1 by (simp_all add: mext_def fblocks_def)
  let ?x = "din1\<lparr>d_size := ?n\<rparr>"
  have fit: "dinode_fits ?x" using D(1) as mfile_addrs_lt [OF ok1(1) m1] len by (auto simp: dinode_fits_def)
  obtain t2 where 2: "winode (Suc k) ?x t1 = Done () t2" "image_ok t2" "\<forall>j<NINODES. din_on t2 j = (if j = Suc k then ?x else din_on t1 j)"
    "\<forall>b. b < 32 \<or> nmeta \<le> b \<longrightarrow> img t2 ! b = img t1 ! b" "freeblock t2 = freeblock t1" "freeinode t2 = freeinode t1" by (rule winode_law [OF ok1(1) K fit])
  have run: "iappend (Suc k) p t = Done () t2"
    using rinode_law [OF I(1) K] 1(1) 2(1) D(4) len by (simp add: iappend_def bnd_Done)
  have ad: "i_addrs (ipd ?x) = i_addrs (ipd din1)" by simp
  have O1: "nmeta \<le> b" if "b \<in> own (nth (img t1)) (ipd din1)" for b using that mfileD(4) [OF m1] unfolding mfile_own [OF m1] by auto
  have M: "mfile (nth (img t2)) (freeblock t2) (ipd ?x) (pos ?n) (data @ p)" "own (nth (img t2)) (ipd ?x) = own (nth (img t1)) (ipd din1)"
    unfolding mfile_addrs [OF ad] using mfile_cong [OF m1, of "nth (img t2)" "freeblock t2"] 2(4,5) O1 by simp_all
  have dk: "din_on t2 (Suc k) = ?x" using 2(3) K by simp
  have mine: "on_disk t2 (Suc k) (ty, data @ p)" "fblocks t2 (Suc k) \<subseteq> fblocks t (Suc k) \<union> {freeblock t..<freeblock t1}"
    using M fit dk D(2,3) as own1 by (simp_all add: on_disk_def fblocks_def)
  have other: "on_disk t2 (Suc j) (fs ! j)" "fblocks t2 (Suc j) = fblocks t (Suc j)" if j: "j < length fs" "j \<noteq> k" for j
  proof -
    note E = mext_other [OF inv k e1 j]
    have d: "din_on t2 (Suc j) = din_on t (Suc j)" using 2(3) j I(3) E(1) by simp
    have "img t2 ! b = img t ! b" if "b \<in> fblocks t (Suc j)" for b
      using on_diskD(6) [OF I(5) [OF j(1)] that] E(2) [OF that] 2(4) by simp
    then show "on_disk t2 (Suc j) (fs ! j)" "fblocks t2 (Suc j) = fblocks t (Suc j)"
      using on_disk_cong [OF I(5) [OF j(1)] d] 2(5) ok1(2) by simp_all
  qed
  have dis: "fblocks t2 (Suc k) \<inter> fblocks t2 (Suc j) = {}" if j: "j < length fs" "j \<noteq> k" for j
    using mine(2) other(2) [OF j] I(6) [OF j(1) k j(2)] on_diskD(6) [OF I(5) [OF j(1)]] by fastforce
  have "fblocks t2 (Suc i) \<inter> fblocks t2 (Suc j) = {}" if "i < length fs" "j < length fs" "i \<noteq> j" for i j
    using dis [of i] dis [of j] other(2) [of i] other(2) [of j] I(6) [of i j] that by (cases "i = k"; cases "j = k") auto
  moreover have "on_disk t2 (Suc i) (fs[k := (ty, data @ p)] ! i)" if "i < length fs" for i
    using mine(1) other(1) that by (cases "i = k") auto
  moreover have "freeblock t2 = nmeta + blocks (fs[k := (ty, data @ p)])" using 2(5) fb1 bl I(4) by simp
  moreover have "img t2 ! 1 = sb_block"
  proof -
    have "1 \<notin> fblocks t (Suc k)" using on_diskD(6) [OF I(5) [OF k], of 1] by auto
    then have "img t1 ! 1 = img t ! 1" using e1 image_okD(4) [OF I(1)] by (simp add: mext_def fblocks_def)
    then show ?thesis using 2(4) I(7) by simp
  qed
  ultimately show ?thesis using run 2(2,6) ok1(3) I(2,3) by (intro exI [of _ t2]) (simp add: mk_inv_def)
qed



section \<open>The files that \<open>main\<close> makes\<close>

text \<open>The entries of the root directory, and all files: the root first.\<close>

type_synonym host_file = "byte list \<times> byte list list"

definition mk_entries :: "host_file list \<Rightarrow> (byte list \<times> nat) list" where
  "mk_entries files = [([46], 1), ([46, 46], 1)] @ zip (map (skip_underscore \<circ> fst) files) (map ((+) 2) [0..<length files])"

definition entry_bytes :: "byte list \<times> nat \<Rightarrow> byte list" where
  "entry_bytes e = dirent_bytes \<lparr>de_inum = snd e, de_name = strncpy_list DIRSIZ (fst e)\<rparr>"

definition image_files :: "host_file list \<Rightarrow> mk_files" where
  "image_files files = (1, concat (map entry_bytes (mk_entries files))) # map (\<lambda>f. (2, concat (snd f))) files"

lemma length_entry [simp]: "length (entry_bytes e) = 16"
  by (simp add: entry_bytes_def dirent_bytes_def)

lemma length_entries: "length (mk_entries files) = 2 + length files"
  by (simp add: mk_entries_def)

lemma length_root: "length (concat (map entry_bytes es)) = 16 * length es"
  by (induction es) auto

lemma mk_entries_snoc: "mk_entries (files @ [f]) = mk_entries files @ [(skip_underscore (fst f), 2 + length files)]"
  by (simp add: mk_entries_def)

lemma image_files_simps: "image_files files ! 0 = (1, concat (map entry_bytes (mk_entries files)))" "length (image_files files) = Suc (length files)"
  "image_files (files @ [f]) = ((image_files files)[0 := (1, concat (map entry_bytes (mk_entries files)) @ entry_bytes (skip_underscore (fst f), 2 + length files))]) @ [(2, concat (snd f))]"
  by (simp_all add: image_files_def mk_entries_snoc)

lemma blocks_append: "blocks (fs @ gs) = blocks fs + blocks gs"
  by (simp add: blocks_def)

lemma blocks_image:
  "blocks (image_files files) = card (pos (16 * (2 + length files))) + (\<Sum>f\<leftarrow>files. card (pos (length (concat (snd f)))))"
  by (simp add: image_files_def blocks_def length_root length_entries o_def)

lemma blocks_image_mono: "blocks (image_files files) \<le> blocks (image_files (files @ gs))"
  using card_pos_mono [of "16 * (2 + length files)" "16 * (2 + length (files @ gs))"] by (simp add: blocks_image)

lemma appends_law:
  assumes "mk_inv t fs" "k < length fs" "fs ! k = (ty, data)" "length data + length (concat ps) \<le> MAXFILE * BSIZE"
    "nmeta + blocks (fs[k := (ty, data @ concat ps)]) \<le> FSSIZE"
  shows "\<exists>t'. for_each ps (iappend (Suc k)) t = Done () t' \<and> mk_inv t' (fs[k := (ty, data @ concat ps)])"
  using assms
proof (induction ps arbitrary: t fs data)
  case Nil
  then show ?case using list_update_id [of fs k] by (simp add: ret_def)
next
  case (Cons p ps)
  have "blocks (fs[k := (ty, data @ p)]) \<le> blocks (fs[k := (ty, data @ concat (p # ps))])"
    using blocks_update [OF Cons.prems(2), of "(ty, data @ p)"] blocks_update [OF Cons.prems(2), of "(ty, data @ concat (p # ps))"]
      card_pos_mono [of "length data + length p" "length data + length (concat (p # ps))"] by simp
  then obtain t1 where 1: "iappend (Suc k) p t = Done () t1" "mk_inv t1 (fs[k := (ty, data @ p)])"
    using iappend_law [OF Cons.prems(1-3), of p] Cons.prems(4,5) by auto
  have "\<exists>t'. for_each ps (iappend (Suc k)) t1 = Done () t' \<and> mk_inv t' ((fs[k := (ty, data @ p)])[k := (ty, (data @ p) @ concat ps)])"
    by (rule Cons.IH [OF 1(2)]) (use Cons.prems in simp_all)
  then show ?case using 1(1) by (auto simp: thn_Done)
qed

lemma mk_file_law:
  assumes inv: "mk_inv t (image_files files)" and n: "length files + 2 < NINODES" and name: "slash \<notin> set (fst f)"
    and len: "length (concat (snd f)) \<le> MAXFILE * BSIZE" and room: "nmeta + blocks (image_files (files @ [f])) \<le> FSSIZE"
  shows "\<exists>t'. mk_file ROOTINO (fst f, Some (snd f)) t = Done () t' \<and> mk_inv t' (image_files (files @ [f]))"
proof -
  let ?fs = "image_files files" and ?i = "Suc (length (image_files files))" and ?r = "concat (map entry_bytes (mk_entries files))"
  let ?e = "entry_bytes (skip_underscore (fst f), 2 + length files)" let ?gs = "?fs[0 := (1, ?r @ ?e)]"
  have i: "?i = 2 + length files" by (simp add: image_files_simps)
  obtain t1 where 1: "mk_ialloc 2 t = Done ?i t1" "mk_inv t1 (?fs @ [(2, [])])"
    using mk_ialloc_law [OF inv, of 2] n by (auto simp: image_files_simps)
  have z: "(?fs @ [(2, [])]) ! 0 = (1, ?r)" "(?fs @ [(2, [])])[0 := (1, ?r @ ?e)] = ?gs @ [(2, [])]" by (simp_all add: nth_append image_files_simps list_update_append)
  have rl: "length ?r + length ?e \<le> MAXFILE * BSIZE" using n by (simp add: length_root length_entries)
  have b: "blocks (image_files (files @ [f])) = blocks ?gs + card (pos (length (concat (snd f))))" by (simp add: image_files_simps blocks_append) (simp add: blocks_def)
  have b0: "blocks (?gs @ [(2, [])]) = blocks ?gs" by (simp add: blocks_append) (simp add: blocks_def pos_def)
  obtain t2 where 2: "iappend 1 ?e t1 = Done () t2" "mk_inv t2 (?gs @ [(2, [])])"
    using iappend_law [OF 1(2) _ z(1) rl] room b unfolding z(2) b0 by (auto simp: image_files_simps)
  have u: "(?gs @ [(2, [])])[length ?fs := (2, [] @ concat (snd f))] = image_files (files @ [f])" by (simp add: image_files_simps list_update_append)
  obtain t3 where 3: "for_each (snd f) (iappend ?i) t2 = Done () t3" "mk_inv t3 (image_files (files @ [f]))"
    using appends_law [OF 2(2), of "length ?fs" 2 "[]" "snd f"] len room unfolding u by (auto simp: nth_append)
  have e: "xshort (Suc (Suc (length files))) = Suc (Suc (length files))" using n by simp
  have "append_dirent 1 ?i (skip_underscore (fst f)) t1 = Done () t2" using 2(1) by (simp add: append_dirent_def entry_bytes_def image_files_simps e)
  then have "mk_file ROOTINO (fst f, Some (snd f)) t = Done () t3"
    using 1(1) 3(1) name by (simp add: mk_file_def thn_panic_if bnd_Done thn_Done ret_def)
  then show ?thesis using 3(2) by blast
qed

lemma mk_files_law:
  assumes "mk_inv t (image_files done')" "length done' + length files + 2 \<le> NINODES" "\<forall>f\<in>set files. slash \<notin> set (fst f) \<and> length (concat (snd f)) \<le> MAXFILE * BSIZE"
    "nmeta + blocks (image_files (done' @ files)) \<le> FSSIZE"
  shows "\<exists>t'. for_each (map (\<lambda>f. (fst f, Some (snd f))) files) (mk_file ROOTINO) t = Done () t' \<and> mk_inv t' (image_files (done' @ files))"
  using assms
proof (induction files arbitrary: t done')
  case Nil
  then show ?case by (simp add: ret_def)
next
  case (Cons f files)
  have "nmeta + blocks (image_files (done' @ [f])) \<le> FSSIZE" using blocks_image_mono [of "done' @ [f]" files] Cons.prems(4) by simp
  then obtain t1 where 1: "mk_file ROOTINO (fst f, Some (snd f)) t = Done () t1" "mk_inv t1 (image_files (done' @ [f]))"
    using mk_file_law [OF Cons.prems(1), of f] Cons.prems(2,3) by auto
  then show ?case using Cons.IH [OF 1(2)] Cons.prems(2-4) by (simp add: thn_Done)
qed



section \<open>The whole run\<close>

lemma zero_image:
  assumes "n \<le> FSSIZE" "img t = []"
  shows "for_each [0..<n] (\<lambda>i. wsect i (replicate BSIZE 0)) t = Done () (t\<lparr>img := replicate n (replicate BSIZE 0)\<rparr>)"
  using assms(1)
proof (induction n)
  case 0
  have "t\<lparr>img := []\<rparr> = t" using mk_st.surjective [of t] assms(2) by simp
  then show ?case by (simp add: ret_def)
next
  case (Suc n)
  then show ?case
    by (simp add: for_each_append thn_Done wsect_def sect_id modify_def ret_def replicate_append_same [symmetric] list_update_append del: replicate_append_same)
qed

lemma mk_start_law: "\<exists>t. mk_start mk0 = Done () t \<and> mk_inv t []"
proof -
  let ?z = "replicate BSIZE 0 :: byte list" let ?t = "mk0\<lparr>msb := mk_sb, freeblock := nmeta, img := (replicate FSSIZE ?z)[1 := sb_block]\<rparr>"
  have "length sb_block = BSIZE" by (simp add: sb_block_def sb_bytes_def)
  then have "image_ok ?t" by (auto simp: image_ok_def nth_list_update)
  then have "mk_inv ?t []" by (simp add: mk_inv_def blocks_def mk0_def)
  moreover have "mk_start mk0 = Done () ?t"
    using zero_image [of FSSIZE "mk0\<lparr>msb := mk_sb, freeblock := nmeta\<rparr>"]
    by (simp add: mk_start_def kop_simps thn_Done mk0_def wsect_run sb_block_def)
  ultimately show ?thesis by blast
qed

lemma mk_root_law:
  assumes "mk_inv t []"
  shows "\<exists>t0 t1 t2. mk_ialloc 1 t = Done 1 t0 \<and> append_dirent 1 1 [46] t0 = Done () t1 \<and> append_dirent 1 1 [46, 46] t1 = Done () t2 \<and>
    mk_inv t2 (image_files [])"
proof -
  obtain t0 where 0: "mk_ialloc 1 t = Done 1 t0" "mk_inv t0 [(1, [])]" using mk_ialloc_law [OF assms, of 1] by auto
  have x: "xshort 1 = 1" "1 = Suc 0" by simp_all
  have sm: "card (pos n) \<le> 1" if "n \<le> BSIZE" for n
  proof -
    have "(n + (BSIZE - 1)) div BSIZE \<le> 1" using div_le_mono [of "n + 511" 1023 512] that by simp
    then show ?thesis using that by (simp add: pos_def)
  qed
  obtain t1 where 1: "iappend 1 (entry_bytes ([46], 1)) t0 = Done () t1" "mk_inv t1 [(1, entry_bytes ([46], 1))]"
    using iappend_law [OF 0(2), of 0 1 "[]" "entry_bytes ([46], 1)"] sm [of 16] by (auto simp: blocks_def)
  obtain t2 where 2: "iappend 1 (entry_bytes ([46, 46], 1)) t1 = Done () t2" "mk_inv t2 [(1, entry_bytes ([46], 1) @ entry_bytes ([46, 46], 1))]"
    using iappend_law [OF 1(2), of 0 1 "entry_bytes ([46], 1)" "entry_bytes ([46, 46], 1)"] sm [of 32] by (auto simp: blocks_def)
  have "image_files [] = [(1, entry_bytes ([46], 1) @ entry_bytes ([46, 46], 1))]" by (simp add: image_files_def mk_entries_def)
  then show ?thesis using 0(1) 1(1) 2 by (simp add: append_dirent_def entry_bytes_def)
qed

definition bitmap :: "nat \<Rightarrow> byte list" where
  "bitmap n = fold set_bit_at [0..<n] (replicate BSIZE 0)"

lemma bitmap_bit: "n \<le> BPB \<Longrightarrow> length (bitmap n) = BSIZE \<and> (\<forall>x<BPB. bit_at x (bitmap n) \<longleftrightarrow> x < n)"
proof (induction n)
  case 0
  have "(replicate BSIZE (0 :: byte)) ! (x div 8) = 0" if "x < BPB" for x using that by (simp add: less_mult_imp_div_less)
  then show ?case by (simp add: bitmap_def bit_at_def)
next
  case (Suc n)
  have e: "bitmap (Suc n) = set_bit_at n (bitmap n)" by (simp add: bitmap_def)
  show ?case using Suc bit_at_set [of n "bitmap n"] by (auto simp: e less_Suc_eq)
qed

text \<open>The finished image.\<close>

definition root_size :: "nat \<Rightarrow> nat" where
  "root_size n = (n div BSIZE + 1) * BSIZE"

definition made :: "mk_st \<Rightarrow> host_file list \<Rightarrow> bool" where
  "made t files \<longleftrightarrow> image_ok t \<and> img t ! 1 = sb_block \<and> img t ! 58 = bitmap (freeblock t) \<and>
     (\<forall>k<length files. on_disk t (k + 2) (2, concat (snd (files ! k)))) \<and>
     (let d = din_on t ROOTINO; data = concat (map entry_bytes (mk_entries files)) in
        d_type d = 1 \<and> d_nlink d = 1 \<and> d_size d = root_size (length data) \<and> mfile (nth (img t)) (freeblock t) (ipd d) (pos (length data)) data)"

lemma finish_law:
  assumes inv: "mk_inv t (image_files files)"
  shows "\<exists>t'. thn (fix_root ROOTINO) (bnd (gets freeblock) mk_balloc) t = Done () t' \<and> made t' files"
proof -
  note I = mk_invD [OF inv]
  let ?data = "concat (map entry_bytes (mk_entries files))" let ?n = "length ?data" let ?din = "din_on t 1"
  have D: "dinode_fits ?din" "d_type ?din = 1" "d_size ?din = ?n" "mfile (nth (img t)) (freeblock t) (ipd ?din) (pos ?n) ?data" "d_nlink ?din = 1"
    using on_diskD [OF I(5) [of 0]] by (simp_all add: image_files_simps)
  have n: "?n \<le> 4096" using I(3) by (simp add: length_root length_entries image_files_simps)
  then have sz: "root_size ?n < 2 ^ 32" using div_le_mono [of ?n 4096 512] by (simp add: root_size_def)
  let ?x = "?din\<lparr>d_size := root_size ?n\<rparr>"
  have fit: "dinode_fits ?x" using D(1) sz by (simp add: dinode_fits_def)
  have lt: "1 < NINODES" by simp
  obtain t1 where 1: "winode 1 ?x t = Done () t1" "image_ok t1" "\<forall>j<NINODES. din_on t1 j = (if j = 1 then ?x else din_on t j)"
    "\<forall>b. b < 32 \<or> nmeta \<le> b \<longrightarrow> img t1 ! b = img t ! b" "freeblock t1 = freeblock t" "freeinode t1 = freeinode t"
    by (rule winode_law [OF I(1) lt fit])
  let ?b = "bitmap (freeblock t)" let ?t = "t1\<lparr>img := (img t1)[58 := ?b]\<rparr>"
  have fb: "freeblock t \<le> FSSIZE" "nmeta \<le> freeblock t" using image_okD(4,5) [OF I(1)] by simp_all
  have bl: "length ?b = BSIZE" using bitmap_bit [of "freeblock t"] fb by simp
  have ok: "image_ok ?t" by (rule wsect_ok [OF 1(2) _ bl]) (use 1(5) fb in simp)
  have im: "img ?t ! b = img t ! b" if "b < 32 \<or> nmeta \<le> b" for b using 1(4) that by auto
  have din: "din_on ?t j = (if j = 1 then ?x else din_on t j)" if "j < NINODES" for j
  proof -
    have "j div IPB + 32 \<noteq> 58" using that by simp
    then have "din_on ?t j = din_on t1 j" by (simp add: din_on_def)
    then show ?thesis using 1(3) that by simp
  qed
  have files: "on_disk ?t (k + 2) (2, concat (snd (files ! k)))" if k: "k < length files" for k
  proof -
    have O: "on_disk t (k + 2) (2, concat (snd (files ! k)))" using I(5) [of "Suc k"] k by (simp add: image_files_def)
    show ?thesis by (rule on_disk_cong(1) [OF O]) (use din [of "k + 2"] k I(3) im on_diskD(6) [OF O] 1(5) in \<open>auto simp: image_files_simps\<close>)
  qed
  have ad: "i_addrs (ipd ?x) = i_addrs (ipd ?din)" by simp
  have "mfile (nth (img ?t)) (freeblock ?t) (ipd ?x) (pos ?n) ?data"
    unfolding mfile_addrs(1) [OF ad] using mfile_cong(1) [OF D(4), of "nth (img ?t)" "freeblock ?t"] im on_diskD(6) [OF I(5) [of 0]] 1(5)
    by (simp add: fblocks_def image_files_simps)
  then have "made ?t files" unfolding made_def Let_def using ok files im [of 1] I(7) din [of 1] D(2,5) 1(5) image_okD(1) [OF 1(2)] by simp
  moreover have "thn (fix_root 1) (bnd (gets freeblock) mk_balloc) t = Done () ?t"
    using 1(1) rinode_law [OF I(1), of 1] D(3) n sz fb wsect_run [OF image_okD(1) [OF 1(2)], of 58 ?b] 1(5) image_okD(3) [OF 1(2)]
    by (simp add: fix_root_def bnd_Done thn_Done bnd_gets mk_balloc_def thn_panic_if root_size_def bitmap_def)
  ultimately show ?thesis by blast
qed

lemma mkfs_main_law:
  assumes "length files + 2 \<le> NINODES" "\<forall>f\<in>set files. slash \<notin> set (fst f) \<and> length (concat (snd f)) \<le> MAXFILE * BSIZE"
    "nmeta + blocks (image_files files) \<le> FSSIZE"
  shows "\<exists>t. mkfs_main (map (\<lambda>f. (fst f, Some (snd f))) files) mk0 = Done () t \<and> made t files"
proof -
  obtain t where t: "mk_start mk0 = Done () t" "mk_inv t []" using mk_start_law by blast
  obtain t0 t1 t2 where 1: "mk_ialloc 1 t = Done 1 t0" "append_dirent 1 1 [46] t0 = Done () t1" "append_dirent 1 1 [46, 46] t1 = Done () t2"
    "mk_inv t2 (image_files [])" using mk_root_law [OF t(2)] by blast
  obtain t3 where 3: "for_each (map (\<lambda>f. (fst f, Some (snd f))) files) (mk_file ROOTINO) t2 = Done () t3" "mk_inv t3 (image_files files)"
    using mk_files_law [OF 1(4), of files] assms by auto
  obtain t4 where 4: "thn (fix_root ROOTINO) (bnd (gets freeblock) mk_balloc) t3 = Done () t4" "made t4 files" using finish_law [OF 3(2)] by blast
  have "mkfs_main (map (\<lambda>f. (fst f, Some (snd f))) files) mk0 = Done () t4"
    using t(1) 1(1-3) 3(1) 4(1) by (simp add: mkfs_main_def thn_Done bnd_Done thn_panic_if steps_last)
  then show ?thesis using 4(2) by blast
qed



section \<open>The kernel on the image\<close>

definition boots :: "mk_st \<Rightarrow> 'z fs_st_scheme \<Rightarrow> bool" where
  "boots t s \<longleftrightarrow> (\<forall>b<FSSIZE. blk s b = img t ! b) \<and> sb s = sb_of (blk s 1)"

text \<open>The inode that \<open>ilock\<close> reads from the disk.\<close>

definition inode_on :: "'z fs_st_scheme \<Rightarrow> nat \<Rightarrow> inode" where
  "inode_on s inum = from_dinode (dinode_at (inum mod IPB) (blk s (IBLOCK inum (sb s)))) fs_file"

lemma boots_inode:
  assumes "boots t s" "img t ! 1 = sb_block"
  shows "sb s = mk_sb" "inum < NINODES \<Longrightarrow> inode_on s inum = ipd (din_on t inum)" "bmap_blk s = 58"
proof -
  have "sb_of sb_block = mk_sb" by code_simp
  then show sb: "sb s = mk_sb" using assms by (simp add: boots_def)
  then show "bmap_blk s = 58" by (simp add: bmap_blk_def)
  show "inode_on s inum = ipd (din_on t inum)" if "inum < NINODES"
  proof -
    have "inum div IPB + 32 < FSSIZE" using that by simp
    then show ?thesis using assms(1) by (simp add: inode_on_def sb ipd_def din_on_def boots_def)
  qed
qed

lemma boots_used:
  assumes "made t files" "boots t s" "b < FSSIZE"
  shows "used s b \<longleftrightarrow> b < freeblock t"
proof -
  have m: "img t ! 1 = sb_block" "img t ! 58 = bitmap (freeblock t)" "image_ok t" using assms(1) by (simp_all add: made_def)
  have "blk s 58 = img t ! 58" using assms(2) by (simp add: boots_def)
  then show ?thesis using bitmap_bit [of "freeblock t"] image_okD(5) [OF m(3)] m assms(3) boots_inode(3) [OF assms(2) m(1)] by (simp add: used_def)
qed

lemma boots_geo:
  assumes "made t files" "boots t s"
  shows "geo s"
proof -
  have m: "img t ! 1 = sb_block" "image_ok t" using assms(1) by (simp_all add: made_def)
  have "\<forall>b<FSSIZE. length (blk s b) = BSIZE" using assms(2) image_okD(2) [OF m(2)] by (simp add: boots_def)
  moreover have "\<forall>b\<le>58. used s b" using boots_used [OF assms] image_okD(4) [OF m(2)] by auto
  ultimately show ?thesis using boots_inode(1,3) [OF assms(2) m(1)] by (simp add: geo_def)
qed

lemma boots_file:
  assumes made: "made t files" and s: "boots t s" and f: "mfile (nth (img t)) (freeblock t) ip S data" and ip: "i_dev ip = 1" "i_size ip \<le> MAXFILE * BSIZE"
    and full: "\<forall>x. BSIZE * x < i_size ip \<longrightarrow> x \<in> S"
  shows "file_ok s ip" "k < i_size ip \<Longrightarrow> fbyte (blk s) ip k = pad data k"
proof -
  have m: "img t ! 1 = sb_block" "image_ok t" using made by (simp_all add: made_def)
  note sb = boots_inode(1,3) [OF s m(1)] and fb = image_okD(5) [OF m(2)]
  have own: "nmeta \<le> b" "b < freeblock t" if "b \<in> own (nth (img t)) ip" for b using that mfileD(4,5) [OF f] unfolding mfile_own [OF f] by auto
  have F: "mfile (blk s) (freeblock t) ip S data" "own (blk s) ip = own (nth (img t)) ip"
    using mfile_cong [OF f, of "blk s" "freeblock t"] own(2) fb s by (fastforce simp: boots_def)+
  note G = mfileD [OF F(1)]
  have ow: "bmap_blk s < b \<and> b < sb_size (sb s) \<and> used s b" if "b \<in> own (blk s) ip" for b
    using own [of b] that boots_used [OF made s, of b] fb unfolding F(2) by (simp add: sb)
  have S: "x \<in> S" if "BSIZE * x < i_size ip" for x using full that by blast
  have "x = y" if "x \<le> MAXFILE" "y \<le> MAXFILE" "fmap (blk s) ip x \<noteq> 0" "fmap (blk s) ip x = fmap (blk s) ip y" for x y
    using inj_onD [OF G(6), of x y] G(3) that by metis
  then show "file_ok s ip" unfolding file_ok_def using ip G(1) ow S G(2,3) by blast
  show "fbyte (blk s) ip k = pad data k" if k: "k < i_size ip"
  proof -
    have "BSIZE * (k div BSIZE) \<le> k" by simp
    then have q: "k div BSIZE \<in> S" using S [of "k div BSIZE"] k by linarith
    have "k < MAXFILE * BSIZE" using k ip(2) by simp
    then show ?thesis using G(9) q G(3) [of "k div BSIZE"] G(2) [OF q] by (simp add: fbyte_def Let_def)
  qed
qed

lemma pos_full: "BSIZE * x < n \<Longrightarrow> x \<in> pos n"
proof -
  assume "BSIZE * x < n"
  then have "Suc x \<le> (n + 511) div 512" using less_eq_div_iff_mult_less_eq [of 512 "Suc x" "n + 511"] by simp
  then show ?thesis by (simp add: pos_def)
qed

lemma boots_contents:
  assumes made: "made t files" and s: "boots t s" and k: "k < length files" "length files + 2 \<le> NINODES"
  defines "ip \<equiv> inode_on s (k + 2)" and "data \<equiv> concat (snd (files ! k))"
  shows "file_ok s ip" "i_type ip = T_FILE" "i_size ip = length data" "map (fbyte (blk s) ip) [0..<length data] = data"
proof -
  have O: "on_disk t (k + 2) (2, data)" and m: "img t ! 1 = sb_block" using made k(1) by (simp_all add: made_def data_def)
  have i: "ip = ipd (din_on t (k + 2))" unfolding ip_def using boots_inode(2) [OF s m, of "k + 2"] k by simp
  show sz: "i_size ip = length data" and "i_type ip = T_FILE" using on_diskD(2,4) [OF O] by (simp_all add: i)
  have f: "mfile (nth (img t)) (freeblock t) ip (pos (length data)) data" using on_diskD(5) [OF O] by (simp add: i)
  have "i_size ip \<le> MAXFILE * BSIZE" using mfileD(7) [OF f] sz by simp
  note B = boots_file [OF made s f _ this]
  have full: "\<forall>x. BSIZE * x < i_size ip \<longrightarrow> x \<in> pos (length data)" using pos_full by (simp add: sz)
  show "file_ok s ip" by (rule B(1) [OF _ full]) (simp add: i)
  have "fbyte (blk s) ip j = pad data j" if "j < length data" for j by (rule B(2) [OF _ full]) (use that sz in \<open>simp_all add: i\<close>)
  then show "map (fbyte (blk s) ip) [0..<length data] = data" by (intro nth_equalityI) (simp_all add: pad_def)
qed



section \<open>The root directory\<close>

lemma find_map_in: "find P (map f xs) = map_option f (find (\<lambda>x. P (f x)) xs)"
  by (induction xs) auto

lemma find_append_none: "\<forall>x\<in>set ys. \<not> P x \<Longrightarrow> find P (xs @ ys) = find P xs"
proof (induction xs)
  case Nil
  then show ?case by (simp add: find_None_iff)
qed auto

lemma dlookup_list:
  "dlookup s dp name = map_option de_inum (find (has_name name) (map (dent s dp) (dirent_offs (i_size (icache s ! dp)))))"
  by (simp add: dlookup_def find_map_in option.map_comp o_def)

lemma has_entry: "has_name name \<lparr>de_inum = i, de_name = strncpy_list DIRSIZ nm\<rparr> \<longleftrightarrow> i \<noteq> 0 \<and> strncpy_list DIRSIZ nm = strncpy_list DIRSIZ name"
  using strncmp_copy [of DIRSIZ nm] by (auto simp: has_name_def namecmp_def strncmp_list_iff)

lemma find_entries:
  "\<forall>e\<in>set es. snd e \<noteq> 0 \<Longrightarrow> map_option de_inum (find (has_name name) (map (\<lambda>e. \<lparr>de_inum = snd e, de_name = strncpy_list DIRSIZ (fst e)\<rparr>) es))
     = map_of (map (\<lambda>e. (strncpy_list DIRSIZ (fst e), snd e)) es) (strncpy_list DIRSIZ name)"
  by (induction es) (auto simp: has_entry)

lemma nth_entries: "e < length es \<Longrightarrow> map (pad (concat (map entry_bytes es))) [16 * e..<16 * e + 16] = entry_bytes (es ! e)"
proof (induction es arbitrary: e)
  case (Cons x es)
  let ?d = "concat (map entry_bytes es)"
  show ?case
  proof (cases e)
    case 0
    have "pad (entry_bytes x @ ?d) k = entry_bytes x ! k" if "k < 16" for k using that by (simp add: pad_def nth_append)
    then show ?thesis using 0 by (intro nth_equalityI) simp_all
  next
    case (Suc j)
    have sh: "pad (entry_bytes x @ ?d) (16 + k) = pad ?d k" for k by (simp add: pad_def nth_append)
    have "map (pad (entry_bytes x @ ?d)) [16 * e..<16 * e + 16] = map (pad ?d) [16 * j..<16 * j + 16]"
      by (intro nth_equalityI) (simp_all add: Suc sh add.assoc)
    then show ?thesis using Cons Suc by simp
  qed
qed simp

lemma entries_small: "e \<in> set (mk_entries files) \<Longrightarrow> length files + 2 \<le> NINODES \<Longrightarrow> snd e \<noteq> 0 \<and> snd e < 2 ^ 16"
  by (cases e) (auto simp: mk_entries_def dest!: set_zip_rightD)

lemma boots_root:
  assumes made: "made t files" and s: "boots t s" and n: "length files + 2 \<le> NINODES" "(length files + 2) mod 32 \<noteq> 0"
  defines "ip \<equiv> inode_on s ROOTINO"
  shows "file_ok s ip" "i_type ip = T_DIR"
    "icache s ! dp = ip \<Longrightarrow> dlookup s dp name = map_of (map (\<lambda>e. (strncpy_list DIRSIZ (fst e), snd e)) (mk_entries files)) (strncpy_list DIRSIZ name)"
proof -
  let ?es = "mk_entries files" let ?data = "concat (map entry_bytes ?es)" let ?n = "16 * (2 + length files)"
  have len: "length ?data = ?n" by (simp add: length_root length_entries)
  have m: "img t ! 1 = sb_block" "d_type (din_on t 1) = 1" "d_size (din_on t 1) = root_size ?n"
    "mfile (nth (img t)) (freeblock t) (ipd (din_on t 1)) (pos ?n) ?data"
    using made unfolding made_def Let_def len by simp_all
  have i: "ip = ipd (din_on t 1)" unfolding ip_def using boots_inode(2) [OF s m(1), of 1] by simp
  show "i_type ip = T_DIR" using m(2) by (simp add: i)
  define z where "z = (2 + length files) div 32"
  define r where "r = (2 + length files) mod 32"
  have zr: "2 + length files = 32 * z + r" "r < 32" "r \<noteq> 0" using n(2) by (simp_all add: z_def r_def)
  then have z: "32 * z < 2 + length files" "2 + length files < 32 * Suc z" "z \<le> 6" using n(1) by simp_all
  have "?n div BSIZE = z" using div_mult2_eq [of ?n 16 32] by (simp add: z_def)
  then have sz: "i_size ip = 512 * Suc z" using m(3) by (simp add: i root_size_def)
  have full: "\<forall>x. BSIZE * x < i_size ip \<longrightarrow> x \<in> pos ?n"
  proof (intro allI impI)
    fix x assume "BSIZE * x < i_size ip"
    then have "x \<le> z" using sz by simp
    then show "x \<in> pos ?n" using z(1) by (intro pos_full) simp
  qed
  have le: "i_size ip \<le> MAXFILE * BSIZE" using z(3) sz by simp
  note B = boots_file [OF made s m(4) [folded i] _ le full]
  show "file_ok s ip" by (rule B(1)) (simp add: i)
  assume dp: "icache s ! dp = ip"
  let ?D = "\<lambda>e. \<lparr>de_inum = snd e, de_name = strncpy_list DIRSIZ (fst e)\<rparr>"
  have bytes: "map (fbyte (blk s) ip) [16 * e..<16 * e + 16] = map (pad ?data) [16 * e..<16 * e + 16]" if "e < 32 * Suc z" for e
    using that sz by (intro map_cong refl B(2)) (simp_all add: i)
  have old: "dent s dp (16 * e) = ?D (?es ! e)" if "e < length ?es" for e
  proof -
    have lt: "e < 32 * Suc z" using that z(2) by (simp add: length_entries)
    have "de_inum (?D (?es ! e)) < 2 ^ 16" using entries_small [of "?es ! e" files] that n(1) by simp
    then show ?thesis unfolding dent_def dp bytes [OF lt] nth_entries [OF that] entry_bytes_def by (rule dirent_roundtrip)
  qed
  have new: "de_inum (dent s dp (16 * e)) = 0" if e: "length ?es \<le> e" "e < 32 * Suc z" for e
  proof -
    have zero: "map (pad ?data) [16 * e..<16 * e + 16] = replicate 16 0"
      using e(1) by (intro nth_equalityI) (simp_all add: pad_def len length_entries)
    show ?thesis unfolding dent_def dp bytes [OF e(2)] zero by (simp add: dirent_of_def)
  qed
  have offs: "dirent_offs (i_size ip) = map ((*) 16) [0..<length ?es] @ map ((*) 16) [length ?es..<32 * Suc z]"
  proof -
    have "(15 + 32 * Suc z * 16) div 16 = 32 * Suc z" by (simp del: mult_Suc_right)
    then have d: "(512 * Suc z + 15) div 16 = 32 * Suc z" by (simp add: algebra_simps)
    have "length ?es \<le> 32 * Suc z" using z(2) by (simp add: length_entries)
    then have "[0..<32 * Suc z] = [0..<length ?es] @ [length ?es..<32 * Suc z]" by (metis upt_add_eq_append le0 le_add_diff_inverse)
    then show ?thesis unfolding dirent_offs_def sz d by (simp only: map_append)
  qed
  have l: "map (dent s dp) (map ((*) 16) [0..<length ?es]) = map ?D ?es" using old by (intro nth_equalityI) simp_all
  have "\<forall>x\<in>set (map (dent s dp) (map ((*) 16) [length ?es..<32 * Suc z])). \<not> has_name name x" using new by (auto simp: has_name_def)
  then have "dlookup s dp name = map_option de_inum (find (has_name name) (map ?D ?es))"
    unfolding dlookup_list dp offs map_append l by (subst find_append_none) simp_all
  then show "dlookup s dp name = map_of (map (\<lambda>e. (strncpy_list DIRSIZ (fst e), snd e)) ?es) (strncpy_list DIRSIZ name)"
    using find_entries [of ?es name] entries_small n(1) by simp
qed



section \<open>An image that the kernel can use\<close>

text \<open>The blocks of a file of \<open>n\<close> bytes.\<close>

definition mk_blocks :: "nat \<Rightarrow> nat" where
  "mk_blocks n = (n + (BSIZE - 1)) div BSIZE + (if NDIRECT * BSIZE < n then 1 else 0)"

lemma card_pos: "n \<le> MAXFILE * BSIZE \<Longrightarrow> card (pos n) = mk_blocks n"
proof -
  assume "n \<le> MAXFILE * BSIZE"
  then have "(n + 511) div 512 \<le> 140" using div_le_mono [of "n + 511" "140 * 512 + 511" 512] by simp
  then show ?thesis by (simp add: pos_def mk_blocks_def)
qed

text \<open>
  C36. \<open>mkfs\<close> and the kernel agree on the disk. Given files that fit, \<open>mkfs\<close> runs to its end, and on a kernel whose disk is the image,
  and whose superblock is the one read from it, the bitmap and every file satisfy the kernel's invariants, \<open>readi\<close> on the inode of
  each file returns exactly the bytes read from the host's file, and the root directory maps \<open>.\<close> and \<open>..\<close> to itself and each name, without
  a leading underscore and cut to the length of a directory entry, to the inode of its file. The number of root entries must not be a
  multiple of those of a block: then the root's size is rounded up to a block that it does not have.
\<close>

theorem mkfs_kernel_agree:
  assumes n: "length files + 2 \<le> NINODES" "(length files + 2) mod 32 \<noteq> 0"
    and names: "\<forall>f\<in>set files. slash \<notin> set (fst f) \<and> length (concat (snd f)) \<le> MAXFILE * BSIZE"
    and room: "nmeta + mk_blocks (16 * (length files + 2)) + (\<Sum>f\<leftarrow>files. mk_blocks (length (concat (snd f)))) \<le> FSSIZE"
  shows "\<exists>t. mkfs_main (map (\<lambda>f. (fst f, Some (snd f))) files) mk0 = Done () t \<and> length (img t) = FSSIZE \<and>
    (\<forall>s :: 'z cons_st_scheme. boots t s \<longrightarrow> geo s \<and>
      (\<forall>k<length files. file_ok s (inode_on s (k + 2)) \<and> (\<forall>c i. cache_ok c {} s \<and> icache s ! i = inode_on s (k + 2) \<longrightarrow>
         (\<exists>u. readi i 0 (length (concat (snd (files ! k)))) s = Done (int (length (concat (snd (files ! k)))), concat (snd (files ! k))) u))) \<and>
      file_ok s (inode_on s ROOTINO) \<and> i_type (inode_on s ROOTINO) = T_DIR \<and>
      (\<forall>dp name. icache s ! dp = inode_on s ROOTINO \<longrightarrow> dlookup s dp name =
         map_of (map (\<lambda>e. (strncpy_list DIRSIZ (fst e), snd e)) (mk_entries files)) (strncpy_list DIRSIZ name)))"
proof -
  have "blocks (image_files files) = mk_blocks (16 * (length files + 2)) + (\<Sum>f\<leftarrow>files. mk_blocks (length (concat (snd f))))"
    unfolding blocks_image using card_pos [of "16 * (2 + length files)"] n(1) names
    by (auto simp: card_pos add.commute intro!: arg_cong [of _ _ sum_list] map_cong)
  then obtain t where t: "mkfs_main (map (\<lambda>f. (fst f, Some (snd f))) files) mk0 = Done () t" "made t files"
    using mkfs_main_law [OF n(1) names] room by auto
  have len: "length (img t) = FSSIZE" using t(2) by (simp add: made_def image_ok_def)
  have rd: "\<exists>u. readi i 0 (length (concat (snd (files ! k)))) s = Done (int (length (concat (snd (files ! k)))), concat (snd (files ! k))) u"
    if s: "boots t s" and k: "k < length files" and i: "cache_ok c {} s \<and> icache s ! i = inode_on s (k + 2)" for s :: "'z cons_st_scheme" and k c i
  proof -
    let ?d = "concat (snd (files ! k))" let ?ip = "inode_on s (k + 2)"
    note C = boots_contents [OF t(2) s k n(1)]
    have ip: "file_ok s (icache s ! i)" "i_type (icache s ! i) = T_FILE" "i_size (icache s ! i) = length ?d"
      "map (fbyte (blk s) (icache s ! i)) [0..<length ?d] = ?d" using C i by simp_all
    have "length ?d \<le> MAXFILE * BSIZE" using names nth_mem [OF k] by blast
    then show ?thesis
      using readi_law [of c s i 0 "length ?d"] i boots_geo [OF t(2) s] ip by auto
  qed
  show ?thesis
  proof (intro exI [of _ t] conjI allI impI)
    fix s :: "'z cons_st_scheme" assume s: "boots t s"
    show "geo s" by (rule boots_geo [OF t(2) s])
    show "file_ok s (inode_on s (k + 2))" if "k < length files" for k by (rule boots_contents(1) [OF t(2) s that n(1)])
    show "file_ok s (inode_on s ROOTINO)" "i_type (inode_on s ROOTINO) = T_DIR" using boots_root [OF t(2) s n] by simp_all
    show "dlookup s dp name = map_of (map (\<lambda>e. (strncpy_list DIRSIZ (fst e), snd e)) (mk_entries files)) (strncpy_list DIRSIZ name)"
      if "icache s ! dp = inode_on s ROOTINO" for dp name by (rule boots_root(3) [OF t(2) s n that])
  qed (use t len rd in auto)
qed

text \<open>A kernel on a disk, with nothing cached.\<close>

definition disk_start :: "byte list list \<Rightarrow> inode list \<Rightarrow> cons_st" where
  "disk_start d ic = fs_start\<lparr>disk := (\<lambda>_ b. d ! b), sb := sb_of (d ! 1), icache := ic\<rparr>"

lemma disk_start_boots: "boots t (disk_start (img t) ic)" "cache_ok 0 {} (disk_start d ic)" "icache (disk_start d ic) = ic"
  "inode_on (disk_start d ic) inum = inode_on (disk_start d []) inum"
proof -
  have B: "blk (disk_start d ic) b = d ! b" for b d ic
    unfolding blk_def by (subst kdata_uncached) (simp_all add: disk_start_def fs_start_def key_def buf0_def)
  show "boots t (disk_start (img t) ic)" using B [of "img t" ic] by (simp add: boots_def) (simp add: disk_start_def)
  show "inode_on (disk_start d ic) inum = inode_on (disk_start d []) inum" by (simp add: inode_on_def B) (simp add: disk_start_def)
  have "bio_inv {} (disk_start d ic)" "io_ready 0 (disk_start d ic)" "dirty (disk_start d ic) = {}"
    by (auto simp: disk_start_def fs_start_def bio_inv_def io_ready_def running_def proc0_def dirty_def key_def buf0_def unlocked_def)
  then show "cache_ok 0 {} (disk_start d ic)" by (simp add: cache_ok_def)
qed (simp add: disk_start_def)

theorem mkfs_kernel_agree_witness:
  "\<exists>t. mkfs_main [([95, 97], Some [[1, 2], [3]])] mk0 = Done () t \<and>
     (\<exists>u. readi 0 0 3 (disk_start (img t) [inode_on (disk_start (img t) []) 2]) = Done (3, [1, 2, 3]) u) \<and>
     dlookup (disk_start (img t) [inode_on (disk_start (img t) []) 1]) 0 [97] = Some 2"
proof -
  let ?files = "[([95, 97], [[1, 2], [3]])] :: host_file list"
  have hyp: "length ?files + 2 \<le> NINODES" "(length ?files + 2) mod 32 \<noteq> 0"
    "\<forall>f\<in>set ?files. slash \<notin> set (fst f) \<and> length (concat (snd f)) \<le> MAXFILE * BSIZE"
    "nmeta + mk_blocks (16 * (length ?files + 2)) + (\<Sum>f\<leftarrow>?files. mk_blocks (length (concat (snd f)))) \<le> FSSIZE"
    by (simp_all add: mk_blocks_def)
  obtain t where t: "mkfs_main (map (\<lambda>f. (fst f, Some (snd f))) ?files) mk0 = Done () t" "length (img t) = FSSIZE"
    "\<forall>s :: cons_st. boots t s \<longrightarrow> geo s \<and>
      (\<forall>k<length ?files. file_ok s (inode_on s (k + 2)) \<and> (\<forall>c i. cache_ok c {} s \<and> icache s ! i = inode_on s (k + 2) \<longrightarrow>
         (\<exists>u. readi i 0 (length (concat (snd (?files ! k)))) s = Done (int (length (concat (snd (?files ! k)))), concat (snd (?files ! k))) u))) \<and>
      file_ok s (inode_on s ROOTINO) \<and> i_type (inode_on s ROOTINO) = T_DIR \<and>
      (\<forall>dp name. icache s ! dp = inode_on s ROOTINO \<longrightarrow> dlookup s dp name =
         map_of (map (\<lambda>e. (strncpy_list DIRSIZ (fst e), snd e)) (mk_entries ?files)) (strncpy_list DIRSIZ name))"
    using mkfs_kernel_agree [OF hyp] by (elim exE conjE) (rule that)
  let ?s = "\<lambda>inum. disk_start (img t) [inode_on (disk_start (img t) []) inum]"
  have s: "icache (?s inum) ! 0 = inode_on (?s inum) inum" for inum unfolding disk_start_boots(3) by (simp add: disk_start_boots(4) [symmetric])
  have "\<forall>k<length ?files. file_ok (?s 2) (inode_on (?s 2) (k + 2)) \<and> (\<forall>c i. cache_ok c {} (?s 2) \<and> icache (?s 2) ! i = inode_on (?s 2) (k + 2) \<longrightarrow>
      (\<exists>u. readi i 0 (length (concat (snd (?files ! k)))) (?s 2) = Done (int (length (concat (snd (?files ! k)))), concat (snd (?files ! k))) u))"
    using t(3) disk_start_boots(1) by blast
  from this [rule_format, of 0, THEN conjunct2, rule_format, of 0 0] s [of "0 + 2"] disk_start_boots(2)
  have "\<exists>u. readi 0 0 3 (?s 2) = Done (3, [1, 2, 3]) u" by (simp add: numeral_2_eq_2 numeral_3_eq_3)
  moreover have "strncpy_list DIRSIZ [97] \<noteq> strncpy_list DIRSIZ [46]" "strncpy_list DIRSIZ [97] \<noteq> strncpy_list DIRSIZ [46, 46]" by code_simp+
  then have "dlookup (?s 1) 0 [97] = Some 2"
    using t(3) [rule_format, OF disk_start_boots(1), of "[inode_on (disk_start (img t) []) 1]"] s [of 1]
    by (simp add: mk_entries_def skip_underscore_def)
  ultimately show ?thesis using t(1) by auto
qed


end
