(* ===== verification/Namei.thy ===== *)
theory Namei
  imports Disk_Image
begin

text \<open>
  Path names: \<open>namei\<close> of \<open>fs.c\<close> with all that it calls. \<open>resolve\<close> walks the directory tree on disk along the elements of a
  path; \<open>namex\<close> does the same walk through the inode cache, and takes one reference to its result and no other.
\<close>

section \<open>Path elements\<close>

text \<open>The elements of a path are what is between slashes and not empty.\<close>

fun fields :: "byte list \<Rightarrow> byte list list" where
  "fields [] = [[]]"
| "fields (c # cs) = (if c = slash then [] # fields cs else (c # hd (fields cs)) # tl (fields cs))"

definition elems :: "byte list \<Rightarrow> byte list list" where
  "elems path = filter (\<lambda>e. e \<noteq> []) (fields path)"

lemma fields_ne [simp]: "fields p \<noteq> []"
  by (cases p) auto

lemma elems_Nil [simp]: "elems [] = []"
  by (simp add: elems_def)

lemma elems_skip: "elems (dropWhile (\<lambda>c. c = slash) p) = elems p"
  by (induction p) (auto simp: elems_def)

lemma fields_word:
  "fields p = takeWhile (\<lambda>c. c \<noteq> slash) p # (if dropWhile (\<lambda>c. c \<noteq> slash) p = [] then [] else fields (tl (dropWhile (\<lambda>c. c \<noteq> slash) p)))"
  by (induction p) auto

lemma elems_word:
  assumes "p \<noteq> []" "hd p \<noteq> slash"
  shows "elems p = takeWhile (\<lambda>c. c \<noteq> slash) p # elems (dropWhile (\<lambda>c. c \<noteq> slash) p)"
proof -
  let ?w = "takeWhile (\<lambda>c. c \<noteq> slash) p" and ?r = "dropWhile (\<lambda>c. c \<noteq> slash) p"
  have w: "?w \<noteq> []" using assms by (cases p) auto
  have e: "elems p = ?w # filter (\<lambda>e. e \<noteq> []) (if ?r = [] then [] else fields (tl ?r))"
    unfolding elems_def by (subst fields_word) (simp add: w)
  show ?thesis
  proof (cases ?r)
    case Nil
    show ?thesis unfolding e Nil by simp
  next
    case (Cons c cs)
    then have "c = slash" using hd_dropWhile [of "\<lambda>c. c \<noteq> slash" p] by simp
    then show ?thesis unfolding e Cons by (simp add: elems_def)
  qed
qed

text \<open>\<open>skipelem\<close> takes the first element, cut to the length of a directory entry, and leaves the others.\<close>

lemma take_strncpy: "strncpy_list n (take n e) = strncpy_list n e"
  by (simp add: strncpy_list_def)

lemma strncpy_stop: "0 \<notin> set e \<Longrightarrow> strncpy_list n (e @ 0 # r) = strncpy_list n e"
proof -
  assume a: "0 \<notin> set e"
  then have w: "takeWhile (\<lambda>c. c \<noteq> 0) (take m e) = take m e" for m by (auto simp: takeWhile_eq_all_conv dest: in_set_takeD)
  show ?thesis using w [of n] a by (auto simp: strncpy_list_def Let_def takeWhile_append take_Cons' w)
qed

lemma skipelem_law:
  assumes name: "length name = DIRSIZ" and nz: "0 \<notin> set path"
  shows "elems path = [] \<Longrightarrow> skipelem path name = None"
    and "elems path = e # es \<Longrightarrow> \<exists>path' name'. skipelem path name = Some (path', name') \<and> elems path' = es \<and> 0 \<notin> set path' \<and>
      length name' = DIRSIZ \<and> strncpy_list DIRSIZ name' = strncpy_list DIRSIZ e \<and> (path' = [] \<longleftrightarrow> es = [])"
proof -
  let ?p = "dropWhile (\<lambda>c. c = slash) path"
  have el: "elems path = elems ?p" "?p \<noteq> [] \<Longrightarrow> elems path = takeWhile (\<lambda>c. c \<noteq> slash) ?p # elems (dropWhile (\<lambda>c. c \<noteq> slash) ?p)"
    using elems_skip [of path] elems_word [of ?p] hd_dropWhile [of "\<lambda>c. c = slash" path] by simp_all
  show "skipelem path name = None" if "elems path = []" using el(2) that by (cases "?p = []") (simp add: skipelem_def, simp)
  assume e: "elems path = e # es"
  have p: "?p \<noteq> []"
  proof
    assume "?p = []"
    with el(1) e show False by simp
  qed
  let ?r = "dropWhile (\<lambda>c. c = slash) (dropWhile (\<lambda>c. c \<noteq> slash) ?p)"
  have ee: "e = takeWhile (\<lambda>c. c \<noteq> slash) ?p" "es = elems ?r" using e el(2) [OF p] elems_skip by auto
  have "set e \<subseteq> set path" unfolding ee(1) by (blast dest: set_takeWhileD set_dropWhileD)
  then have ne: "0 \<notin> set e" using nz by blast
  define name' where "name' = (if length e \<ge> DIRSIZ then put_at 0 (take DIRSIZ e) name else put_at 0 (e @ [0]) name)"
  have "skipelem path name = Some (?r, name')" using p by (simp add: skipelem_def Let_def name'_def ee(1))
  moreover have "0 \<notin> set ?r" using nz by (blast dest: set_dropWhileD)
  moreover have "length name' = DIRSIZ" using name by (auto simp: name'_def put_at_def)
  moreover have "strncpy_list DIRSIZ name' = strncpy_list DIRSIZ e"
    using take_strncpy [of DIRSIZ e] strncpy_stop [OF ne] name by (auto simp: name'_def put_at_def)
  moreover have "?r = [] \<longleftrightarrow> es = []"
  proof
    show "es = []" if "?r = []" unfolding ee(2) that by simp
    show "?r = []" if "es = []"
    proof (rule ccontr)
      assume r: "?r \<noteq> []"
      from hd_dropWhile [OF r] elems_word [OF r] show False using ee(2) that by simp
    qed
  qed
  ultimately show "\<exists>path' name'. skipelem path name = Some (path', name') \<and> elems path' = es \<and> 0 \<notin> set path' \<and>
      length name' = DIRSIZ \<and> strncpy_list DIRSIZ name' = strncpy_list DIRSIZ e \<and> (path' = [] \<longleftrightarrow> es = [])"
    using ee(2) [symmetric] by (intro exI [of _ ?r] exI [of _ name'] conjI) assumption+
qed


section \<open>Inodes in the cache\<close>

text \<open>
  \<open>agrees s x\<close>: what a valid inode of the disk holds is what is on disk. \<open>icache_ok\<close> is for a process that holds no lock but that of
  the inodes \<open>L\<close>.
\<close>

definition agrees :: "'z fs_st_scheme \<Rightarrow> inode \<Rightarrow> bool" where
  "agrees s x \<longleftrightarrow> (i_dev x = 1 \<and> i_ref x > 0 \<and> i_valid x \<longrightarrow> to_dinode x = to_dinode (inode_on s (i_inum x)))"

definition icache_ok :: "nat set \<Rightarrow> 'z fs_st_scheme \<Rightarrow> bool" where
  "icache_ok L s \<longleftrightarrow> length (icache s) = NINODE \<and>
     (\<forall>i<NINODE. 0 \<le> i_ref (icache s ! i) \<and> agrees s (icache s ! i) \<and> sl_locked (i_lock (icache s ! i)) = (i \<in> L))"

text \<open>What may change: the caches, and sleeping processes that are woken.\<close>

definition ic_frame :: "'z fs_st_scheme \<Rightarrow> 'z fs_st_scheme \<Rightarrow> bool" where
  "ic_frame s t \<longleftrightarrow> tx_frame s (t\<lparr>icache := icache s\<rparr>) \<and> blk t = blk s \<and> dirty t = dirty s"

lemma ic_frame_refl [simp]: "ic_frame s s"
  by (simp add: ic_frame_def)

lemma ic_frame_upd:
  fixes s t :: "'z fs_st_scheme"
  assumes "ic_frame s t"
  shows "ic_frame s (t\<lparr>icache := z\<rparr>)"
proof -
  have "dirty (t\<lparr>icache := z\<rparr>) = dirty t" by (simp add: dirty_def key_def)
  then show ?thesis using assms by (simp add: ic_frame_def)
qed

lemma ic_frame_trans:
  assumes "ic_frame s t" "ic_frame t u"
  shows "ic_frame s u"
proof -
  have "tx_frame (t\<lparr>icache := icache s\<rparr>) ((u\<lparr>icache := icache t\<rparr>)\<lparr>icache := icache s\<rparr>)"
    using assms(2) by (intro tx_frame_icache) (simp add: ic_frame_def)
  then show ?thesis using assms tx_frame_trans by (auto simp: ic_frame_def)
qed

lemma ic_frame_same_view:
  fixes s t :: "'z fs_st_scheme"
  assumes "same_view s t"
  shows "ic_frame s t"
proof -
  have "tx_frame (s\<lparr>icache := icache s\<rparr>) (t\<lparr>icache := icache s\<rparr>)" using assms by (intro tx_frame_icache) (simp add: same_view_def)
  then show ?thesis using assms by (simp add: ic_frame_def same_view_def)
qed

lemma ic_frame_wake:
  fixes s :: "'z fs_st_scheme"
  shows "ic_frame s (s\<lparr>procs := map (wake_one ch) (procs s)\<rparr>)"
  by (simp add: ic_frame_def tx_frame_def blk_def kdata_def key_def dirty_def fun_eq_iff split: option.splits)

lemma ic_frame_view:
  fixes s t :: "'z fs_st_scheme"
  assumes "ic_frame s t"
  shows "blk t = blk s" "sb t = sb s" "inode_on t k = inode_on s k" "geo t = geo s" "file_ok t ip = file_ok s ip" "held t = held s" "curp t = curp s"
    "agrees t x = agrees s x"
proof -
  have f: "tx_frame s (t\<lparr>icache := icache s\<rparr>)" and b: "blk t = blk s" using assms by (simp_all add: ic_frame_def)
  show "blk t = blk s" by (rule b)
  show sb: "sb t = sb s" using tx_frame_fs(1) [OF f] by simp
  show i: "inode_on t k = inode_on s k" for k by (simp add: inode_on_def b sb)
  have u: "used t = used s" "bmap_blk t = bmap_blk s" using b sb by (auto simp: used_def bmap_blk_def fun_eq_iff)
  show "geo t = geo s" "file_ok t ip = file_ok s ip" using b sb u by (simp_all add: geo_def file_ok_def)
  show "held t = held s" "curp t = curp s" using tx_frame_fields(1,2) [OF f] by simp_all
  show "agrees t x = agrees s x" by (simp add: agrees_def i)
qed

text \<open>One inode of the cache is changed.\<close>

lemma icache_ok_upd:
  assumes "icache_ok L s" "ic_frame s t" "icache t = (icache s)[i := x]" "0 \<le> i_ref x" "agrees s x" "sl_locked (i_lock x) = (i \<in> L')" "L - {i} = L' - {i}"
  shows "icache_ok L' t"
  unfolding icache_ok_def
proof (intro conjI allI impI)
  show "length (icache t) = NINODE" using assms(1,3) by (simp add: icache_ok_def)
  fix j assume j: "j < NINODE"
  have n: "icache t ! j = (if j = i then x else icache s ! j)" using j assms(1,3) by (auto simp: icache_ok_def)
  show "0 \<le> i_ref (icache t ! j)" "agrees t (icache t ! j)" using assms(1,4,5) j ic_frame_view(8) [OF assms(2)] by (auto simp: n icache_ok_def)
  have "j \<noteq> i \<Longrightarrow> (j \<in> L) = (j \<in> L')" using assms(7) by blast
  then show "sl_locked (i_lock (icache t ! j)) = (j \<in> L')" using assms(1,6) j by (auto simp: n icache_ok_def)
qed

lemma cache_ok_running: "cache_ok c H s \<Longrightarrow> curp s = Some c \<and> held s = {} \<and> c < length (procs s) \<and> p_state (procs s ! c) = RUNNING"
  by (simp add: cache_ok_def io_ready_def running_def)

lemma cache_ok_wake:
  fixes s :: "'z fs_st_scheme"
  assumes "cache_ok c {} s"
  shows "cache_ok c {} (s\<lparr>procs := map (wake_one ch) (procs s)\<rparr>)"
  using assms by (simp add: cache_ok_def io_ready_def running_def bio_inv_def key_def dirty_def)


lemma ilock_law:
  fixes s :: "'z fs_st_scheme"
  assumes ok: "cache_ok c {} s" and ic: "icache_ok L s" and i: "i < NINODE" "i \<notin> L" "i_ref (icache s ! i) > 0" "i_dev (icache s ! i) = 1"
    and k: "i_inum (icache s ! i) = k" "IBLOCK k (sb s) < FSSIZE" "i_type (inode_on s k) \<noteq> 0"
  shows "\<exists>t y. ilock (Some i) s = Done () t \<and> cache_ok c {} t \<and> ic_frame s t \<and> icache t = (icache s)[i := y] \<and>
    i_ref y = i_ref (icache s ! i) \<and> i_dev y = 1 \<and> i_inum y = k \<and> sl_locked (i_lock y) \<and> i_valid y \<and> to_dinode y = to_dinode (inode_on s k)"
proof -
  let ?x = "icache s ! i"
  have run: "curp s = Some c" "held s = {}" using cache_ok_running [OF ok] by auto
  have free: "\<not> sl_locked (i_lock ?x)" and len: "length (icache s) = NINODE" and ag: "agrees s ?x" using ic i by (simp_all add: icache_ok_def)
  define lk where "lk = \<lparr>sl_locked = True, sl_pid = p_pid (procs s ! c)\<rparr>"
  let ?s1 = "s\<lparr>icache := (icache s)[i := ?x\<lparr>i_lock := lk\<rparr>]\<rparr>"
  have a: "acquiresleep (LkInode i) (ChInodeLock i) (get_ilock i) (put_ilock i) s = Done () ?s1"
    using il.acquiresleep_free [of i s c] run free by (simp add: get_ilock_def put_ilock_def lk_def)
  show ?thesis
  proof (cases "i_valid ?x")
    case True
    then have "ilock (Some i) s = Done () ?s1"
      using a i(1,3) len by (simp add: ilock_def get_inode_def bnd_gets thn_panic_if thn_Done only_if_def ret_def)
    moreover have "to_dinode (?x\<lparr>i_lock := lk\<rparr>) = to_dinode (inode_on s k)" using ag i(3,4) k(1) True by (simp add: agrees_def to_dinode_def)
    ultimately show ?thesis using ok i(3,4) k(1) True ic_frame_upd [OF ic_frame_refl, of s]
      by (intro exI [of _ ?s1] exI [of _ "?x\<lparr>i_lock := lk\<rparr>"]) (simp add: lk_def)
  next
    case False
    let ?b = "IBLOCK k (sb s)" let ?d = "dinode_at (k mod IPB) (blk s ?b)"
    obtain bp s2 where 2: "bread 1 ?b ?s1 = Done bp s2" "cache_ok c {bp} s2" "same_view ?s1 s2" "b_data (bufs s2 ! bp) = blk s ?b" "clean_buf bp s2"
      using bread_view [of c "{}" ?s1 ?b] ok k(2) by auto
    have ic2: "icache s2 = (icache s)[i := ?x\<lparr>i_lock := lk\<rparr>]" "sb s2 = sb s" using tx_frame_fs [OF same_view_frame [OF 2(3)]] by simp_all
    let ?s3 = "s2\<lparr>icache := (icache s)[i := from_dinode ?d (?x\<lparr>i_lock := lk\<rparr>)]\<rparr>"
    have "clean_buf bp ?s3" using 2(5) by (simp add: clean_buf_def key_def)
    then obtain s4 where 4: "brelse bp ?s3 = Done () s4" "cache_ok c {} s4" "same_view ?s3 s4"
      using brelse_view [of c "{bp}" ?s3 bp] 2(2) by auto
    have ic4: "icache s4 = (icache s)[i := from_dinode ?d (?x\<lparr>i_lock := lk\<rparr>)]" using same_view_readable(4) [OF 4(3)] by simp
    let ?y = "(from_dinode ?d (?x\<lparr>i_lock := lk\<rparr>))\<lparr>i_valid := True\<rparr>"
    let ?s5 = "s4\<lparr>icache := (icache s)[i := ?y]\<rparr>"
    have ty: "d_type ?d \<noteq> 0" using k(3) by (simp add: inode_on_def from_dinode_def)
    have "ilock (Some i) s = Done () ?s5"
      using a i len False 2(1,4) 4(1) ic2 ic4 ty k(1)
      by (simp add: ilock_def get_inode_def bnd_gets thn_panic_if thn_Done only_if_def ret_def bnd_Done get_data_def upd_inode_def
          thn_modify from_dinode_def Let_def)
    moreover have "ic_frame s ?s5"
      using ic_frame_trans [OF ic_frame_upd [OF ic_frame_refl] ic_frame_same_view [OF 2(3)]] ic_frame_same_view [OF 4(3)]
      by (blast intro: ic_frame_upd ic_frame_trans)
    moreover have "to_dinode ?y = to_dinode (inode_on s k)" by (simp add: inode_on_def to_dinode_def from_dinode_def)
    ultimately show ?thesis using 4(2) i(3,4) k(1) by (intro exI [of _ ?s5] exI [of _ ?y]) (simp add: lk_def from_dinode_def)
  qed
qed


lemma iput_law:
  fixes s :: "'z fs_st_scheme"
  assumes "held s = {}" "i < length (icache s)" "i_valid (icache s ! i) \<Longrightarrow> i_nlink (icache s ! i) \<noteq> 0"
  shows "iput i s = Done () (s\<lparr>icache := (icache s)[i := (icache s ! i)\<lparr>i_ref := i_ref (icache s ! i) - 1\<rparr>]\<rparr>)"
  using assms by (auto simp: iput_def kop_simps get_inode_def upd_inode_def)

lemma iunlock_law:
  fixes s :: "'z fs_st_scheme"
  assumes ok: "cache_ok c {} s" and i: "i < length (icache s)" "sl_locked (i_lock (icache s ! i))" "i_ref (icache s ! i) > 0"
  shows "\<exists>t. iunlock (Some i) s = Done () t \<and> cache_ok c {} t \<and> ic_frame s t \<and> icache t = (icache s)[i := (icache s ! i)\<lparr>i_lock := unlocked\<rparr>]"
proof -
  let ?t = "s\<lparr>icache := (icache s)[i := (icache s ! i)\<lparr>i_lock := unlocked\<rparr>], procs := map (wake_one (ChInodeLock i)) (procs s)\<rparr>"
  let ?u = "s\<lparr>icache := (icache s)[i := (icache s ! i)\<lparr>i_lock := unlocked\<rparr>]\<rparr>"
  have h: "held s = {}" using cache_ok_running [OF ok] by simp
  have "iunlock (Some i) s = Done () ?t"
    using h i il.releasesleep_run [of i s]
    by (simp add: iunlock_def il.bnd_holdingsleep get_ilock_def put_ilock_def get_inode_def bnd_gets thn_panic_if)
  moreover have "cache_ok c {} ?t" using cache_ok_wake [of c ?u] ok by simp
  moreover have "ic_frame s ?t" using ic_frame_trans [OF ic_frame_upd [OF ic_frame_refl] ic_frame_wake, of s] by simp
  ultimately show ?thesis by (intro exI [of _ ?t]) simp
qed

lemma iunlockput_law:
  fixes s :: "'z fs_st_scheme"
  assumes ok: "cache_ok c {} s" and i: "i < length (icache s)" "sl_locked (i_lock (icache s ! i))" "i_ref (icache s ! i) > 0"
    and n: "i_nlink (icache s ! i) \<noteq> 0"
  shows "\<exists>t. iunlockput i s = Done () t \<and> cache_ok c {} t \<and> ic_frame s t \<and>
    icache t = (icache s)[i := (icache s ! i)\<lparr>i_lock := unlocked, i_ref := i_ref (icache s ! i) - 1\<rparr>]"
proof -
  obtain u where u: "iunlock (Some i) s = Done () u" "cache_ok c {} u" "ic_frame s u" "icache u = (icache s)[i := (icache s ! i)\<lparr>i_lock := unlocked\<rparr>]"
    using iunlock_law [OF ok i] by blast
  have "held u = {}" using cache_ok_running [OF u(2)] by simp
  then have "iunlockput i s = Done () (u\<lparr>icache := (icache s)[i := (icache s ! i)\<lparr>i_lock := unlocked, i_ref := i_ref (icache s ! i) - 1\<rparr>]\<rparr>)"
    using iput_law [of u i] u i(1) n by (simp add: iunlockput_def thn_Done)
  then show ?thesis using u(2,3) ic_frame_upd by (intro exI) auto
qed

lemma iget_ok:
  fixes s :: "'z fs_st_scheme"
  assumes ok: "cache_ok c {} s" and ic: "icache_ok L s" and room: "\<exists>j<NINODE. i_ref (icache s ! j) = 0"
  shows "\<exists>j x. iget 1 k s = Done j (s\<lparr>icache := (icache s)[j := x]\<rparr>) \<and> j < NINODE \<and> i_ref x = i_ref (icache s ! j) + 1 \<and> i_dev x = 1 \<and> i_inum x = k \<and>
    (i_ref (icache s ! j) > 0 \<longrightarrow> x = (icache s ! j)\<lparr>i_ref := i_ref (icache s ! j) + 1\<rparr>) \<and> agrees s x \<and> i_lock x = i_lock (icache s ! j)"
proof -
  have len: "length (icache s) = NINODE" and at: "\<And>j. j < NINODE \<Longrightarrow> 0 \<le> i_ref (icache s ! j) \<and> agrees s (icache s ! j)" using ic by (simp_all add: icache_ok_def)
  have r: "iroom s 1 k" "LkIcache \<notin> held s" using len room cache_ok_running [OF ok] by (auto simp: iroom_def)
  obtain j x where j: "iget 1 k s = Done j (s\<lparr>icache := (icache s)[j := x]\<rparr>)" "j < length (icache s)" "icached 1 k x"
    "if icached 1 k (icache s ! j) then x = (icache s ! j)\<lparr>i_ref := i_ref (icache s ! j) + 1\<rparr>
     else i_ref (icache s ! j) = 0 \<and> (\<forall>k'<NINODE. \<not> icached 1 k (icache s ! k')) \<and> i_ref x = 1 \<and> \<not> i_valid x \<and> i_lock x = i_lock (icache s ! j)"
    using iget_law [OF r] by (elim exE conjE) (rule that)
  have "agrees s x" using j(2,4) at [of j] len by (auto simp: agrees_def to_dinode_def icached_def split: if_splits)
  moreover have "i_ref x = i_ref (icache s ! j) + 1" "i_lock x = i_lock (icache s ! j)" using j(4) by (auto split: if_splits)
  moreover have "i_ref (icache s ! j) > 0 \<longrightarrow> x = (icache s ! j)\<lparr>i_ref := i_ref (icache s ! j) + 1\<rparr>" using j(4) by (cases "icached 1 k (icache s ! j)") simp_all
  moreover have "j < NINODE" using j(2) len by simp
  ultimately show ?thesis using j(1,3) unfolding icached_def by blast
qed


section \<open>The directory tree\<close>

definition ilookup :: "(nat \<Rightarrow> byte list) \<Rightarrow> inode \<Rightarrow> byte list \<Rightarrow> nat option" where
  "ilookup B ip name = map_option de_inum (find (has_name name) (map (\<lambda>off. dirent_of (map (fbyte B ip) [off..<off + 16])) (dirent_offs (i_size ip))))"

lemma dlookup_ilookup: "dlookup s dp name = ilookup (blk s) (icache s ! dp) name"
  unfolding dlookup_list ilookup_def dent_def ..

text \<open>Two inodes with the same content are the same file.\<close>

lemma same_dinode:
  assumes "to_dinode x = to_dinode y"
  shows "fmap B x = fmap B y" "fbyte B x = fbyte B y" "i_size x = i_size y" "i_type x = i_type y" "i_nlink x = i_nlink y" "ilookup B x = ilookup B y"
    "i_dev x = i_dev y \<Longrightarrow> file_ok s x = file_ok s y"
proof -
  have e: "i_addrs x = i_addrs y" "i_size x = i_size y" "i_type x = i_type y" "i_nlink x = i_nlink y" using assms by (simp_all add: to_dinode_def)
  then show "i_size x = i_size y" "i_type x = i_type y" "i_nlink x = i_nlink y" by simp_all
  show m: "fmap B x = fmap B y" for B using e by (simp add: fmap_def fun_eq_iff)
  then show f: "fbyte B x = fbyte B y" for B by (simp add: fbyte_def fun_eq_iff)
  show "ilookup B x = ilookup B y" by (rule ext) (simp only: ilookup_def f e(2))
  have ow: "own B x = own B y" for B by (simp only: own_def m)
  show "file_ok s x = file_ok s y" if "i_dev x = i_dev y" by (simp only: file_ok_def m ow e that)
qed

lemma ilookup_name:
  assumes "strncpy_list DIRSIZ a = strncpy_list DIRSIZ b"
  shows "ilookup B ip a = ilookup B ip b"
proof -
  have "has_name a = has_name b" using assms by (simp add: has_name_def namecmp_def strncmp_list_iff fun_eq_iff)
  then show ?thesis by (simp add: ilookup_def)
qed

text \<open>The walk along the elements of a path, over the inodes on disk, to the last or, for \<open>par\<close>, to the directory that is to hold it.\<close>

fun resolve :: "'z fs_st_scheme \<Rightarrow> bool \<Rightarrow> nat \<Rightarrow> byte list list \<Rightarrow> nat option" where
  "resolve s par k [] = (if par then None else Some k)"
| "resolve s par k (e # es) = (if i_type (inode_on s k) \<noteq> T_DIR then None else if par \<and> es = [] then Some k
     else Option.bind (ilookup (blk s) (inode_on s k) e) (\<lambda>k'. resolve s par k' es))"

text \<open>The inodes \<open>K\<close> of the tree: all are in use, with links, and the entries of its directories lead to inodes of the tree.\<close>

definition tree_ok :: "nat set \<Rightarrow> 'z fs_st_scheme \<Rightarrow> bool" where
  "tree_ok K s \<longleftrightarrow> geo s \<and> (\<forall>k\<in>K. IBLOCK k (sb s) < FSSIZE \<and> i_type (inode_on s k) \<noteq> 0 \<and> i_nlink (inode_on s k) \<noteq> 0 \<and>
     (i_type (inode_on s k) = T_DIR \<longrightarrow> file_ok s (inode_on s k) \<and> 16 dvd i_size (inode_on s k) \<and>
        (\<forall>name k'. ilookup (blk s) (inode_on s k) name = Some k' \<longrightarrow> k' \<in> K)))"

lemma ic_frame_tree:
  fixes s t :: "'z fs_st_scheme"
  assumes "ic_frame s t"
  shows "tree_ok K t = tree_ok K s" "resolve t par k es = resolve s par k es"
proof -
  note V = ic_frame_view [OF assms]
  show "tree_ok K t = tree_ok K s" by (simp add: tree_ok_def V)
  show "resolve t par k es = resolve s par k es" by (induction es arbitrary: k) (simp_all add: V)
qed

text \<open>The walk is at the inode \<open>k\<close>, with one reference to its entry \<open>ip\<close> of the cache; without it two entries are not in use.\<close>

definition base_ref :: "nat option \<Rightarrow> 'z fs_st_scheme \<Rightarrow> nat \<Rightarrow> int" where
  "base_ref p s i = i_ref (icache s ! i) - (if p = Some i then 1 else 0)"

definition walk_ok :: "nat \<Rightarrow> nat set \<Rightarrow> 'z fs_st_scheme \<Rightarrow> bool" where
  "walk_ok c K s \<longleftrightarrow> cache_ok c {} s \<and> icache_ok {} s \<and> tree_ok K s"

definition at_node :: "nat set \<Rightarrow> nat \<Rightarrow> nat \<Rightarrow> 'z fs_st_scheme \<Rightarrow> bool" where
  "at_node K ip k s \<longleftrightarrow> k \<in> K \<and> ip < NINODE \<and> i_ref (icache s ! ip) > 0 \<and> i_dev (icache s ! ip) = 1 \<and> i_inum (icache s ! ip) = k \<and>
     (\<exists>p q. p < NINODE \<and> q < NINODE \<and> p \<noteq> q \<and> base_ref (Some ip) s p = 0 \<and> base_ref (Some ip) s q = 0)"

definition moves :: "nat option \<Rightarrow> nat option \<Rightarrow> 'z fs_st_scheme \<Rightarrow> 'z fs_st_scheme \<Rightarrow> bool" where
  "moves p r s t \<longleftrightarrow> ic_frame s t \<and> (\<forall>i<NINODE. base_ref r t i = base_ref p s i \<and>
     (base_ref p s i > 0 \<longrightarrow> i_dev (icache t ! i) = i_dev (icache s ! i) \<and> i_inum (icache t ! i) = i_inum (icache s ! i)))"

lemma moves_trans: "moves p q s t \<Longrightarrow> moves q r t u \<Longrightarrow> moves p r s u"
  by (auto simp: moves_def intro: ic_frame_trans)


lemma icache_okD:
  assumes "icache_ok L s" "i < NINODE"
  shows "length (icache s) = NINODE" "0 \<le> i_ref (icache s ! i)" "agrees s (icache s ! i)" "sl_locked (i_lock (icache s ! i)) = (i \<in> L)"
  using assms by (simp_all add: icache_ok_def)

lemma nth_upd: "i < length xs \<Longrightarrow> xs[j := x] ! i = (if i = j then x else xs ! i)"
  by simp

text \<open>To lock the inode of the walk, and to give it up.\<close>

lemma enter_law:
  fixes s :: "'z fs_st_scheme"
  assumes w: "walk_ok c K s" and at: "at_node K ip k s"
  shows "\<exists>t y. ilock (Some ip) s = Done () t \<and> cache_ok c {} t \<and> icache_ok {ip} t \<and> moves (Some ip) (Some ip) s t \<and> icache t = (icache s)[ip := y] \<and>
    i_ref y = i_ref (icache s ! ip) \<and> i_valid y \<and> i_dev y = 1 \<and> i_inum y = k \<and> to_dinode y = to_dinode (inode_on s k)"
proof -
  have ok: "cache_ok c {} s" "icache_ok {} s" and k: "IBLOCK k (sb s) < FSSIZE" "i_type (inode_on s k) \<noteq> 0"
    using w at by (simp_all add: walk_ok_def at_node_def tree_ok_def)
  have ip: "ip < NINODE" "i_ref (icache s ! ip) > 0" "i_dev (icache s ! ip) = 1" "i_inum (icache s ! ip) = k" using at by (simp_all add: at_node_def)
  obtain t y where t: "ilock (Some ip) s = Done () t" "cache_ok c {} t" "ic_frame s t" "icache t = (icache s)[ip := y]"
    and y: "i_ref y = i_ref (icache s ! ip)" "i_dev y = 1" "i_inum y = k" "sl_locked (i_lock y)" "i_valid y" "to_dinode y = to_dinode (inode_on s k)"
    using ilock_law [OF ok ip(1) _ ip(2-4) k] by auto
  have ag: "agrees s y" using y by (simp add: agrees_def)
  have "icache_ok {ip} t" by (rule icache_ok_upd [OF ok(2) t(3,4) _ ag]) (use y ip in auto)
  moreover have "moves (Some ip) (Some ip) s t" unfolding moves_def base_ref_def t(4) using t(3) y ip icache_okD(1) [OF ok(2) ip(1)] by (simp add: nth_upd)
  ultimately show ?thesis using t y by blast
qed

lemma leave_law:
  fixes s :: "'z fs_st_scheme"
  assumes ok: "cache_ok c {} s" "icache_ok {ip} s" and ip: "ip < NINODE" "i_ref (icache s ! ip) > 0" "i_nlink (icache s ! ip) \<noteq> 0"
  shows "\<exists>t. iunlockput ip s = Done () t \<and> cache_ok c {} t \<and> icache_ok {} t \<and> moves (Some ip) None s t \<and>
    icache t = (icache s)[ip := (icache s ! ip)\<lparr>i_lock := unlocked, i_ref := i_ref (icache s ! ip) - 1\<rparr>]"
proof -
  note I = icache_okD [OF ok(2) ip(1)]
  let ?z = "(icache s ! ip)\<lparr>i_lock := unlocked, i_ref := i_ref (icache s ! ip) - 1\<rparr>"
  obtain t where t: "iunlockput ip s = Done () t" "cache_ok c {} t" "ic_frame s t" "icache t = (icache s)[ip := ?z]"
    using iunlockput_law [OF ok(1), of ip] ip I by auto
  have "agrees s ?z" using I(3) ip(2) by (auto simp: agrees_def to_dinode_def)
  then have "icache_ok {} t" by (intro icache_ok_upd [OF ok(2) t(3,4)]) (use ip in \<open>auto simp: unlocked_def\<close>)
  moreover have "moves (Some ip) None s t" unfolding moves_def base_ref_def t(4) using t(3) I(1) by (simp add: nth_upd)
  ultimately show ?thesis using t by blast
qed

lemma unlock_law:
  fixes s :: "'z fs_st_scheme"
  assumes ok: "cache_ok c {} s" "icache_ok {ip} s" and ip: "ip < NINODE" "i_ref (icache s ! ip) > 0"
  shows "\<exists>t. iunlock (Some ip) s = Done () t \<and> cache_ok c {} t \<and> icache_ok {} t \<and> moves (Some ip) (Some ip) s t \<and>
    icache t = (icache s)[ip := (icache s ! ip)\<lparr>i_lock := unlocked\<rparr>]"
proof -
  note I = icache_okD [OF ok(2) ip(1)]
  let ?z = "(icache s ! ip)\<lparr>i_lock := unlocked\<rparr>"
  obtain t where t: "iunlock (Some ip) s = Done () t" "cache_ok c {} t" "ic_frame s t" "icache t = (icache s)[ip := ?z]"
    using iunlock_law [OF ok(1), of ip] ip I by auto
  have "agrees s ?z" using I(3) by (auto simp: agrees_def to_dinode_def)
  then have "icache_ok {} t" by (intro icache_ok_upd [OF ok(2) t(3,4)]) (use ip in \<open>auto simp: unlocked_def\<close>)
  moreover have "moves (Some ip) (Some ip) s t" unfolding moves_def base_ref_def t(4) using t(3) I(1) by (simp add: nth_upd)
  ultimately show ?thesis using t by blast
qed

text \<open>The next inode of the walk.\<close>

lemma next_law:
  fixes s :: "'z fs_st_scheme"
  assumes ok: "cache_ok c {} s" "icache_ok {ip} s" and ip: "ip < NINODE" "i_ref (icache s ! ip) > 0" "i_nlink (icache s ! ip) \<noteq> 0"
    and room: "\<exists>p q. p < NINODE \<and> q < NINODE \<and> p \<noteq> q \<and> base_ref (Some ip) s p = 0 \<and> base_ref (Some ip) s q = 0"
  shows "\<exists>j u t. iget 1 k s = Done j u \<and> iunlockput ip u = Done () t \<and> cache_ok c {} t \<and> icache_ok {} t \<and> moves (Some ip) (Some j) s t \<and>
    j < NINODE \<and> i_ref (icache t ! j) > 0 \<and> i_dev (icache t ! j) = 1 \<and> i_inum (icache t ! j) = k"
proof -
  have "\<exists>j<NINODE. i_ref (icache s ! j) = 0" using room by (auto simp: base_ref_def split: if_splits)
  then obtain j x where j: "iget 1 k s = Done j (s\<lparr>icache := (icache s)[j := x]\<rparr>)" "j < NINODE" and x: "i_ref x = i_ref (icache s ! j) + 1" "i_dev x = 1" "i_inum x = k"
    "i_ref (icache s ! j) > 0 \<longrightarrow> x = (icache s ! j)\<lparr>i_ref := i_ref (icache s ! j) + 1\<rparr>" "agrees s x" "i_lock x = i_lock (icache s ! j)"
    using iget_ok [OF ok] by blast
  note I = icache_okD [OF ok(2)]
  let ?u = "s\<lparr>icache := (icache s)[j := x]\<rparr>"
  have f: "ic_frame s ?u" by (rule ic_frame_upd) simp
  have u: "cache_ok c {} ?u" "icache_ok {ip} ?u"
    using ok(1) icache_ok_upd [OF ok(2) f _ _ x(5), of j "{ip}"] I [OF j(2)] x(1,6) by simp_all
  have iu: "icache ?u ! ip = (if ip = j then x else icache s ! ip)" using I(1) ip(1) by (simp add: nth_upd)
  have "i_ref (icache ?u ! ip) > 0" "i_nlink (icache ?u ! ip) \<noteq> 0" using iu x(1,4) ip by auto
  then obtain t where t: "iunlockput ip ?u = Done () t" "cache_ok c {} t" "icache_ok {} t" "moves (Some ip) None ?u t"
    "icache t = (icache ?u)[ip := (icache ?u ! ip)\<lparr>i_lock := unlocked, i_ref := i_ref (icache ?u ! ip) - 1\<rparr>]"
    using leave_law [OF u ip(1)] by blast
  define y where "y = (if ip = j then x else icache s ! ip)"
  have nt: "icache t ! i = (if i = ip then y\<lparr>i_lock := unlocked, i_ref := i_ref y - 1\<rparr> else if i = j then x else icache s ! i)"
    if "i < NINODE" for i using t(5) I(1) [OF that] that unfolding iu y_def [symmetric] by (simp add: nth_upd)
  have "ic_frame s t" using ic_frame_trans [OF f] t(4) by (simp add: moves_def)
  moreover have "base_ref (Some j) t i = base_ref (Some ip) s i \<and> (base_ref (Some ip) s i > 0 \<longrightarrow>
      i_dev (icache t ! i) = i_dev (icache s ! i) \<and> i_inum (icache t ! i) = i_inum (icache s ! i))" if "i < NINODE" for i
    using x(1,4) I(2) [OF j(2)] unfolding base_ref_def nt [OF that] y_def by auto
  ultimately have "moves (Some ip) (Some j) s t" by (simp add: moves_def)
  moreover have "i_ref (icache t ! j) > 0" "i_dev (icache t ! j) = 1" "i_inum (icache t ! j) = k"
    using nt [OF j(2)] x(1,2,3) I(2) [OF j(2)] ip(2) by (auto simp: y_def)
  ultimately show ?thesis using j t(1-3) by blast
qed


lemma moves_refl: "moves p p s s"
  by (simp add: moves_def)

lemma walk_ok_moves: "walk_ok c K s \<Longrightarrow> moves p r s t \<Longrightarrow> cache_ok c {} t \<Longrightarrow> icache_ok {} t \<Longrightarrow> walk_ok c K t"
  using ic_frame_tree(1) [of s t] by (simp add: walk_ok_def moves_def)

lemma drop_law:
  fixes s :: "'z fs_st_scheme"
  assumes w: "walk_ok c K s" and at: "at_node K ip k s"
  shows "\<exists>t. iput ip s = Done () t \<and> walk_ok c K t \<and> moves (Some ip) None s t"
proof -
  have ok: "cache_ok c {} s" "icache_ok {} s" and ip: "ip < NINODE" "i_ref (icache s ! ip) > 0" "i_dev (icache s ! ip) = 1" "i_inum (icache s ! ip) = k"
    and n: "i_nlink (inode_on s k) \<noteq> 0" using w at by (simp_all add: walk_ok_def at_node_def tree_ok_def)
  note I = icache_okD [OF ok(2) ip(1)]
  let ?z = "(icache s ! ip)\<lparr>i_ref := i_ref (icache s ! ip) - 1\<rparr>" let ?t = "s\<lparr>icache := (icache s)[ip := ?z]\<rparr>"
  have "i_valid (icache s ! ip) \<Longrightarrow> i_nlink (icache s ! ip) \<noteq> 0" using I(3) ip n same_dinode(5) by (metis agrees_def)
  then have r: "iput ip s = Done () ?t" using cache_ok_running [OF ok(1)] I(1) ip(1) by (intro iput_law) auto
  have f: "ic_frame s ?t" by (rule ic_frame_upd) simp
  have "agrees s ?z" using I(3) ip by (auto simp: agrees_def to_dinode_def)
  then have "icache_ok {} ?t" by (intro icache_ok_upd [OF ok(2) f, of ip ?z]) (use ip I in auto)
  moreover have "moves (Some ip) None s ?t" unfolding moves_def base_ref_def using f I(1) by (simp add: nth_upd)
  ultimately show ?thesis using r walk_ok_moves [OF w] ok(1) by (intro exI [of _ ?t]) simp
qed

lemma look_law:
  fixes s :: "'z cons_st_scheme"
  assumes ok: "cache_ok c {} s" "icache_ok L s" and d: "geo s" "file_ok s (icache s ! ip)" "i_type (icache s ! ip) = T_DIR" "16 dvd i_size (icache s ! ip)"
  shows "\<exists>t off. cache_ok c {} t \<and> icache_ok L t \<and> same_view s t \<and> dirlookup ip name s = (case ilookup (blk s) (icache s ! ip) name of
      None \<Rightarrow> Done None t
    | Some k \<Rightarrow> bnd (iget 1 k) (\<lambda>j. ret (Some (j, off))) t)"
proof -
  have "dir_ok c s ip" using ok d by (simp add: dir_ok_def)
  from dirlookup_law [OF this, of name] obtain t where t: "cache_ok c {} t" "same_view s t"
    and r: "dirlookup ip name s = (case find (\<lambda>off. has_name name (dent s ip off)) (dirent_offs (i_size (icache s ! ip))) of
      None \<Rightarrow> Done None t | Some off \<Rightarrow> bnd (iget 1 (de_inum (dent s ip off))) (\<lambda>ip. ret (Some (ip, off))) t)" by blast
  have "icache_ok L t" using ok(2) same_view_readable(4) [OF t(2)] ic_frame_view(8) [OF ic_frame_same_view [OF t(2)]] by (simp add: icache_ok_def)
  then show ?thesis using t r unfolding dlookup_ilookup [symmetric] dlookup_def
    by (cases "find (\<lambda>off. has_name name (dent s ip off)) (dirent_offs (i_size (icache s ! ip)))") auto
qed

lemma same_view_moves:
  fixes s t :: "'z fs_st_scheme"
  assumes "same_view s t"
  shows "moves p p s t"
  using ic_frame_same_view [OF assms] same_view_readable(4) [OF assms] by (simp add: moves_def base_ref_def)

definition found :: "nat option \<Rightarrow> nat option \<Rightarrow> 'z fs_st_scheme \<Rightarrow> bool" where
  "found q r t \<longleftrightarrow> (case q of None \<Rightarrow> r = None
     | Some k \<Rightarrow> \<exists>j<NINODE. r = Some j \<and> i_ref (icache t ! j) > 0 \<and> i_dev (icache t ! j) = 1 \<and> i_inum (icache t ! j) = k)"


text \<open>One element of the path: the loop body of \<open>namex\<close> up to the next inode.\<close>

lemma step_law:
  fixes s :: "'z cons_st_scheme"
  assumes w: "walk_ok c K s" and at: "at_node K ip k s" and e: "skipelem path name = Some (path', name')" "strncpy_list DIRSIZ name' = strncpy_list DIRSIZ e" "path' = [] \<longleftrightarrow> es = []"
  shows "i_type (inode_on s k) \<noteq> T_DIR \<Longrightarrow> \<exists>t. namex_loop ip path par name s = Done (None, name') t \<and> walk_ok c K t \<and> moves (Some ip) None s t"
    and "i_type (inode_on s k) = T_DIR \<Longrightarrow> par \<and> es = [] \<Longrightarrow> \<exists>t. namex_loop ip path par name s = Done (Some ip, name') t \<and> walk_ok c K t \<and>
      moves (Some ip) (Some ip) s t \<and> found (Some k) (Some ip) t"
    and "i_type (inode_on s k) = T_DIR \<Longrightarrow> \<not> (par \<and> es = []) \<Longrightarrow> ilookup (blk s) (inode_on s k) e = None \<Longrightarrow>
      \<exists>t. namex_loop ip path par name s = Done (None, name') t \<and> walk_ok c K t \<and> moves (Some ip) None s t"
    and "i_type (inode_on s k) = T_DIR \<Longrightarrow> \<not> (par \<and> es = []) \<Longrightarrow> ilookup (blk s) (inode_on s k) e = Some k' \<Longrightarrow>
      \<exists>j t. namex_loop ip path par name s = namex_loop j path' par name' t \<and> walk_ok c K t \<and> moves (Some ip) (Some j) s t \<and> at_node K j k' t"
proof -
  obtain u y where u: "ilock (Some ip) s = Done () u" "cache_ok c {} u" "icache_ok {ip} u" "moves (Some ip) (Some ip) s u" "icache u = (icache s)[ip := y]"
    and y: "i_ref y = i_ref (icache s ! ip)" "i_valid y" "i_dev y = 1" "to_dinode y = to_dinode (inode_on s k)" "i_inum y = k" using enter_law [OF w at] by blast
  have kK: "k \<in> K" and ip: "ip < NINODE" "i_ref (icache s ! ip) > 0" and tr: "tree_ok K s" using w at by (simp_all add: walk_ok_def at_node_def)
  have iu: "icache u ! ip = y" using u(5) icache_okD(1) [OF u(3) ip(1)] ip(1) by (simp add: nth_upd)
  note Y = same_dinode [OF y(4)]
  have fr: "ic_frame s u" using u(4) by (simp add: moves_def)
  note V = ic_frame_view [OF fr]
  have nl: "i_nlink y \<noteq> 0" using tr kK Y(5) by (simp add: tree_ok_def)
  have ip': "i_ref (icache u ! ip) > 0" "i_nlink (icache u ! ip) \<noteq> 0" using ip y(1) nl iu by simp_all
  have run: "namex_loop ip path par name s = (if i_type y \<noteq> T_DIR then thn (iunlockput ip) (ret (None, name')) u
      else if par \<and> path' = [] then thn (iunlock (Some ip)) (ret (Some ip, name')) u
      else bnd (dirlookup ip name') (\<lambda>r. thn (iunlockput ip) (case r of None \<Rightarrow> ret (None, name') | Some (nxt, _) \<Rightarrow> namex_loop nxt path' par name')) u)"
    using u(1) iu by (subst namex_loop.simps) (simp add: e(1) thn_Done get_inode_def bnd_gets)
  show "\<exists>t. namex_loop ip path par name s = Done (None, name') t \<and> walk_ok c K t \<and> moves (Some ip) None s t" if "i_type (inode_on s k) \<noteq> T_DIR"
  proof -
    obtain t where t: "iunlockput ip u = Done () t" "cache_ok c {} t" "icache_ok {} t" "moves (Some ip) None u t" using leave_law [OF u(2,3) ip(1) ip'] by blast
    have m: "moves (Some ip) None s t" by (rule moves_trans [OF u(4) t(4)])
    then show ?thesis using run that Y(4) t walk_ok_moves [OF w m] by (intro exI [of _ t]) (simp add: thn_Done ret_def)
  qed
  show "\<exists>t. namex_loop ip path par name s = Done (Some ip, name') t \<and> walk_ok c K t \<and> moves (Some ip) (Some ip) s t \<and> found (Some k) (Some ip) t"
    if "i_type (inode_on s k) = T_DIR" "par \<and> es = []"
  proof -
    obtain t where t: "iunlock (Some ip) u = Done () t" "cache_ok c {} t" "icache_ok {} t" "moves (Some ip) (Some ip) u t"
      "icache t = (icache u)[ip := (icache u ! ip)\<lparr>i_lock := unlocked\<rparr>]" using unlock_law [OF u(2,3) ip(1) ip'(1)] by blast
    have m: "moves (Some ip) (Some ip) s t" by (rule moves_trans [OF u(4) t(4)])
    have "found (Some k) (Some ip) t" unfolding found_def t(5) iu using ip ip'(1) y icache_okD(1) [OF u(3) ip(1)] by (simp add: nth_upd)
    then show ?thesis using run that Y(4) t(1-3) m walk_ok_moves [OF w m] e(3) by (intro exI [of _ t]) (auto simp: thn_Done ret_def)
  qed
  have dir: "geo u" "file_ok u (icache u ! ip)" "i_type (icache u ! ip) = T_DIR" "16 dvd i_size (icache u ! ip)" if "i_type (inode_on s k) = T_DIR"
  proof -
    have "i_dev (inode_on s k) = 1" by (simp add: inode_on_def from_dinode_def fs_file_def)
    then show "geo u" "file_ok u (icache u ! ip)" "i_type (icache u ! ip) = T_DIR" "16 dvd i_size (icache u ! ip)"
      using tr kK Y(3,4) Y(7) [of s] y(3) that V(4,5) iu by (auto simp: tree_ok_def)
  qed
  have lk: "ilookup (blk u) (icache u ! ip) name' = ilookup (blk s) (inode_on s k) e" using ilookup_name [OF e(2)] Y(6) V(1) iu by simp
  have rest: "namex_loop ip path par name s = bnd (dirlookup ip name') (\<lambda>r. thn (iunlockput ip) (case r of None \<Rightarrow> ret (None, name') | Some (nxt, _) \<Rightarrow> namex_loop nxt path' par name')) u"
    if "i_type (inode_on s k) = T_DIR" "\<not> (par \<and> es = [])" using run that Y(4) e(3) by auto
  show "\<exists>t. namex_loop ip path par name s = Done (None, name') t \<and> walk_ok c K t \<and> moves (Some ip) None s t"
    if c0: "i_type (inode_on s k) = T_DIR" "\<not> (par \<and> es = [])" "ilookup (blk s) (inode_on s k) e = None"
  proof -
    obtain v where v: "cache_ok c {} v" "icache_ok {ip} v" "same_view u v" "dirlookup ip name' u = Done None v"
      using look_law [OF u(2,3) dir [OF c0(1)], of name'] lk c0(3) by auto
    have "icache v = icache u" by (rule same_view_readable(4) [OF v(3)])
    then obtain t where t: "iunlockput ip v = Done () t" "cache_ok c {} t" "icache_ok {} t" "moves (Some ip) None v t"
      using leave_law [OF v(1,2) ip(1)] ip' by auto
    have m: "moves (Some ip) None s t" by (rule moves_trans [OF u(4) moves_trans [OF same_view_moves [OF v(3)] t(4)]])
    then show ?thesis using rest [OF c0(1,2)] v(4) t walk_ok_moves [OF w m] by (intro exI [of _ t]) (simp add: bnd_Done thn_Done ret_def)
  qed
  show "\<exists>j t. namex_loop ip path par name s = namex_loop j path' par name' t \<and> walk_ok c K t \<and> moves (Some ip) (Some j) s t \<and> at_node K j k' t"
    if c0: "i_type (inode_on s k) = T_DIR" "\<not> (par \<and> es = [])" "ilookup (blk s) (inode_on s k) e = Some k'"
  proof -
    obtain v off where v: "cache_ok c {} v" "icache_ok {ip} v" "same_view u v" "dirlookup ip name' u = bnd (iget 1 k') (\<lambda>j. ret (Some (j, off))) v"
      using look_law [OF u(2,3) dir [OF c0(1)], of name'] lk c0(3) by auto
    have iv: "icache v = icache u" by (rule same_view_readable(4) [OF v(3)])
    have ms: "moves (Some ip) (Some ip) s v" by (rule moves_trans [OF u(4) same_view_moves [OF v(3)]])
    then have room: "\<exists>p q. p < NINODE \<and> q < NINODE \<and> p \<noteq> q \<and> base_ref (Some ip) v p = 0 \<and> base_ref (Some ip) v q = 0"
      using at by (simp add: moves_def at_node_def) metis
    obtain j x t where t: "iget 1 k' v = Done j x" "iunlockput ip x = Done () t" "cache_ok c {} t" "icache_ok {} t" "moves (Some ip) (Some j) v t"
      and j: "j < NINODE" "i_ref (icache t ! j) > 0" "i_dev (icache t ! j) = 1" "i_inum (icache t ! j) = k'"
      using next_law [OF v(1,2) ip(1) _ _ room, of k'] ip' iv by auto
    have m: "moves (Some ip) (Some j) s t" by (rule moves_trans [OF ms t(5)])
    have "\<exists>p q. p < NINODE \<and> q < NINODE \<and> p \<noteq> q \<and> base_ref (Some j) t p = 0 \<and> base_ref (Some j) t q = 0"
      using room t(5) by (simp add: moves_def) metis
    moreover have "k' \<in> K" using tr kK c0(1,3) unfolding tree_ok_def by blast
    ultimately have "at_node K j k' t" using j by (simp add: at_node_def)
    then show ?thesis using rest [OF c0(1,2)] v(4) t m walk_ok_moves [OF w m] by (intro exI [of _ j] exI [of _ t]) (simp add: bnd_Done thn_Done ret_def)
  qed
qed

lemma namex_loop_law:
  fixes s :: "'z cons_st_scheme"
  assumes "walk_ok c K s" "at_node K ip k s" "elems path = es" "0 \<notin> set path" "length name = DIRSIZ"
  shows "\<exists>r nm t. namex_loop ip path par name s = Done (r, nm) t \<and> walk_ok c K t \<and> moves (Some ip) r s t \<and> found (resolve s par k es) r t \<and>
    (par \<and> r \<noteq> None \<longrightarrow> strncpy_list DIRSIZ nm = strncpy_list DIRSIZ (last es))"
  using assms
proof (induction es arbitrary: s ip k path name)
  case Nil
  then have "skipelem path name = None" by (intro skipelem_law(1)) simp_all
  then have l: "namex_loop ip path par name s = (if par then thn (iput ip) (ret (None, name)) s else Done (Some ip, name) s)"
    by (subst namex_loop.simps) (simp add: ret_def)
  show ?case
  proof (cases par)
    case True
    then show ?thesis using drop_law [OF Nil(1,2)] l by (auto simp: thn_Done ret_def found_def)
  next
    case False
    then show ?thesis using Nil(1,2) l moves_refl by (auto simp: found_def at_node_def)
  qed
next
  case (Cons e es)
  obtain path' name' where sk: "skipelem path name = Some (path', name')" "elems path' = es" "0 \<notin> set path'" "length name' = DIRSIZ"
    "strncpy_list DIRSIZ name' = strncpy_list DIRSIZ e" "path' = [] \<longleftrightarrow> es = []" using skipelem_law(2) [OF Cons.prems(5,4,3)] by blast
  note S = step_law [OF Cons.prems(1,2) sk(1,5,6)]
  consider (nodir) "i_type (inode_on s k) \<noteq> T_DIR" | (parent) "i_type (inode_on s k) = T_DIR" "par \<and> es = []"
    | (absent) "i_type (inode_on s k) = T_DIR" "\<not> (par \<and> es = [])" "ilookup (blk s) (inode_on s k) e = None"
    | (entry) k' where "i_type (inode_on s k) = T_DIR" "\<not> (par \<and> es = [])" "ilookup (blk s) (inode_on s k) e = Some k'" by fastforce
  then show ?case
  proof cases
    case nodir
    then show ?thesis using S(1) [of par] by (fastforce simp: found_def)
  next
    case parent
    then show ?thesis using S(2) [OF parent] sk(5) by fastforce
  next
    case absent
    then show ?thesis using S(3) [OF absent] by (fastforce simp: found_def)
  next
    case (entry k')
    obtain j t where t: "namex_loop ip path par name s = namex_loop j path' par name' t" "walk_ok c K t" "moves (Some ip) (Some j) s t" "at_node K j k' t"
      using S(4) [OF entry] by blast
    obtain r nm v where v: "namex_loop j path' par name' t = Done (r, nm) v" "walk_ok c K v" "moves (Some j) r t v" "found (resolve t par k' es) r v"
      "par \<and> r \<noteq> None \<longrightarrow> strncpy_list DIRSIZ nm = strncpy_list DIRSIZ (last es)" using Cons.IH [OF t(2,4) sk(2-4)] by blast
    have "resolve s par k (e # es) = resolve t par k' es" using entry ic_frame_tree(2) [of s t par k' es] t(3) by (auto simp: moves_def)
    moreover have "es \<noteq> []" if "par" using entry(2) that by blast
    ultimately show ?thesis using t(1) v moves_trans [OF t(3) v(3)] by (intro exI [of _ r] exI [of _ nm] exI [of _ v]) auto
  qed
qed


text \<open>Where the walk starts: the root for an absolute path, the working directory of the process otherwise.\<close>

definition start_node :: "nat \<Rightarrow> byte list \<Rightarrow> nat \<Rightarrow> 'z fs_st_scheme \<Rightarrow> bool" where
  "start_node c path k s \<longleftrightarrow> (if take 1 path = [slash] then k = ROOTINO
     else \<exists>d<NINODE. p_cwd (procs s ! c) = Some d \<and> i_ref (icache s ! d) > 0 \<and> i_dev (icache s ! d) = 1 \<and> i_inum (icache s ! d) = k)"

definition two_free :: "'z fs_st_scheme \<Rightarrow> bool" where
  "two_free s \<longleftrightarrow> (\<exists>p q. p < NINODE \<and> q < NINODE \<and> p \<noteq> q \<and> i_ref (icache s ! p) = 0 \<and> i_ref (icache s ! q) = 0)"

lemma take_law:
  fixes s :: "'z fs_st_scheme"
  assumes w: "walk_ok c K s" and j: "j < NINODE" and x: "i_ref x = i_ref (icache s ! j) + 1" "i_dev x = 1" "i_inum x = k" "agrees s x" "i_lock x = i_lock (icache s ! j)"
    "i_ref (icache s ! j) > 0 \<longrightarrow> i_dev (icache s ! j) = 1 \<and> i_inum (icache s ! j) = k" and kK: "k \<in> K" and free: "two_free s"
  shows "walk_ok c K (s\<lparr>icache := (icache s)[j := x]\<rparr>) \<and> moves None (Some j) s (s\<lparr>icache := (icache s)[j := x]\<rparr>) \<and> at_node K j k (s\<lparr>icache := (icache s)[j := x]\<rparr>)"
proof -
  let ?t = "s\<lparr>icache := (icache s)[j := x]\<rparr>"
  have ok: "cache_ok c {} s" "icache_ok {} s" using w by (simp_all add: walk_ok_def)
  note I = icache_okD [OF ok(2) j]
  have f: "ic_frame s ?t" by (rule ic_frame_upd) simp
  have "icache_ok {} ?t" by (intro icache_ok_upd [OF ok(2) f, of j x]) (use x I in auto)
  moreover have m: "moves None (Some j) s ?t" unfolding moves_def base_ref_def using f I(1) x by (simp add: nth_upd)
  ultimately have "walk_ok c K ?t" using walk_ok_moves [OF w m] ok(1) by simp
  moreover have "at_node K j k ?t"
    using j x(1-3) kK I(1,2) free m by (auto simp: at_node_def two_free_def moves_def base_ref_def nth_upd)
  ultimately show ?thesis using m by blast
qed

lemma start_law:
  fixes s :: "'z cons_st_scheme"
  assumes w: "walk_ok c K s" and st: "start_node c path k s" "k \<in> K" and free: "two_free s"
  shows "\<exists>j t. namex path par name s = namex_loop j path par name t \<and> walk_ok c K t \<and> moves None (Some j) s t \<and> at_node K j k t"
proof (cases "take 1 path = [slash]")
  case True
  have ok: "cache_ok c {} s" "icache_ok {} s" using w by (simp_all add: walk_ok_def)
  have "\<exists>j<NINODE. i_ref (icache s ! j) = 0" using free by (auto simp: two_free_def)
  then obtain j x where j: "iget 1 k s = Done j (s\<lparr>icache := (icache s)[j := x]\<rparr>)" "j < NINODE" and x: "i_ref x = i_ref (icache s ! j) + 1" "i_dev x = 1" "i_inum x = k"
    "i_ref (icache s ! j) > 0 \<longrightarrow> x = (icache s ! j)\<lparr>i_ref := i_ref (icache s ! j) + 1\<rparr>" "agrees s x" "i_lock x = i_lock (icache s ! j)"
    using iget_ok [OF ok] by blast
  have "i_ref (icache s ! j) > 0 \<longrightarrow> i_dev (icache s ! j) = 1 \<and> i_inum (icache s ! j) = k" using x(2-4) by auto
  from take_law [OF w j(2) x(1-3,5,6) this st(2) free] j(1) show ?thesis using True st(1) by (auto simp: namex_def start_node_def bnd_Done)
next
  case False
  then obtain d where d: "d < NINODE" "p_cwd (procs s ! c) = Some d" "i_ref (icache s ! d) > 0" "i_dev (icache s ! d) = 1" "i_inum (icache s ! d) = k"
    using st(1) by (auto simp: start_node_def)
  have ok: "cache_ok c {} s" "icache_ok {} s" using w by (simp_all add: walk_ok_def)
  let ?x = "(icache s ! d)\<lparr>i_ref := i_ref (icache s ! d) + 1\<rparr>"
  have "agrees s ?x" using icache_okD(3) [OF ok(2) d(1)] d(3) by (auto simp: agrees_def to_dinode_def)
  from take_law [OF w d(1), of ?x k, OF _ _ _ this _ _ st(2) free] d
  have t: "walk_ok c K (s\<lparr>icache := (icache s)[d := ?x]\<rparr>)" "moves None (Some d) s (s\<lparr>icache := (icache s)[d := ?x]\<rparr>)" "at_node K d k (s\<lparr>icache := (icache s)[d := ?x]\<rparr>)"
    by auto
  have "idup d s = Done d (s\<lparr>icache := (icache s)[d := ?x]\<rparr>)" using cache_ok_running [OF ok(1)] by (simp add: idup_def kop_simps upd_inode_def)
  then have "namex path par name s = namex_loop d path par name (s\<lparr>icache := (icache s)[d := ?x]\<rparr>)"
    using False d(2) cache_ok_running [OF ok(1)] by (simp add: namex_def kop_simps bnd_Done)
  then show ?thesis using t by blast
qed

text \<open>
  C38. Path names. \<open>namei\<close> of any path, absolute or relative, returns the inode that the walk along the elements of the path reaches in the
  directory tree on disk, and null exactly when an element is missing or something on the way is not a directory. The elements are the
  parts between slashes that are not empty, compared up to 14 bytes. \<open>nameiparent\<close> stops one element before the end and leaves that
  element in \<open>name\<close>. Both take one reference to the inode they return and give back all others, with every lock released; the disk,
  and the entries of the cache that are in use, stay as they are.
\<close>

theorem namei_resolves:
  fixes s :: "'z cons_st_scheme"
  assumes "walk_ok c K s" "start_node c path k s" "k \<in> K" "two_free s" "0 \<notin> set path"
  shows "(\<exists>r t. namei path s = Done r t \<and> found (resolve s False k (elems path)) r t \<and> walk_ok c K t \<and> moves None r s t) \<and>
    (\<exists>r name t. nameiparent path s = Done (r, name) t \<and> found (resolve s True k (elems path)) r t \<and> walk_ok c K t \<and> moves None r s t \<and>
      (r \<noteq> None \<longrightarrow> strncpy_list DIRSIZ name = strncpy_list DIRSIZ (last (elems path))))"
proof -
  have "\<exists>r nm t. namex path par (replicate DIRSIZ 0) s = Done (r, nm) t \<and> walk_ok c K t \<and> moves None r s t \<and> found (resolve s par k (elems path)) r t \<and>
    (par \<and> r \<noteq> None \<longrightarrow> strncpy_list DIRSIZ nm = strncpy_list DIRSIZ (last (elems path)))" for par
  proof -
    obtain j u where u: "namex path par (replicate DIRSIZ 0) s = namex_loop j path par (replicate DIRSIZ 0) u" "walk_ok c K u" "moves None (Some j) s u" "at_node K j k u"
      using start_law [OF assms(1-4), of par "replicate DIRSIZ 0"] by blast
    obtain r nm t where t: "namex_loop j path par (replicate DIRSIZ 0) u = Done (r, nm) t" "walk_ok c K t" "moves (Some j) r u t" "found (resolve u par k (elems path)) r t"
      "par \<and> r \<noteq> None \<longrightarrow> strncpy_list DIRSIZ nm = strncpy_list DIRSIZ (last (elems path))"
      using namex_loop_law [OF u(2,4) refl assms(5), of "replicate DIRSIZ 0" par] by auto
    have "resolve u par k (elems path) = resolve s par k (elems path)" using u(3) by (intro ic_frame_tree(2)) (simp add: moves_def)
    then show ?thesis using u(1) t moves_trans [OF u(3) t(3)] by auto
  qed
  from this [of False] this [of True] show ?thesis by (auto simp: namei_def nameiparent_def bnd_Done ret_def)
qed


text \<open>The tree on the image that \<open>mkfs\<close> makes of one file.\<close>

lemma image_tree:
  assumes made: "made t [([95, 97], [[1, 2], [3]])]" and s: "boots t s"
  shows "tree_ok {1, 2} s" "i_type (inode_on s 1) = T_DIR" "ilookup (blk s) (inode_on s 1) [97] = Some 2"
proof -
  let ?files = "[([95, 97], [[1, 2], [3]])] :: host_file list" let ?z = "s\<lparr>icache := [inode_on s 1]\<rparr>"
  have m: "img t ! 1 = sb_block" "d_nlink (din_on t 1) = 1" "d_size (din_on t 1) = 512" "on_disk t 2 (2, [1, 2, 3])"
    using made by (simp_all add: made_def Let_def length_root length_entries root_size_def numeral_2_eq_2)
  note B = boots_inode [OF s m(1)] and R = boots_root(1,2) [OF made s]
  have i1: "i_nlink (inode_on s 1) = 1" "i_size (inode_on s 1) = 512" "i_nlink (inode_on s 2) = 1" "i_type (inode_on s 2) = T_FILE"
    using B(2) [of 1] B(2) [of 2] m on_diskD(2,3) [OF m(4)] by (simp_all add: ipd_def from_dinode_def)
  show ty: "i_type (inode_on s 1) = T_DIR" using R by simp
  have z: "boots t ?z" "blk ?z = blk s" "icache ?z ! 0 = inode_on ?z 1" using s by (simp_all add: boots_def inode_on_def)
  have lk: "ilookup (blk s) (inode_on s 1) name = map_of (map (\<lambda>e. (strncpy_list DIRSIZ (fst e), snd e)) (mk_entries ?files)) (strncpy_list DIRSIZ name)" for name
    using boots_root(3) [OF made z(1) _ _ z(3), of name] unfolding dlookup_ilookup z(2) by simp
  have ne: "strncpy_list DIRSIZ [97] \<noteq> strncpy_list DIRSIZ [46]" "strncpy_list DIRSIZ [97] \<noteq> strncpy_list DIRSIZ [46, 46]" by code_simp+
  then show "ilookup (blk s) (inode_on s 1) [97] = Some 2" unfolding lk by (simp add: mk_entries_def skip_underscore_def)
  have "k' \<in> {1, 2}" if "ilookup (blk s) (inode_on s 1) name = Some k'" for name k'
    using that unfolding lk by (auto simp: mk_entries_def skip_underscore_def split: if_splits)
  then show "tree_ok {1, 2} s" using boots_geo [OF made s] R ty i1 B(1) by (simp add: tree_ok_def)
qed

theorem namei_resolves_witness:
  "\<exists>d j t. mkfs_main [([95, 97], Some [[1, 2], [3]])] mk0 = Done () d \<and>
     namei [47, 97] (disk_start (img d) (replicate 50 (fs_file\<lparr>i_ref := 0\<rparr>))) = Done (Some j) t \<and> i_inum (icache t ! j) = 2 \<and> i_ref (icache t ! j) = 1"
proof -
  let ?files = "[([95, 97], [[1, 2], [3]])] :: host_file list"
  obtain d where d: "mkfs_main [([95, 97], Some [[1, 2], [3]])] mk0 = Done () d" "made d ?files"
    using mkfs_main_law [of ?files] by (auto simp: blocks_image card_pos mk_blocks_def)
  let ?s = "disk_start (img d) (replicate 50 (fs_file\<lparr>i_ref := 0\<rparr>))"
  note T = image_tree [OF d(2) disk_start_boots(1)]
  have "icache_ok {} ?s" by (simp add: icache_ok_def disk_start_boots(3) agrees_def) (simp add: fs_file_def unlocked_def)
  then have w: "walk_ok 0 {1, 2} ?s" using T(1) disk_start_boots(2) by (simp add: walk_ok_def)
  have st: "start_node 0 [47, 97] 1 ?s" by (simp add: start_node_def)
  have free: "two_free ?s" unfolding two_free_def by (intro exI [of _ 0] exI [of _ 1]) (simp add: disk_start_boots(3))
  obtain r t where t: "namei [47, 97] ?s = Done r t" "found (resolve ?s False 1 (elems [47, 97])) r t" "moves None r ?s t"
    using namei_resolves [OF w st _ free] by auto
  have "resolve ?s False 1 (elems [47, 97]) = Some 2" using T(2,3) by (simp add: elems_def)
  then obtain j where j: "r = Some j" "j < NINODE" "i_inum (icache t ! j) = 2" using t(2) by (auto simp: found_def)
  have "i_ref (icache t ! j) = 1" using t(3) j(1,2) by (simp add: moves_def base_ref_def disk_start_boots(3))
  then show ?thesis using d(1) t(1) j by blast
qed


end
