(* ===== verification/Umalloc.thy ===== *)
theory Umalloc
  imports Xv6_Prelude
begin

text \<open>
  The heap of a user process, src/umalloc.c. The headers are an explicit store: \<open>hptr\<close> and \<open>hsize\<close> are the fields of a header at an
  address, a null pointer is 0, and one more \<open>Header\<close> is 16 bytes further. Addresses are natural numbers: user memory ends far below the
  64-bit range. \<open>brk\<close> is the size of the process, and \<open>grant\<close> decides whether the kernel lets \<open>sbrk\<close> extend it. The two loops
  follow pointers in memory and may run forever on a broken list, so that they are partial.
\<close>

section \<open>Model\<close>

record um_st =
  hptr :: "nat \<Rightarrow> nat"
  hsize :: "nat \<Rightarrow> nat"
  hbase :: nat
  freep :: nat
  brk :: nat

partial_function (option) free_search :: "um_st \<Rightarrow> nat \<Rightarrow> nat \<Rightarrow> nat option" where
  "free_search s bp p =
     (if bp > p \<and> bp < hptr s p then Some p
      else if p \<ge> hptr s p \<and> (bp > p \<or> bp < hptr s p) then Some p
      else free_search s bp (hptr s p))"

definition join_next :: "nat \<Rightarrow> nat \<Rightarrow> um_st \<Rightarrow> um_st" where
  "join_next bp p s =
     (if bp + 16 * hsize s bp = hptr s p
      then s\<lparr>hsize := (hsize s)(bp := (hsize s bp + hsize s (hptr s p)) mod 2 ^ 32), hptr := (hptr s)(bp := hptr s (hptr s p))\<rparr>
      else s\<lparr>hptr := (hptr s)(bp := hptr s p)\<rparr>)"

definition join_prev :: "nat \<Rightarrow> nat \<Rightarrow> um_st \<Rightarrow> um_st" where
  "join_prev bp p s =
     (if p + 16 * hsize s p = bp
      then s\<lparr>hsize := (hsize s)(p := (hsize s p + hsize s bp) mod 2 ^ 32), hptr := (hptr s)(p := hptr s bp)\<rparr>
      else s\<lparr>hptr := (hptr s)(p := bp)\<rparr>)"

definition free_at :: "nat \<Rightarrow> nat \<Rightarrow> um_st \<Rightarrow> um_st" where
  "free_at bp p s = (join_prev bp p (join_next bp p s))\<lparr>freep := p\<rparr>"

definition free :: "nat \<Rightarrow> um_st \<Rightarrow> um_st option" where
  "free ap s = map_option (\<lambda>p. free_at (ap - 16) p s) (free_search s (ap - 16) (freep s))"

definition morecore :: "(nat \<Rightarrow> nat \<Rightarrow> bool) \<Rightarrow> nat \<Rightarrow> um_st \<Rightarrow> (nat \<times> um_st) option" where
  "morecore grant nu s = (let nu = (if nu < 4096 then 4096 else nu) in
     if \<not> grant (brk s) (nu * 16) then Some (0, s)
     else let hp = brk s; s = s\<lparr>brk := hp + nu * 16, hsize := (hsize s)(hp := nu)\<rparr> in
       map_option (\<lambda>s. (freep s, s)) (free (hp + 16) s))"

definition take_block :: "nat \<Rightarrow> nat \<Rightarrow> nat \<Rightarrow> um_st \<Rightarrow> nat \<times> um_st" where
  "take_block nunits prevp p s =
     (if hsize s p = nunits then (p + 16, s\<lparr>hptr := (hptr s)(prevp := hptr s p), freep := prevp\<rparr>)
      else let s = s\<lparr>hsize := (hsize s)(p := hsize s p - nunits)\<rparr>; p = p + 16 * hsize s p
        in (p + 16, s\<lparr>hsize := (hsize s)(p := nunits), freep := prevp\<rparr>))"

partial_function (option) malloc_loop :: "(nat \<Rightarrow> nat \<Rightarrow> bool) \<Rightarrow> nat \<Rightarrow> nat \<Rightarrow> nat \<Rightarrow> um_st \<Rightarrow> (nat \<times> um_st) option" where
  "malloc_loop grant nunits prevp p s =
     (if hsize s p \<ge> nunits then Some (take_block nunits prevp p s)
      else if p = freep s then Option.bind (morecore grant nunits s) (\<lambda>r.
        if fst r = 0 then Some (0, snd r) else malloc_loop grant nunits (fst r) (hptr (snd r) (fst r)) (snd r))
      else malloc_loop grant nunits p (hptr s p) s)"

definition units :: "nat \<Rightarrow> nat" where
  "units nbytes = (nbytes + 16 - 1) div 16 + 1"

definition malloc :: "(nat \<Rightarrow> nat \<Rightarrow> bool) \<Rightarrow> nat \<Rightarrow> um_st \<Rightarrow> (nat \<times> um_st) option" where
  "malloc grant nbytes s =
     (let s = (if freep s = 0 then s\<lparr>hptr := (hptr s)(hbase s := hbase s), freep := hbase s, hsize := (hsize s)(hbase s := 0)\<rparr> else s)
      in malloc_loop grant (units nbytes) (freep s) (hptr s (freep s)) s)"

section \<open>The free list\<close>

text \<open>
  The list is circular and sorted by address, from \<open>base\<close> on. \<open>walk h p ps\<close>: the pointers lead from \<open>p\<close> through \<open>ps\<close>. Between free
  blocks there is always something, and a block is an address with a number of units.
\<close>

type_synonym ublock = "nat \<times> nat"

fun walk :: "(nat \<Rightarrow> nat) \<Rightarrow> nat \<Rightarrow> nat list \<Rightarrow> bool" where
  "walk h p [] = True"
| "walk h p (q # qs) = (h p = q \<and> walk h q qs)"

fun spaced :: "nat \<Rightarrow> ublock list \<Rightarrow> bool" where
  "spaced lo [] = True"
| "spaced lo ((a, n) # bs) = (lo \<le> a \<and> 0 < n \<and> spaced (a + 16 * n + 1) bs)"

definition apart_blocks :: "ublock \<Rightarrow> ublock \<Rightarrow> bool" where
  "apart_blocks x y \<longleftrightarrow> fst x + 16 * snd x \<le> fst y \<or> fst y + 16 * snd y \<le> fst x"

definition inside :: "um_st \<Rightarrow> ublock \<Rightarrow> bool" where
  "inside s x \<longleftrightarrow> hbase s + 16 \<le> fst x \<and> 0 < snd x \<and> fst x + 16 * snd x \<le> brk s \<and> hsize s (fst x) = snd x"

definition heap_inv :: "um_st \<Rightarrow> ublock list \<Rightarrow> ublock set \<Rightarrow> bool" where
  "heap_inv s fl A \<longleftrightarrow> 0 < hbase s \<and> hbase s + 16 \<le> brk s \<and> brk s \<le> 2 ^ 36 \<and> hsize s (hbase s) = 0 \<and>
     walk (hptr s) (hbase s) (map fst fl @ [hbase s]) \<and> freep s \<in> insert (hbase s) (fst ` set fl) \<and>
     spaced (hbase s + 16) fl \<and> (\<forall>x\<in>set fl \<union> A. inside s x) \<and>
     (\<forall>x\<in>A. \<forall>y\<in>set fl. apart_blocks x y) \<and> (\<forall>x\<in>A. \<forall>y\<in>A. x \<noteq> y \<longrightarrow> apart_blocks x y)"

lemma walk_append: "walk h p (xs @ ys) \<longleftrightarrow> walk h p xs \<and> walk h (last (p # xs)) ys"
  by (induction xs arbitrary: p) auto

lemma walk_same: "(\<And>x. x \<in> set (butlast (p # ps)) \<Longrightarrow> h' x = h x) \<Longrightarrow> walk h p ps \<Longrightarrow> walk h' p ps"
  by (induction ps arbitrary: p) auto

lemma spaced_append: "spaced lo (xs @ ys) \<longleftrightarrow> spaced lo xs \<and> spaced (if xs = [] then lo else fst (last xs) + 16 * snd (last xs) + 1) ys"
  by (induction xs arbitrary: lo) auto

lemma spaced_mono: "spaced lo xs \<Longrightarrow> lo' \<le> lo \<Longrightarrow> spaced lo' xs"
  by (cases xs) auto

lemma spaced_suffix: "spaced lo (xs @ ys) \<Longrightarrow> spaced lo ys"
proof (induction xs arbitrary: lo)
  case (Cons x xs)
  then have "spaced (fst x + 16 * snd x + 1) ys" "lo \<le> fst x" by (cases x, auto)+
  then show ?case by (auto intro: spaced_mono)
qed simp

lemma spaced_bound: "spaced lo xs \<Longrightarrow> x \<in> set xs \<Longrightarrow> lo \<le> fst x"
  by (induction xs arbitrary: lo) (auto, fastforce)

text \<open>From every node of the list the search for the place of \<open>bp\<close> ends at its predecessor.\<close>

lemma search_up:
  assumes "walk (hptr s) q (qs @ [p])" "sorted_wrt (<) (q # qs @ [p])" "p < bp" "free_search s bp p = Some p"
  shows "free_search s bp q = Some p"
  using assms(1,2)
proof (induction qs arbitrary: q)
  case Nil
  then show ?case using assms(3,4) by (subst free_search.simps) auto
next
  case (Cons r qs)
  then have "free_search s bp r = Some p" by auto
  moreover have "hptr s q = r" "q < r" "r < bp" using Cons.prems assms(3) by auto
  ultimately show ?case by (subst free_search.simps) auto
qed

lemma search_round:
  assumes "walk (hptr s) q (qs @ [b])" "sorted_wrt (<) (q # qs)" "bp < q" "b < bp" "free_search s bp b = Some p"
  shows "free_search s bp q = Some p"
  using assms(1-3)
proof (induction qs arbitrary: q)
  case Nil
  then show ?case using assms(4,5) by (subst free_search.simps) auto
next
  case (Cons r qs)
  then have "free_search s bp r = Some p" by auto
  moreover have "hptr s q = r" "q < r" "bp < q" using Cons.prems by auto
  ultimately show ?case by (subst free_search.simps) auto
qed



lemma spaced_sorted: "spaced lo xs \<Longrightarrow> sorted_wrt (<) (map fst xs)"
proof (induction xs arbitrary: lo)
  case (Cons x xs)
  then show ?case using spaced_bound [of "fst x + 16 * snd x + 1" xs] by (cases x) fastforce
qed simp

lemma spaced_pos: "spaced lo xs \<Longrightarrow> x \<in> set xs \<Longrightarrow> 0 < snd x"
  by (induction xs arbitrary: lo) auto

lemma heap_invD:
  assumes "heap_inv s fl A"
  shows "0 < hbase s" "hbase s + 16 \<le> brk s" "brk s \<le> 2 ^ 36" "hsize s (hbase s) = 0" "walk (hptr s) (hbase s) (map fst fl @ [hbase s])"
    "freep s \<in> insert (hbase s) (fst ` set fl)" "spaced (hbase s + 16) fl" "x \<in> set fl \<union> A \<Longrightarrow> inside s x"
    "x \<in> A \<Longrightarrow> y \<in> set fl \<Longrightarrow> apart_blocks x y" "x \<in> A \<Longrightarrow> y \<in> A \<Longrightarrow> x \<noteq> y \<Longrightarrow> apart_blocks x y"
  using assms by (auto simp: heap_inv_def)

lemma heap_inv_distinct:
  assumes inv: "heap_inv s fl A"
  shows "distinct (hbase s # map fst fl)"
proof -
  note I = heap_invD [OF inv]
  have "hbase s \<notin> fst ` set fl" using I(8) by (fastforce simp: inside_def)
  then show ?thesis using spaced_sorted [OF I(7)] by (simp add: strict_sorted_iff)
qed

text \<open>The free blocks below and above a block that is not free.\<close>

lemma split_free:
  assumes "spaced lo fl" "\<forall>y\<in>set fl. apart_blocks x y" "0 < snd x"
  obtains l r where "fl = l @ r" "\<forall>y\<in>set l. fst y + 16 * snd y \<le> fst x" "\<forall>y\<in>set r. fst x + 16 * snd x \<le> fst y"
proof -
  define l r where "l = takeWhile (\<lambda>y. fst y < fst x) fl" and "r = dropWhile (\<lambda>y. fst y < fst x) fl"
  have fl: "fl = l @ r" by (simp add: l_def r_def)
  have lo: "fst y + 16 * snd y \<le> fst x" if "y \<in> set l" for y
  proof -
    have "fst y < fst x" "y \<in> set fl" using that by (auto simp: l_def dest: set_takeWhileD)
    then show ?thesis using assms(2,3) by (fastforce simp: apart_blocks_def)
  qed
  have hi: "fst x + 16 * snd x \<le> fst y" if y: "y \<in> set r" for y
  proof -
    obtain z zs where z: "r = z # zs" using y by (cases r) auto
    have "\<not> fst z < fst x" using hd_dropWhile [of "\<lambda>y. fst y < fst x" fl] unfolding r_def [symmetric] z by simp
    moreover have "sorted_wrt (<) (map fst (l @ z # zs))" using spaced_sorted [OF assms(1)] fl z by simp
    then have "fst z \<le> fst y" using y z by (auto simp: sorted_wrt_append less_imp_le)
    moreover have "apart_blocks x y" "0 < snd y" using assms(2) spaced_pos [OF assms(1)] y fl by auto
    ultimately show ?thesis by (auto simp: apart_blocks_def)
  qed
  show ?thesis by (rule that [OF fl]) (use lo hi in auto)
qed

text \<open>The search ends at the last node below the block.\<close>

lemma free_search_law:
  assumes inv: "heap_inv s fl A" and fl: "fl = l @ r" and a: "\<forall>y\<in>set l. fst y < a" "\<forall>y\<in>set r. a < fst y" "hbase s < a"
  defines "p \<equiv> last (hbase s # map fst l)"
  assumes q: "q \<in> insert (hbase s) (fst ` set fl)"
  shows "free_search s a q = Some p"
proof -
  let ?b = "hbase s" let ?L = "?b # map fst l" and ?R = "map fst r"
  note I = heap_invD [OF inv]
  have "spaced (?b + 1) fl" by (rule spaced_mono [OF I(7)]) simp
  then have lt: "\<forall>x\<in>set fl. ?b < fst x" using spaced_bound [of "?b + 1" fl] by fastforce
  then have srt: "sorted_wrt (<) (?L @ ?R)" using spaced_sorted [OF I(7)] by (auto simp: fl)
  have w: "walk (hptr s) ?b (map fst l)" "walk (hptr s) p (?R @ [?b])" using I(5) by (simp_all add: fl walk_append p_def del: last.simps)
  have pL: "p \<in> set ?L" unfolding p_def by (rule last_in_set) simp
  have "x < a \<and> ?b \<le> x" if "x \<in> set ?L" for x using that a(1,3) lt by (auto simp: fl intro: less_imp_le)
  then have pa: "p < a" "?b \<le> p" using pL by blast+
  have at: "free_search s a p = Some p"
    using w(2) pa a(2,3) by (cases r) (subst free_search.simps, auto)+
  have up: "free_search s a q = Some p" if qL: "q \<in> set ?L" for q
  proof -
    obtain us vs where uv: "?L = us @ q # vs" using split_list [OF qL] by blast
    show ?thesis
    proof (cases vs rule: rev_cases)
      case Nil
      then show ?thesis using uv at by (simp add: p_def)
    next
      case (snoc qs z)
      then have z: "z = p" using uv by (simp add: p_def)
      have "walk (hptr s) q (qs @ [p])"
      proof (cases us)
        case Nil
        then show ?thesis using w(1) uv snoc z by simp
      next
        case (Cons u us')
        then have "map fst l = us' @ q # (qs @ [p])" using uv snoc z by simp
        then show ?thesis using w(1) by (simp add: walk_append)
      qed
      moreover have "sorted_wrt (<) (q # qs @ [p])" using srt unfolding uv snoc z by (simp add: sorted_wrt_append)
      ultimately show ?thesis by (rule search_up [OF _ _ pa(1) at])
    qed
  qed
  have "free_search s a q = Some p" if qR: "q \<in> set ?R"
  proof -
    obtain us vs where uv: "?R = us @ q # vs" using split_list [OF qR] by blast
    have "walk (hptr s) q (vs @ [?b])" using w(2) unfolding uv by (simp add: walk_append)
    moreover have "sorted_wrt (<) (q # vs)" using srt unfolding uv by (simp add: sorted_wrt_append)
    moreover have "a < q" using qR a(2) by auto
    ultimately show ?thesis using a(3) up [of ?b] by (intro search_round [of s q vs ?b a p]) simp_all
  qed
  then show ?thesis using q up by (auto simp: fl)
qed



section \<open>\<open>free\<close>\<close>

lemma walk_tail: "walk h p (R @ [b]) \<longleftrightarrow> h p = hd (R @ [b]) \<and> walk h (hd (R @ [b])) (tl (R @ [b]))"
  by (cases R) auto

lemma walk_tail_cong:
  assumes "walk h (hd (R @ [b])) (tl (R @ [b]))" "\<forall>x\<in>set R. h' x = h x"
  shows "walk h' (hd (R @ [b])) (tl (R @ [b]))"
proof (cases R)
  case (Cons x xs)
  have "walk h' x (xs @ [b])" by (rule walk_same [of x "xs @ [b]" h' h]) (use assms Cons in \<open>auto simp: butlast_append\<close>)
  then show ?thesis using Cons by simp
qed simp

text \<open>The list after the block \<open>(a, n)\<close>, with what is above it, has been put in behind its last node \<open>p\<close>.\<close>

lemma link_walk:
  assumes l: "walk h b L" and p: "p = last (b # L)" and R: "walk h (hd (R @ [b])) (tl (R @ [b]))"
    and dis: "distinct (b # L @ R)" "a \<notin> set (b # L @ R)" and h': "\<forall>x. x \<noteq> p \<longrightarrow> x \<noteq> a \<longrightarrow> h' x = h x"
  shows "h' p = a \<Longrightarrow> h' a = hd (R @ [b]) \<Longrightarrow> walk h' b (L @ a # R @ [b])"
    and "h' p = hd (R @ [b]) \<Longrightarrow> walk h' b (L @ R @ [b])"
proof -
  have "h' x = h x" if "x \<in> set (butlast (b # L))" for x
  proof -
    have e: "b # L = butlast (b # L) @ [p]" unfolding p by (rule append_butlast_last_id [symmetric]) simp
    have "distinct (butlast (b # L) @ [p])" unfolding e [symmetric] using dis(1) by simp
    then have "x \<noteq> p" using that by auto
    moreover have "x \<in> set (b # L)" using that by (rule in_set_butlastD)
    ultimately show ?thesis using h' dis(2) by auto
  qed
  then have L: "walk h' b L" using walk_same l by blast
  have pL: "p \<in> set (b # L)" unfolding p by (rule last_in_set) simp
  have "\<forall>x\<in>set R. h' x = h x" using h' dis pL by auto
  then have T: "walk h' (hd (R @ [b])) (tl (R @ [b]))" by (rule walk_tail_cong [OF R])
  show "walk h' b (L @ a # R @ [b])" if "h' p = a" "h' a = hd (R @ [b])"
  proof -
    have "walk h' a (R @ [b])" using T that(2) walk_tail by blast
    then show ?thesis unfolding walk_append [of h' b L] p [symmetric] using L that(1) by simp
  qed
  show "walk h' b (L @ R @ [b])" if "h' p = hd (R @ [b])"
  proof -
    have "walk h' p (R @ [b])" using T that walk_tail by blast
    then show ?thesis unfolding walk_append [of h' b L] p [symmetric] using L by simp
  qed
qed


lemma apart_join:
  "apart_blocks x (a, n) \<Longrightarrow> apart_blocks x (a + 16 * n, m) \<Longrightarrow> 0 < snd x \<Longrightarrow> 0 < n \<Longrightarrow> 0 < m \<Longrightarrow> apart_blocks x (a, n + m)"
  by (auto simp: apart_blocks_def)

lemma apart_fst: "apart_blocks x y \<Longrightarrow> 0 < snd x \<Longrightarrow> 0 < snd y \<Longrightarrow> fst x \<noteq> fst y"
  by (auto simp: apart_blocks_def)

lemma join_next_law:
  assumes inv: "heap_inv s (l @ r) (insert (a, n) A)" "(a, n) \<notin> A" and r: "\<forall>y\<in>set r. a + 16 * n \<le> fst y"
    and p: "p = last (hbase s # map fst l)"
  obtains n1 r1 where "join_next a p s = s\<lparr>hptr := (hptr s)(a := hd (map fst r1 @ [hbase s])), hsize := (hsize s)(a := n1)\<rparr>"
    "walk (hptr s) (hd (map fst r1 @ [hbase s])) (tl (map fst r1 @ [hbase s]))" "n \<le> n1" "a + 16 * n1 \<le> brk s"
    "spaced (a + 16 * n1 + 1) r1" "set r1 \<subseteq> set r" "\<forall>x\<in>A. apart_blocks x (a, n1)" "sorted_wrt (<) (map fst r1)"
proof -
  let ?b = "hbase s"
  note I = heap_invD [OF inv(1)]
  have a: "?b + 16 \<le> a" "0 < n" "a + 16 * n \<le> brk s" "hsize s a = n" using I(8) [of "(a, n)"] by (auto simp: inside_def)
  have A: "apart_blocks x (a, n)" "0 < snd x" if "x \<in> A" for x
    using I(10) [of x "(a, n)"] I(8) [of x] that inv(2) by (auto simp: inside_def)
  have w: "hptr s p = hd (map fst r @ [?b])" "walk (hptr s) (hd (map fst r @ [?b])) (tl (map fst r @ [?b]))"
    using I(5) walk_tail [of "hptr s" p "map fst r"] unfolding map_append append_assoc walk_append [of _ _ "map fst l"] p by auto
  have sp: "spaced (?b + 16) r" using I(7) by (rule spaced_suffix)
  note srt = spaced_sorted [OF sp]
  show ?thesis
  proof (cases "a + 16 * n = hptr s p")
    case True
    then obtain m r' where rr: "r = (a + 16 * n, m) # r'" using w(1) a by (cases r) auto
    have m: "0 < m" "a + 16 * n + 16 * m \<le> brk s" "hsize s (a + 16 * n) = m"
      using I(8) [of "(a + 16 * n, m)"] by (auto simp: inside_def rr)
    have hp: "hptr s (a + 16 * n) = hd (map fst r' @ [?b])" "walk (hptr s) (hd (map fst r' @ [?b])) (tl (map fst r' @ [?b]))"
      using w(2) walk_tail [of "hptr s" "a + 16 * n" "map fst r'"] by (auto simp: rr)
    have "n + m < 2 ^ 32" using m(2) I(3) a(1) by simp
    then have "join_next a p s = s\<lparr>hptr := (hptr s)(a := hd (map fst r' @ [?b])), hsize := (hsize s)(a := n + m)\<rparr>"
      using True [symmetric] a(4) m(3) hp(1) by (simp add: join_next_def)
    moreover have "\<forall>x\<in>A. apart_blocks x (a, n + m)" using A I(9) [of _ "(a + 16 * n, m)"] m a apart_join by (auto simp: rr)
    moreover have "spaced (a + 16 * (n + m) + 1) r'" using sp by (simp add: rr algebra_simps)
    ultimately show ?thesis using that [of "n + m" r'] hp m srt by (auto simp: rr algebra_simps)
  next
    case False
    then have "spaced (a + 16 * n + 1) r" using r sp w(1) by (cases r) auto
    moreover have "join_next a p s = s\<lparr>hptr := (hptr s)(a := hd (map fst r @ [?b])), hsize := (hsize s)(a := n)\<rparr>"
      using False a(4) w(1) by (simp add: join_next_def fun_upd_idem)
    ultimately show ?thesis using that [of n r] w A a srt by auto
  qed
qed


text \<open>A change of the headers of blocks that are not allocated keeps the allocated ones.\<close>

lemma inside_cong:
  "inside s x \<Longrightarrow> hbase s' = hbase s \<Longrightarrow> brk s \<le> brk s' \<Longrightarrow> hsize s' (fst x) = hsize s (fst x) \<Longrightarrow> inside s' x"
  by (auto simp: inside_def)

lemma heap_inv_put:
  assumes inv: "heap_inv s fl B" and sub: "A \<subseteq> B" "set l \<union> set r \<subseteq> set fl" and eq: "hbase s' = hbase s" "brk s' = brk s" "hsize s' (hbase s) = 0"
    and w: "walk (hptr s') (hbase s) (map fst l @ q # map fst r @ [hbase s])" and f: "freep s' \<in> insert (hbase s) (fst ` set (l @ (q, m) # r))"
    and q: "spaced (hbase s + 16) (l @ (q, m) # r)" "hsize s' q = m" "q + 16 * m \<le> brk s" "\<forall>x\<in>A. apart_blocks x (q, m)"
    and keep: "\<forall>x\<in>set l \<union> set r \<union> A. hsize s' (fst x) = hsize s (fst x)"
  shows "heap_inv s' (l @ (q, m) # r) A"
proof -
  note I = heap_invD [OF inv]
  have "inside s' x" if "x \<in> set l \<union> set r \<union> A" for x
    by (rule inside_cong [of s]) (use that I(8) [of x] sub eq keep in auto)
  moreover have "inside s' (q, m)" using q eq spaced_bound [OF q(1), of "(q, m)"] by (auto simp: inside_def spaced_append)
  ultimately have "\<forall>x\<in>set (l @ (q, m) # r) \<union> A. inside s' x" by auto
  moreover have "\<forall>x\<in>A. \<forall>y\<in>set (l @ (q, m) # r). apart_blocks x y"
  proof (intro ballI)
    fix x y assume "x \<in> A" "y \<in> set (l @ (q, m) # r)"
    then show "apart_blocks x y" using I(9) [of x y] sub q(4) by auto
  qed
  moreover have "\<forall>x\<in>A. \<forall>y\<in>A. x \<noteq> y \<longrightarrow> apart_blocks x y" using I(10) sub by blast
  ultimately show ?thesis using I(1-3) eq w f q(1) unfolding heap_inv_def by simp
qed

lemma free_at_law:
  assumes inv: "heap_inv s (l @ r) (insert (a, n) A)" "(a, n) \<notin> A"
    and l: "\<forall>y\<in>set l. fst y + 16 * snd y \<le> a" and r: "\<forall>y\<in>set r. a + 16 * n \<le> fst y" and p: "p = last (hbase s # map fst l)"
  obtains fl' where "heap_inv (free_at a p s) fl' A" "hbase (free_at a p s) = hbase s" "brk (free_at a p s) = brk s" "\<exists>y\<in>set fl'. n \<le> snd y"
proof -
  let ?b = "hbase s" and ?s = "free_at a p s"
  note I = heap_invD [OF inv(1)]
  have a: "?b + 16 \<le> a" "0 < n" using I(8) [of "(a, n)"] by (auto simp: inside_def)
  obtain n1 r1 where s1: "join_next a p s = s\<lparr>hptr := (hptr s)(a := hd (map fst r1 @ [?b])), hsize := (hsize s)(a := n1)\<rparr>"
    and w1: "walk (hptr s) (hd (map fst r1 @ [?b])) (tl (map fst r1 @ [?b]))" and n1: "n \<le> n1" "a + 16 * n1 \<le> brk s"
    and sp1: "spaced (a + 16 * n1 + 1) r1" "set r1 \<subseteq> set r" "\<forall>x\<in>A. apart_blocks x (a, n1)" "sorted_wrt (<) (map fst r1)"
    using join_next_law [OF inv r p] by blast
  have wl: "walk (hptr s) ?b (map fst l)" using I(5) by (simp add: walk_append)
  have pos: "0 < snd x" "?b < fst x" "inside s x" if "x \<in> set l \<union> set r \<union> A" for x using I(8) [of x] that by (auto simp: inside_def)
  have la: "fst y < a" if "y \<in> set l" for y using l pos [of y] that by fastforce
  have ra: "a < fst y" if "y \<in> set r1" for y using r a sp1(2) that by fastforce
  have Aa: "fst x \<noteq> a" if "x \<in> A" for x using apart_fst [of x "(a, n1)"] sp1(3) pos [of x] that n1 a by auto
  have na: "\<forall>x\<in>set l \<union> set r1 \<union> A. fst x \<noteq> a" using la ra Aa by blast
  have "sorted_wrt (<) (map fst l)" using spaced_sorted [OF I(7)] by (simp add: sorted_wrt_append)
  then have "distinct (map fst l)" "distinct (map fst r1)" using sp1(4) by (simp_all add: strict_sorted_iff)
  then have dis: "distinct (?b # map fst l @ map fst r1)" "a \<notin> set (?b # map fst l @ map fst r1)"
    using la ra pos a sp1(2) by (auto, fastforce+)
  have spl: "spaced (?b + 16) l" using I(7) by (simp add: spaced_append)
  have pl: "p \<in> set (?b # map fst l)" unfolding p by (rule last_in_set) simp
  then have pa: "p \<noteq> a" using dis(2) by auto
  note link = link_walk [OF wl p w1 dis]
  show ?thesis
  proof (cases "p + 16 * hsize s p = a")
    case True
    have "l \<noteq> []" using True p I(4) a by auto
    then obtain l' k where ll: "l = l' @ [(p, k)]" using p by (cases l rule: rev_cases) auto
    have k: "0 < k" "hsize s p = k" "?b + 16 \<le> p" using I(8) [of "(p, k)"] by (auto simp: ll inside_def)
    have kn: "k + n1 < 2 ^ 32" using True k n1 I(3) by simp
    then have s2: "?s = s\<lparr>hptr := (hptr s)(a := hd (map fst r1 @ [?b]), p := hd (map fst r1 @ [?b])), hsize := (hsize s)(a := n1, p := k + n1), freep := p\<rparr>"
      using True k pa by (simp add: free_at_def join_prev_def s1)
    have "walk (hptr ?s) ?b (map fst l @ map fst r1 @ [?b])" by (rule link(2)) (auto simp: s2)
    moreover have "apart_blocks x (p, k + n1)" if "x \<in> A" for x
      using apart_join [of x p k n1] I(9) [of x "(p, k)"] sp1(3) that True k n1 a pos by (auto simp: ll)
    then have "\<forall>x\<in>A. apart_blocks x (p, k + n1)" by blast
    moreover have "fst x \<noteq> p" if "x \<in> A" for x using apart_fst [of x "(p, k)"] I(9) [of x "(p, k)"] that k pos by (auto simp: ll)
    then have "\<forall>x\<in>set l' \<union> set r1 \<union> A. fst x \<noteq> p" using dis(1) by (auto simp: ll)
    moreover have "spaced (?b + 16) (l' @ (p, k + n1) # r1)" using spl sp1(1) True k n1 a by (auto simp: ll spaced_append algebra_simps)
    ultimately have "heap_inv ?s (l' @ (p, k + n1) # r1) A"
      using na a k n1 True I(4) sp1(2) by (intro heap_inv_put [OF inv(1)]) (simp_all add: s2 ll algebra_simps, blast+)
    then show ?thesis using n1 by (intro that) (auto simp: s2)
  next
    case False
    then have s2: "?s = s\<lparr>hptr := (hptr s)(a := hd (map fst r1 @ [?b]), p := a), hsize := (hsize s)(a := n1), freep := p\<rparr>"
      using pa by (simp add: free_at_def join_prev_def s1)
    have "walk (hptr ?s) ?b (map fst l @ a # map fst r1 @ [?b])" by (rule link(1)) (use pa in \<open>auto simp: s2\<close>)
    moreover have "spaced (?b + 16) (l @ (a, n1) # r1)"
    proof (cases l rule: rev_cases)
      case (snoc l' y)
      then have "hsize s (fst y) = snd y" "fst y + 16 * snd y \<le> a" using I(8) [of y] l by (auto simp: inside_def)
      then show ?thesis using False p snoc spl sp1(1) n1 a by (cases y) (auto simp: spaced_append)
    qed (use sp1(1) n1 a in auto)
    ultimately have "heap_inv ?s (l @ (a, n1) # r1) A"
      using na a n1 I(4) sp1(2,3) pl by (intro heap_inv_put [OF inv(1)]) (simp_all add: s2, blast+)
    then show ?thesis using n1 by (intro that) (auto simp: s2)
  qed
qed


lemma free_law:
  assumes inv: "heap_inv s fl (insert (a, n) A)" "(a, n) \<notin> A"
  obtains s' fl' where "free (a + 16) s = Some s'" "heap_inv s' fl' A" "hbase s' = hbase s" "brk s' = brk s" "\<exists>y\<in>set fl'. n \<le> snd y"
proof -
  note I = heap_invD [OF inv(1)]
  have a: "hbase s < a" "0 < n" using I(8) [of "(a, n)"] by (auto simp: inside_def)
  have "\<forall>y\<in>set fl. apart_blocks (a, n) y" using I(9) by blast
  then obtain l r where fl: "fl = l @ r" and lr: "\<forall>y\<in>set l. fst y + 16 * snd y \<le> a" "\<forall>y\<in>set r. a + 16 * n \<le> fst y"
    using split_free [OF I(7), of "(a, n)"] a(2) by auto
  have "\<forall>y\<in>set l. fst y < a" using lr(1) spaced_pos [OF I(7)] fl by fastforce
  moreover have "\<forall>y\<in>set r. a < fst y" using lr(2) a(2) by fastforce
  ultimately have "free_search s a (freep s) = Some (last (hbase s # map fst l))"
    by (rule free_search_law [OF inv(1) fl _ _ a(1) I(6)])
  then have "free (a + 16) s = Some (free_at a (last (hbase s # map fst l)) s)" by (simp add: free_def)
  then show ?thesis using free_at_law [OF inv(1) [unfolded fl] inv(2) lr refl] that by metis
qed

section \<open>\<open>malloc\<close>\<close>

lemma walk_next: "walk h x (R @ [c]) \<Longrightarrow> p \<in> set (x # R) \<Longrightarrow> h p \<in> set (R @ [c])"
  by (induction R arbitrary: x) auto

text \<open>In a circular list every node has one predecessor.\<close>

lemma walk_pred:
  "walk h b (L @ x # R @ [c]) \<Longrightarrow> distinct (b # L @ x # R) \<Longrightarrow> x \<noteq> c \<Longrightarrow> p \<in> set (b # L @ x # R) \<Longrightarrow> h p = x \<Longrightarrow> p = last (b # L)"
proof (induction L arbitrary: b)
  case Nil
  then show ?case using walk_next [of h x R c p] by auto
next
  case (Cons y L)
  then have "p \<noteq> b" by auto
  then have "p = last (y # L)" using Cons.prems by (intro Cons.IH) auto
  then show ?case by simp
qed

lemma apart_sub: "apart_blocks x (p, n) \<Longrightarrow> p \<le> q \<Longrightarrow> q + 16 * m \<le> p + 16 * n \<Longrightarrow> apart_blocks x (q, m) \<and> apart_blocks (q, m) x"
  by (auto simp: apart_blocks_def)

lemma spaced_apart: "spaced lo (l @ x # r) \<Longrightarrow> y \<in> set l \<union> set r \<Longrightarrow> apart_blocks y x"
proof (induction l arbitrary: lo)
  case Nil
  then show ?case using spaced_bound [of "fst x + 16 * snd x + 1" r y] by (cases x) (auto simp: apart_blocks_def)
next
  case (Cons z l)
  then show ?case using spaced_bound [of "fst z + 16 * snd z + 1" "l @ x # r" x] by (cases z) (auto simp: apart_blocks_def)
qed

lemma heap_inv_take:
  assumes inv: "heap_inv s (l @ (p, n) # r) A" and eq: "hbase s' = hbase s" "brk s' = brk s" "hsize s' (hbase s) = 0"
    and w: "walk (hptr s') (hbase s) (map fst fl' @ [hbase s])" "freep s' \<in> insert (hbase s) (fst ` set fl')" "spaced (hbase s + 16) fl'"
    and fl': "\<forall>y\<in>set fl'. y \<in> set l \<union> set r \<or> inside s' y \<and> fst y = p \<and> q = p + 16 * snd y"
    and q: "inside s' (q, m)" "p \<le> q" "q + 16 * m \<le> p + 16 * n" and keep: "\<forall>x\<in>set l \<union> set r \<union> A. hsize s' (fst x) = hsize s (fst x)"
  shows "heap_inv s' fl' (insert (q, m) A) \<and> (q, m) \<notin> A"
proof -
  note I = heap_invD [OF inv]
  have k: "inside s' x" if "x \<in> set l \<union> set r \<union> A" for x
    by (rule inside_cong [of s]) (use that I(8) [of x] eq keep in auto)
  have Aq: "apart_blocks x (q, m)" "apart_blocks (q, m) x" if "x \<in> set l \<union> set r \<union> A" for x
    using that I(9) [of x "(p, n)"] spaced_apart [OF I(7), of x] q apart_sub [of x p n q m] by auto
  have new: "(q, m) \<notin> A" using Aq [of "(q, m)"] q(1) by (auto simp: apart_blocks_def inside_def)
  have "\<forall>x\<in>set fl' \<union> insert (q, m) A. inside s' x" using k fl' q(1) by blast
  moreover have "apart_blocks x y" if "x \<in> insert (q, m) A" "y \<in> set fl'" for x y
  proof (cases "y \<in> set l \<union> set r")
    case True
    then show ?thesis using that Aq [of y] I(9) [of x y] by auto
  next
    case False
    then have y: "fst y = p" "q = p + 16 * snd y" using fl' that by blast+
    then show ?thesis using that I(9) [of x "(p, n)"] q apart_sub [of x p n "fst y" "snd y"] by (auto simp: apart_blocks_def)
  qed
  moreover have "apart_blocks x y" if "x \<in> insert (q, m) A" "y \<in> insert (q, m) A" "x \<noteq> y" for x y
    using that Aq [of x] Aq [of y] I(10) [of x y] by auto
  ultimately show ?thesis using I(1-3) eq w new unfolding heap_inv_def by simp
qed

lemma take_block_law:
  assumes inv: "heap_inv s (l @ (p, n) # r) A" and n: "0 < nu" "nu \<le> n"
  obtains q s' fl' where "take_block nu (last (hbase s # map fst l)) p s = (q + 16, s')" "(q, nu) \<notin> A" "heap_inv s' fl' (insert (q, nu) A)" "hbase s' = hbase s"
proof -
  let ?b = "hbase s" let ?v = "last (?b # map fst l)" and ?R = "map fst r @ [hbase s]"
  note I = heap_invD [OF inv]
  have p: "inside s (p, n)" using I(8) by simp
  have v: "?v \<in> set (?b # map fst l)" by (rule last_in_set) simp
  have A: "apart_blocks x (p, n)" "0 < snd x" if "x \<in> A" for x using I(8) [of x] I(9) [of x "(p, n)"] that by (auto simp: inside_def)
  have w: "walk (hptr s) ?b (map fst l)" "hptr s p = hd ?R" "walk (hptr s) (hd ?R) (tl ?R)"
    using I(5) walk_tail [of "hptr s" p "map fst r" ?b] by (auto simp: walk_append)
  have sp: "spaced (?b + 16) l" "spaced (p + 16 * n + 1) r" using I(7) by (simp_all add: spaced_append)
  show ?thesis
  proof (cases "n = nu")
    case True
    let ?s = "s\<lparr>hptr := (hptr s)(?v := hd ?R), freep := ?v\<rparr>"
    have dis: "distinct (?b # map fst l @ map fst r)" "p \<notin> set (?b # map fst l @ map fst r)" using heap_inv_distinct [OF inv] by auto
    have "walk (hptr ?s) ?b (map fst l @ ?R)" by (rule link_walk(2) [OF w(1) refl w(3) dis]) auto
    moreover have "spaced (?b + 16) (l @ r)"
      using I(7) sp by (auto simp: spaced_append intro: spaced_mono [of "p + 16 * n + 1" r])
    ultimately have "heap_inv ?s (l @ r) (insert (p, nu) A) \<and> (p, nu) \<notin> A"
      using I(4) p v True by (intro heap_inv_take [OF inv]) (auto simp: inside_def intro: rev_image_eqI)
    moreover have "take_block nu ?v p s = (p + 16, ?s)" using p True w(2) by (simp add: take_block_def inside_def)
    ultimately show ?thesis by (intro that [of p ?s "l @ r"]) simp_all
  next
    case False
    let ?q = "p + 16 * (n - nu)"
    let ?s = "s\<lparr>hsize := (hsize s)(p := n - nu, ?q := nu), freep := ?v\<rparr>"
    have ne: "fst x \<noteq> p \<and> fst x \<noteq> ?q" if "x \<in> set l \<union> set r \<union> A" for x
    proof -
      have "apart_blocks x (p, n)" "0 < snd x" using that A [of x] spaced_apart [OF I(7), of x] spaced_pos [OF I(7), of x] by auto
      then show ?thesis using n False by (auto simp: apart_blocks_def)
    qed
    have "spaced (?b + 16) (l @ (p, n - nu) # r)"
      using I(7) sp n False by (auto simp: spaced_append intro: spaced_mono [of "p + 16 * n + 1" r])
    then have "heap_inv ?s (l @ (p, n - nu) # r) (insert (?q, nu) A) \<and> (?q, nu) \<notin> A"
      using I(4,5) p v n False ne by (intro heap_inv_take [OF inv]) (auto simp: inside_def intro: rev_image_eqI)
    moreover have "take_block nu ?v p s = (?q + 16, ?s)" using p False by (simp add: take_block_def inside_def Let_def)
    ultimately show ?thesis by (intro that [of ?q ?s "l @ (p, n - nu) # r"]) simp_all
  qed
qed


text \<open>The loop of \<open>malloc\<close> goes to the first block that is large enough, or once around to \<open>freep\<close>.\<close>

lemma loop_find:
  "walk (hptr s) q (xs @ x # ys) \<Longrightarrow> \<forall>y\<in>set xs. hsize s y < nu \<and> y \<noteq> freep s \<Longrightarrow> nu \<le> hsize s x \<Longrightarrow>
   malloc_loop grant nu q (hptr s q) s = Some (take_block nu (last (q # xs)) x s)"
proof (induction xs arbitrary: q)
  case Nil
  then show ?case by (subst malloc_loop.simps) auto
next
  case (Cons y xs)
  then have "malloc_loop grant nu y (hptr s y) s = Some (take_block nu (last (y # xs)) x s)" "hptr s q = y" by auto
  moreover have "hsize s y < nu" "y \<noteq> freep s" using Cons.prems by auto
  ultimately show ?case by (subst malloc_loop.simps) simp
qed

lemma loop_lap:
  "walk (hptr s) q (xs @ [freep s]) \<Longrightarrow> \<forall>y\<in>set (xs @ [freep s]). hsize s y < nu \<Longrightarrow> freep s \<notin> set xs \<Longrightarrow>
   malloc_loop grant nu q (hptr s q) s = Option.bind (morecore grant nu s) (\<lambda>r.
     if fst r = 0 then Some (0, snd r) else malloc_loop grant nu (fst r) (hptr (snd r) (fst r)) (snd r))"
proof (induction xs arbitrary: q)
  case Nil
  then show ?case by (subst malloc_loop.simps) auto
next
  case (Cons y xs)
  then have "malloc_loop grant nu y (hptr s y) s = Option.bind (morecore grant nu s) (\<lambda>r.
     if fst r = 0 then Some (0, snd r) else malloc_loop grant nu (fst r) (hptr (snd r) (fst r)) (snd r))" "hptr s q = y" by auto
  moreover have "hsize s y < nu" "y \<noteq> freep s" using Cons.prems by auto
  ultimately show ?case by (subst malloc_loop.simps) simp
qed

text \<open>The nodes in the order from \<open>freep\<close> on.\<close>

lemma lap_nodes:
  assumes inv: "heap_inv s fl A"
  obtains xs where "walk (hptr s) (freep s) (xs @ [freep s])" "distinct (xs @ [freep s])" "set (xs @ [freep s]) = insert (hbase s) (fst ` set fl)"
proof -
  let ?b = "hbase s"
  note I = heap_invD [OF inv]
  note d = heap_inv_distinct [OF inv]
  have "freep s \<in> set (?b # map fst fl)" using I(6) by simp
  then obtain us vs where uv: "?b # map fst fl = us @ freep s # vs" using split_list by fast
  have S: "set (us @ freep s # vs) = insert ?b (fst ` set fl)" unfolding uv [symmetric] by simp
  show ?thesis
  proof (cases us)
    case Nil
    then show ?thesis using I(5) d S uv by (intro that [of vs]) auto
  next
    case (Cons u us')
    then have u: "u = ?b" "map fst fl = us' @ freep s # vs" using uv by auto
    have "walk (hptr s) (freep s) ((vs @ us) @ [freep s])" using I(5) by (simp add: u Cons walk_append)
    moreover have "distinct ((vs @ us) @ [freep s])" using d unfolding uv by auto
    moreover have "set ((vs @ us) @ [freep s]) = insert ?b (fst ` set fl)" using S by auto
    ultimately show ?thesis by (rule that)
  qed
qed


lemma find_law:
  assumes inv: "heap_inv s fl A" and big: "\<exists>y\<in>set fl. nu \<le> snd y" "0 < nu"
  obtains q s' fl' where "malloc_loop grant nu (freep s) (hptr s (freep s)) s = Some (q + 16, s')" "(q, nu) \<notin> A" "heap_inv s' fl' (insert (q, nu) A)"
    "hbase s' = hbase s"
proof -
  let ?b = "hbase s" and ?f = "freep s"
  note I = heap_invD [OF inv]
  obtain xs where xs: "walk (hptr s) ?f (xs @ [?f])" "distinct (xs @ [?f])" "set (xs @ [?f]) = insert ?b (fst ` set fl)"
    using lap_nodes [OF inv] by blast
  have sz: "hsize s (fst y) = snd y" if "y \<in> set fl" for y using I(8) [of y] that by (auto simp: inside_def)
  have "\<exists>x\<in>set (xs @ [?f]). nu \<le> hsize s x" unfolding xs(3) using big(1) sz by auto
  then obtain ys x zs where x: "xs @ [?f] = ys @ x # zs" "nu \<le> hsize s x" "\<forall>y\<in>set ys. \<not> nu \<le> hsize s y"
    using split_list_first_prop [of "xs @ [?f]" "\<lambda>x. nu \<le> hsize s x"] by blast
  have "?f = last (ys @ x # zs)" unfolding x(1) [symmetric] by simp
  then have "?f \<in> set (x # zs)" by (simp split: if_splits)
  then have "?f \<notin> set ys" using xs(2) unfolding x(1) by auto
  then have lf: "malloc_loop grant nu ?f (hptr s ?f) s = Some (take_block nu (last (?f # ys)) x s)"
    using x xs(1) by (intro loop_find [of s ?f ys x zs]) auto
  have "x \<noteq> ?b" using x(2) I(4) big(2) by auto
  moreover have xin: "x \<in> set (xs @ [?f])" unfolding x(1) by simp
  ultimately obtain y where y: "y \<in> set fl" "fst y = x" unfolding xs(3) by auto
  then obtain l r where lr: "fl = l @ y # r" using split_list by fast
  have "last (?f # ys) \<in> set (?f # ys)" by (rule last_in_set) simp
  moreover have "set ys \<subseteq> set (xs @ [?f])" unfolding x(1) by auto
  then have "set (?f # ys) \<subseteq> set (xs @ [?f])" by simp
  moreover have "set (xs @ [?f]) = set (?b # map fst l @ x # map fst r)" unfolding xs(3) using lr y(2) by auto
  ultimately have "last (?f # ys) \<in> set (?b # map fst l @ x # map fst r)" by blast
  moreover have "hptr s (last (?f # ys)) = x" using xs(1) unfolding x(1) by (simp add: walk_append)
  moreover have "distinct (?b # map fst l @ x # map fst r)" using heap_inv_distinct [OF inv] lr y(2) by simp
  ultimately have "last (?f # ys) = last (?b # map fst l)"
    using I(5) \<open>x \<noteq> ?b\<close> lr y(2) by (intro walk_pred [of "hptr s" ?b "map fst l" x "map fst r" ?b]) auto
  moreover have "nu \<le> snd y" using x(2) sz [OF y(1)] y(2) by simp
  then obtain q s' fl' where "take_block nu (last (?b # map fst l)) x s = (q + 16, s')" "(q, nu) \<notin> A" "heap_inv s' fl' (insert (q, nu) A)" "hbase s' = ?b"
    using take_block_law [of s l x "snd y" r A nu] inv [unfolded lr] big(2) y(2) by (metis prod.collapse)
  ultimately show ?thesis using lf that by simp
qed

lemma malloc_loop_law:
  assumes inv: "heap_inv s fl A" and g: "\<forall>b k. grant b k \<longrightarrow> b + k \<le> 2 ^ 36" and nu: "0 < nu"
  obtains (taken) q s' fl' where "malloc_loop grant nu (freep s) (hptr s (freep s)) s = Some (q + 16, s')" "(q, nu) \<notin> A"
      "heap_inv s' fl' (insert (q, nu) A)" "hbase s' = hbase s"
  | (refused) "malloc_loop grant nu (freep s) (hptr s (freep s)) s = Some (0, s)" "\<forall>y\<in>set fl. snd y < nu" "\<not> grant (brk s) (max 4096 nu * 16)"
proof (cases "\<exists>y\<in>set fl. nu \<le> snd y")
  case True
  then show ?thesis using find_law [OF inv True nu] taken by metis
next
  case False
  note I = heap_invD [OF inv]
  obtain xs where xs: "walk (hptr s) (freep s) (xs @ [freep s])" "distinct (xs @ [freep s])" "set (xs @ [freep s]) = insert (hbase s) (fst ` set fl)"
    using lap_nodes [OF inv] by blast
  have "hsize s (fst y) < nu" if "y \<in> set fl" for y using I(8) [of y] that False by (auto simp: inside_def)
  then have "\<forall>y\<in>set (xs @ [freep s]). hsize s y < nu" unfolding xs(3) using I(4) nu by auto
  note lap = loop_lap [OF xs(1) this, of grant]
  let ?k = "max 4096 nu" let ?s = "s\<lparr>brk := brk s + ?k * 16, hsize := (hsize s)(brk s := ?k)\<rparr>"
  have mx: "(if nu < 4096 then 4096 else nu) = ?k" by simp
  show ?thesis
  proof (cases "grant (brk s) (?k * 16)")
    case gr: True
    have below: "fst x < brk s" "inside s x" if "x \<in> set fl \<union> A" for x using I(8) [of x] that by (auto simp: inside_def)
    have "inside ?s x" if "x \<in> set fl \<union> A" for x using below [OF that] by (auto simp: inside_def)
    moreover have ap: "apart_blocks x (brk s, ?k)" "apart_blocks (brk s, ?k) x" if "x \<in> set fl \<union> A" for x using below [OF that] by (auto simp: inside_def apart_blocks_def)
    moreover have "brk s + ?k * 16 \<le> 2 ^ 36" using g gr by blast
    ultimately have "heap_inv ?s fl (insert (brk s, ?k) A)" using inv nu unfolding heap_inv_def by (auto simp: inside_def)
    moreover have "(brk s, ?k) \<notin> A" using below(1) [of "(brk s, ?k)"] by auto
    ultimately obtain s' fl' where s': "free (brk s + 16) ?s = Some s'" "heap_inv s' fl' A" "hbase s' = hbase s" "\<exists>y\<in>set fl'. ?k \<le> snd y"
      by (rule free_law) auto
    have f0: "freep s' \<noteq> 0" using heap_invD(1,6,8) [OF s'(2)] by (fastforce simp: inside_def)
    have "morecore grant nu s = Some (freep s', s')" using gr s'(1) unfolding morecore_def mx by (simp add: Let_def)
    then have "malloc_loop grant nu (freep s) (hptr s (freep s)) s = malloc_loop grant nu (freep s') (hptr s' (freep s')) s'"
      using lap xs(2) f0 by simp
    moreover have "\<exists>y\<in>set fl'. nu \<le> snd y" using s'(4) by auto
    ultimately show ?thesis using find_law [OF s'(2) _ nu, of grant] s'(3) taken by metis
  next
    case no: False
    then have "morecore grant nu s = Some (0, s)" unfolding morecore_def mx by (simp add: Let_def)
    then show ?thesis using lap xs(2) False no by (intro refused) auto
  qed
qed


section \<open>A process and its heap\<close>

text \<open>
  What a process does: it allocates, frees what it holds, stores anything at addresses behind the header of a block that it holds,
  and may grow its own memory. \<open>A\<close> is the set of the blocks it holds.
\<close>

inductive heap_reach :: "(nat \<Rightarrow> nat \<Rightarrow> bool) \<Rightarrow> um_st \<Rightarrow> ublock set \<Rightarrow> bool" for grant where
  start: "freep s = 0 \<Longrightarrow> 0 < hbase s \<Longrightarrow> hbase s + 16 \<le> brk s \<Longrightarrow> brk s \<le> 2 ^ 36 \<Longrightarrow> heap_reach grant s {}"
| alloc: "heap_reach grant s A \<Longrightarrow> malloc grant nbytes s = Some (r, s') \<Longrightarrow> r \<noteq> 0 \<Longrightarrow> heap_reach grant s' (insert (r - 16, units nbytes) A)"
| refuse: "heap_reach grant s A \<Longrightarrow> malloc grant nbytes s = Some (0, s') \<Longrightarrow> heap_reach grant s' A"
| release: "heap_reach grant s A \<Longrightarrow> (a, n) \<in> A \<Longrightarrow> free (a + 16) s = Some s' \<Longrightarrow> heap_reach grant s' (A - {(a, n)})"
| store: "heap_reach grant s A \<Longrightarrow> (a, n) \<in> A \<Longrightarrow> a < x \<Longrightarrow> x < a + 16 * n \<Longrightarrow>
    heap_reach grant (s\<lparr>hptr := (hptr s)(x := v), hsize := (hsize s)(x := w)\<rparr>) A"
| grow: "heap_reach grant s A \<Longrightarrow> grant (brk s) k \<Longrightarrow> heap_reach grant (s\<lparr>brk := brk s + k\<rparr>) A"

definition fresh_heap :: "um_st \<Rightarrow> bool" where
  "fresh_heap s \<longleftrightarrow> freep s = 0 \<and> 0 < hbase s \<and> hbase s + 16 \<le> brk s \<and> brk s \<le> 2 ^ 36"

definition heap_ok :: "um_st \<Rightarrow> ublock set \<Rightarrow> bool" where
  "heap_ok s A \<longleftrightarrow> fresh_heap s \<and> A = {} \<or> (\<exists>fl. heap_inv s fl A)"

lemma units_pos [simp]: "0 < units n" by (simp add: units_def)

lemma malloc_law:
  assumes ok: "heap_ok s A" and g: "\<forall>b k. grant b k \<longrightarrow> b + k \<le> 2 ^ 36"
  obtains (taken) q s' where "malloc grant nbytes s = Some (q + 16, s')" "(q, units nbytes) \<notin> A" "heap_ok s' (insert (q, units nbytes) A)"
      "inside s' (q, units nbytes)" "\<forall>x\<in>A. apart_blocks x (q, units nbytes)" "hbase s' = hbase s"
  | (refused) s' where "malloc grant nbytes s = Some (0, s')" "heap_ok s' A" "\<not> grant (brk s) (max 4096 (units nbytes) * 16)"
proof -
  let ?s = "if freep s = 0 then s\<lparr>hptr := (hptr s)(hbase s := hbase s), freep := hbase s, hsize := (hsize s)(hbase s := 0)\<rparr> else s"
  have m: "malloc grant nbytes s = malloc_loop grant (units nbytes) (freep ?s) (hptr ?s (freep ?s)) ?s"
    by (simp add: malloc_def)
  have "\<exists>fl. heap_inv ?s fl A"
  proof (cases "fresh_heap s \<and> A = {}")
    case True
    then have "heap_inv ?s [] A" by (auto simp: fresh_heap_def heap_inv_def)
    then show ?thesis by blast
  next
    case False
    then obtain fl where inv: "heap_inv s fl A" using ok by (auto simp: heap_ok_def)
    then have "freep s \<noteq> 0" using heap_invD(1,6,8) [OF inv] by (fastforce simp: inside_def)
    then show ?thesis using inv by auto
  qed
  then obtain fl where inv: "heap_inv ?s fl A" by blast
  have e: "hbase ?s = hbase s" "brk ?s = brk s" by auto
  show ?thesis
  proof (cases rule: malloc_loop_law [OF inv g units_pos, of nbytes])
    case (1 q s' fl')
    then have "apart_blocks x (q, units nbytes)" if "x \<in> A" for x using heap_invD(10) [OF 1(3), of x "(q, units nbytes)"] that by auto
    then show ?thesis using 1 heap_invD(8) [OF 1(3), of "(q, units nbytes)"] e m by (intro taken [of q s']) (auto simp: heap_ok_def)
  next
    case 2
    then show ?thesis using inv e m by (intro refused [of ?s]) (auto simp: heap_ok_def)
  qed
qed

lemma free_ok:
  assumes "heap_ok s A" "(a, n) \<in> A"
  obtains s' where "free (a + 16) s = Some s'" "heap_ok s' (A - {(a, n)})"
proof -
  obtain fl where "heap_inv s fl A" using assms by (auto simp: heap_ok_def)
  then have "heap_inv s fl (insert (a, n) (A - {(a, n)}))" using assms(2) by (simp add: insert_absorb)
  then show ?thesis using free_law [of s fl a n "A - {(a, n)}"] that by (auto simp: heap_ok_def)
qed


lemma store_ok:
  assumes "heap_ok s A" "(a, n) \<in> A" "a < x" "x < a + 16 * n"
  shows "heap_ok (s\<lparr>hptr := (hptr s)(x := v), hsize := (hsize s)(x := w)\<rparr>) A" (is "heap_ok ?s A")
proof -
  obtain fl where inv: "heap_inv s fl A" using assms(1,2) by (auto simp: heap_ok_def)
  note I = heap_invD [OF inv]
  have a: "inside s (a, n)" using I(8) assms(2) by auto
  have ne: "\<forall>y\<in>set fl \<union> A. fst y \<noteq> x"
  proof
    fix y assume y: "y \<in> set fl \<union> A"
    show "fst y \<noteq> x"
    proof (cases "y = (a, n)")
      case False
      then have "apart_blocks (a, n) y" using y I(9,10) assms(2) by blast
      then show ?thesis using assms(3,4) I(8) [OF y] by (auto simp: apart_blocks_def inside_def)
    qed (use assms in auto)
  qed
  have b: "x \<noteq> hbase s" using a assms(3) by (auto simp: inside_def)
  have "walk (hptr ?s) (hbase s) (map fst fl @ [hbase s])"
    by (rule walk_same [OF _ I(5)]) (use ne b in \<open>auto simp: butlast_append\<close>)
  moreover have "\<forall>y\<in>set fl \<union> A. inside ?s y" using I(8) ne by (auto simp: inside_def)
  ultimately have "heap_inv ?s fl A" using inv b unfolding heap_inv_def by simp
  then show ?thesis by (auto simp: heap_ok_def)
qed

lemma grow_ok:
  assumes "heap_ok s A" "brk s + k \<le> 2 ^ 36"
  shows "heap_ok (s\<lparr>brk := brk s + k\<rparr>) A"
proof (cases "fresh_heap s \<and> A = {}")
  case False
  then obtain fl where inv: "heap_inv s fl A" using assms(1) by (auto simp: heap_ok_def)
  then have "\<forall>x\<in>set fl \<union> A. inside (s\<lparr>brk := brk s + k\<rparr>) x" using heap_invD(8) [OF inv] by (auto intro: inside_cong [of s])
  then have "heap_inv (s\<lparr>brk := brk s + k\<rparr>) fl A" using inv assms(2) unfolding heap_inv_def by simp
  then show ?thesis by (auto simp: heap_ok_def)
qed (use assms(2) in \<open>auto simp: heap_ok_def fresh_heap_def\<close>)

lemma heap_reach_ok:
  assumes g: "\<forall>b k. grant b k \<longrightarrow> b + k \<le> 2 ^ 36" and r: "heap_reach grant s A"
  shows "heap_ok s A"
  using r
proof induction
  case (alloc s A nbytes r s')
  show ?case by (cases rule: malloc_law [OF alloc.IH g, of nbytes]) (use alloc.hyps in auto)
next
  case (refuse s A nbytes s')
  show ?case by (cases rule: malloc_law [OF refuse.IH g, of nbytes]) (use refuse.hyps in auto)
next
  case (release s A a n s')
  then show ?case using free_ok by (metis option.inject)
next
  case (grow s A k)
  then show ?case using grow_ok g by blast
next
  case (store s A a n x v w)
  then show ?case using store_ok by blast
qed (simp add: heap_ok_def fresh_heap_def)

lemma units_bytes: "nbytes + 16 \<le> 16 * units nbytes"
  using div_mult_mod_eq [of "nbytes + 15" 16] mod_less_divisor [of 16 "nbytes + 15"] by (simp add: units_def)

text \<open>
  C37. However a process allocates, frees what it holds and writes inside its blocks: \<open>malloc\<close> returns, and it fails only when the
  kernel refuses more memory; the memory it returns has room for the bytes that were asked for, lies between the header of the heap
  and the break, and overlaps no block that is held and no header of such a block; and \<open>free\<close> returns for every block that is held.
\<close>

theorem malloc_sound:
  assumes "\<forall>b k. grant b k \<longrightarrow> b + k \<le> 2 ^ 36" "heap_reach grant s A"
  shows "(\<exists>r s'. malloc grant nbytes s = Some (r, s') \<and>
      (if r = 0 then \<not> grant (brk s) (max 4096 (units nbytes) * 16)
       else hbase s + 32 \<le> r \<and> r + nbytes \<le> brk s' \<and> (\<forall>x\<in>A. r + nbytes \<le> fst x \<or> fst x + 16 * snd x \<le> r - 16))) \<and>
    (\<forall>x\<in>A. \<exists>s'. free (fst x + 16) s = Some s')"
proof (rule conjI)
  have ok: "heap_ok s A" using assms by (rule heap_reach_ok)
  show "\<forall>x\<in>A. \<exists>s'. free (fst x + 16) s = Some s'" using free_ok [OF ok] by (metis prod.collapse)
  show "\<exists>r s'. malloc grant nbytes s = Some (r, s') \<and>
    (if r = 0 then \<not> grant (brk s) (max 4096 (units nbytes) * 16)
     else hbase s + 32 \<le> r \<and> r + nbytes \<le> brk s' \<and> (\<forall>x\<in>A. r + nbytes \<le> fst x \<or> fst x + 16 * snd x \<le> r - 16))"
  proof (cases rule: malloc_law [OF ok assms(1), of nbytes])
    case (1 q s')
    have "\<forall>x\<in>A. q + 16 + nbytes \<le> fst x \<or> fst x + 16 * snd x \<le> q"
      using 1(5) units_bytes [of nbytes] by (fastforce simp: apart_blocks_def)
    then show ?thesis using 1(1,4,6) units_bytes [of nbytes] by (auto simp: inside_def)
  next
    case (2 s')
    then show ?thesis by auto
  qed
qed


definition heap0 :: um_st where
  "heap0 = \<lparr>hptr = \<lambda>_. 0, hsize = \<lambda>_. 0, hbase = 4096, freep = 0, brk = 8192\<rparr>"

definition heap1 :: um_st where
  "heap1 = \<lparr>hptr = (\<lambda>_. 0)(4096 := 8192, 8192 := 4096), hsize = (\<lambda>_. 0)(4096 := 0, 8192 := 4088, 73600 := 8), hbase = 4096, freep = 4096, brk = 73728\<rparr>"

definition small_machine :: "nat \<Rightarrow> nat \<Rightarrow> bool" where
  "small_machine b k \<longleftrightarrow> b + k \<le> 2 ^ 27"

lemma malloc_example: "malloc small_machine 100 heap0 = Some (73616, heap1)"
proof -
  let ?s = "\<lparr>hptr = (\<lambda>_. 0)(4096 := 8192, 8192 := 4096), hsize = (\<lambda>_. 0)(4096 := 0, 8192 := 4096), hbase = 4096, freep = 4096, brk = 73728\<rparr>"
  have "morecore small_machine 8 (heap0\<lparr>hptr := (hptr heap0)(4096 := 4096), freep := 4096, hsize := (hsize heap0)(4096 := 0)\<rparr>) = Some (4096, ?s)"
    by (simp add: morecore_def small_machine_def heap0_def free_def free_search.simps free_at_def join_next_def join_prev_def fun_upd_twist)
  moreover have "malloc_loop small_machine 8 4096 8192 ?s = Some (73616, heap1)"
    by (subst malloc_loop.simps) (simp add: take_block_def heap1_def Let_def fun_upd_twist)
  ultimately show ?thesis
    by (simp add: malloc_def units_def heap0_def) (subst malloc_loop.simps, simp add: heap0_def)
qed

theorem malloc_sound_witness:
  "heap_reach small_machine heap1 {(73600, 8)} \<and>
   (\<exists>r s'. malloc small_machine 24 heap1 = Some (r, s') \<and>
      (if r = 0 then \<not> small_machine (brk heap1) (max 4096 (units 24) * 16)
       else hbase heap1 + 32 \<le> r \<and> r + 24 \<le> brk s' \<and> (r + 24 \<le> 73600 \<or> 73728 \<le> r - 16))) \<and>
    (\<exists>s'. free 73616 heap1 = Some s')"
proof -
  have "heap_reach small_machine heap0 {}" by (rule heap_reach.start) (simp_all add: heap0_def)
  then have "heap_reach small_machine heap1 (insert (73616 - 16, units 100) {})" by (rule heap_reach.alloc [OF _ malloc_example]) simp
  then have r: "heap_reach small_machine heap1 {(73600, 8)}" by (simp add: units_def)
  have g: "\<forall>b k. small_machine b k \<longrightarrow> b + k \<le> 2 ^ 36" by (simp add: small_machine_def)
  note sound = malloc_sound [OF g r, of 24]
  obtain q t where "malloc small_machine 24 heap1 = Some (q, t)"
    "if q = 0 then \<not> small_machine (brk heap1) (max 4096 (units 24) * 16)
     else hbase heap1 + 32 \<le> q \<and> q + 24 \<le> brk t \<and> (\<forall>x\<in>{(73600, 8)}. q + 24 \<le> fst x \<or> fst x + 16 * snd x \<le> q - 16)"
    using sound by blast
  then have "\<exists>r s'. malloc small_machine 24 heap1 = Some (r, s') \<and>
    (if r = 0 then \<not> small_machine (brk heap1) (max 4096 (units 24) * 16)
     else hbase heap1 + 32 \<le> r \<and> r + 24 \<le> brk s' \<and> (r + 24 \<le> 73600 \<or> 73728 \<le> r - 16))"
    by (intro exI [of _ q] exI [of _ t]) (simp split: if_splits)
  moreover have "\<exists>s'. free 73616 heap1 = Some s'" using sound by simp
  ultimately show ?thesis using r by blast
qed


end
