(* ===== verification/File.thy ===== *)
theory File
  imports Fs
begin

text \<open>
  Open files, src/file.c, and \<open>pipealloc\<close> of src/pipe.c, which allocates from the same table. A
  pointer to a file is an index into \<open>ftable\<close>. The page of a new pipe comes from \<open>kalloc\<close>; its
  contents are the \<open>pipes\<close> of theory \<open>Pipe\<close>.
\<close>

section \<open>Model\<close>

datatype ftype = FD_NONE | FD_PIPE | FD_INODE

record ofile =
  f_type :: ftype
  f_ref :: int
  f_readable :: bool
  f_writable :: bool
  f_pipe :: addr
  f_ip :: nat
  f_off :: nat

record file_st = cons_st +
  ftable :: "ofile list"

definition get_file :: "nat \<Rightarrow> ('z file_st_scheme, ofile) kop" where
  "get_file f = gets (\<lambda>s. ftable s ! f)"

definition upd_file :: "nat \<Rightarrow> (ofile \<Rightarrow> ofile) \<Rightarrow> ('z file_st_scheme, unit) kop" where
  "upd_file f g = modify (\<lambda>s. s\<lparr>ftable := (ftable s)[f := g (ftable s ! f)]\<rparr>)"

definition filealloc :: "('z file_st_scheme, nat option) kop" where
  "filealloc = thn (acquire LkFtable) (bnd (gets ftable) (\<lambda>ft.
     case find (\<lambda>f. f_ref (ft ! f) = 0) [0..<NFILE] of
       Some f \<Rightarrow> thn (upd_file f (\<lambda>x. x\<lparr>f_ref := 1\<rparr>)) (thn (release LkFtable) (ret (Some f)))
     | None \<Rightarrow> thn (release LkFtable) (ret None)))"

definition filedup :: "nat \<Rightarrow> ('z file_st_scheme, nat) kop" where
  "filedup f = thn (acquire LkFtable) (bnd (get_file f) (\<lambda>x. thn (steps
     [panic_if (f_ref x < 1) ''filedup'', upd_file f (\<lambda>x. x\<lparr>f_ref := f_ref x + 1\<rparr>), release LkFtable]) (ret f)))"

definition fileclose :: "nat \<Rightarrow> ('z file_st_scheme, unit) kop" where
  "fileclose f = thn (acquire LkFtable) (bnd (get_file f) (\<lambda>ff.
     thn (panic_if (f_ref ff < 1) ''fileclose'')
     (thn (upd_file f (\<lambda>x. x\<lparr>f_ref := f_ref x - 1\<rparr>))
     (if f_ref ff - 1 > 0 then release LkFtable
      else steps [upd_file f (\<lambda>x. x\<lparr>f_ref := 0, f_type := FD_NONE\<rparr>), release LkFtable,
        (case f_type ff of
           FD_PIPE \<Rightarrow> pipeclose (f_pipe ff) (f_writable ff)
         | FD_INODE \<Rightarrow> steps [begin_op, iput (f_ip ff), end_op]
         | FD_NONE \<Rightarrow> ret ())]))))"

text \<open>\<open>None\<close> is the value -1.\<close>

definition filestat :: "nat \<Rightarrow> ('z file_st_scheme, stat option) kop" where
  "filestat f = bnd (get_file f) (\<lambda>x.
     if f_type x = FD_INODE then thn (ilock (Some (f_ip x))) (bnd (stati (f_ip x)) (\<lambda>st.
       thn (iunlock (Some (f_ip x))) (ret (Some st))))
     else ret None)"

definition fileread :: "nat \<Rightarrow> int \<Rightarrow> ('z file_st_scheme, int \<times> byte list) kop" where
  "fileread f n = bnd (get_file f) (\<lambda>x.
     if \<not> f_readable x then ret (- 1, [])
     else case f_type x of
       FD_PIPE \<Rightarrow> bnd (piperead (f_pipe x) (nat n)) (\<lambda>r. case r of
         None \<Rightarrow> ret (- 1, []) | Some bs \<Rightarrow> ret (int (length bs), bs))
     | FD_INODE \<Rightarrow> thn (ilock (Some (f_ip x))) (bnd (readi (f_ip x) (f_off x) (nat (n mod 2 ^ 32))) (\<lambda>(r, bs).
         thn (only_if (r > 0) (upd_file f (\<lambda>x. x\<lparr>f_off := (f_off x + nat r) mod 2 ^ 32\<rparr>)))
         (thn (iunlock (Some (f_ip x))) (ret (r, bs)))))
     | FD_NONE \<Rightarrow> panic ''fileread'')"

text \<open>The loop of \<open>filewrite\<close> on the bytes not written yet; it returns whether they all were.\<close>

abbreviation (input) max_write :: nat where "max_write \<equiv> (LOGSIZE - 1 - 1 - 2) div 2 * 512"

function filewrite_loop :: "nat \<Rightarrow> byte list \<Rightarrow> ('z file_st_scheme, bool) kop" where
  "filewrite_loop f bs = (if bs = [] then ret True
     else let n1 = min (length bs) max_write in
       thn begin_op (bnd (get_file f) (\<lambda>x. thn (ilock (Some (f_ip x)))
       (bnd (writei (f_ip x) (take n1 bs) (f_off x)) (\<lambda>r.
       thn (only_if (r > 0) (upd_file f (\<lambda>x. x\<lparr>f_off := (f_off x + nat r) mod 2 ^ 32\<rparr>)))
       (thn (iunlock (Some (f_ip x))) (thn end_op
       (if r < 0 then ret False
        else thn (panic_if (r \<noteq> int n1) ''short filewrite'') (filewrite_loop f (drop n1 bs))))))))))"
  by pat_completeness auto

termination filewrite_loop
  by (relation "measure (\<lambda>(f, bs). length bs)") auto

declare filewrite_loop.simps [simp del]

definition filewrite :: "nat \<Rightarrow> byte list \<Rightarrow> ('z file_st_scheme, int) kop" where
  "filewrite f bs = bnd (get_file f) (\<lambda>x.
     if \<not> f_writable x then ret (- 1)
     else case f_type x of
       FD_PIPE \<Rightarrow> pipewrite (f_pipe x) bs
     | FD_INODE \<Rightarrow> bnd (filewrite_loop f bs) (\<lambda>ok. ret (if ok then int (length bs) else - 1))
     | FD_NONE \<Rightarrow> panic ''filewrite'')"

text \<open>\<open>pipealloc\<close>: the read end and the write end, or \<open>None\<close> for -1. The data of a new pipe is that of its page.\<close>

definition pipealloc :: "('z file_st_scheme, (nat \<times> nat) option) kop" where
  "pipealloc = bnd filealloc (\<lambda>f0. case f0 of None \<Rightarrow> ret None | Some f0 \<Rightarrow>
     bnd filealloc (\<lambda>f1. case f1 of None \<Rightarrow> thn (fileclose f0) (ret None) | Some f1 \<Rightarrow>
     bnd kalloc (\<lambda>p.
       if p = 0 then thn (fileclose f0) (thn (fileclose f1) (ret None))
       else thn (steps
         [modify (\<lambda>s. s\<lparr>pipes := (pipes s)(p \<mapsto> \<lparr>pi_data = mread (mem s) (p + 104) PIPESIZE, pi_nread = 0, pi_nwrite = 0,
            pi_readopen = True, pi_writeopen = True\<rparr>)\<rparr>),
          upd_file f0 (\<lambda>x. x\<lparr>f_type := FD_PIPE, f_readable := True, f_writable := False, f_pipe := p\<rparr>),
          upd_file f1 (\<lambda>x. x\<lparr>f_type := FD_PIPE, f_readable := False, f_writable := True, f_pipe := p\<rparr>)])
         (ret (Some (f0, f1))))))"

end
