(* ===== verification/Proc.thy ===== *)
theory Proc
  imports File
begin

text \<open>
  Processes, the part of src/proc.c that allocates memory, files and inodes: \<open>allocproc\<close>,
  \<open>userinit\<close>, \<open>growproc\<close>, \<open>fork\<close>, \<open>exit\<close>, \<open>wait\<close>, the scheduler and \<open>forkret\<close>. The trap frame and the
  context of a process are in kernel memory, at the top of its kernel stack; the addresses of
  \<open>syscall_trapret\<close> and \<open>forkret\<close> that are stored there are fields of the state, as is the
  counter of clock ticks of src/trap.c.
\<close>

section \<open>Model\<close>

record proc_st = file_st +
  sym_trapret :: addr
  sym_forkret :: addr
  ticks :: uint32
  first :: bool
  skipped :: nat
  halted :: bool
  cpu_id :: nat

text \<open>The fields of \<open>struct trapframe\<close> of src/x86.h, and of \<open>struct context\<close>, by their offsets.\<close>

abbreviation (input) TF_rax :: addr where "TF_rax \<equiv> 0"
abbreviation (input) TF_rcx :: addr where "TF_rcx \<equiv> 16"
abbreviation (input) TF_rdx :: addr where "TF_rdx \<equiv> 24"
abbreviation (input) TF_rsi :: addr where "TF_rsi \<equiv> 40"
abbreviation (input) TF_rdi :: addr where "TF_rdi \<equiv> 48"
abbreviation (input) TF_r8 :: addr where "TF_r8 \<equiv> 56"
abbreviation (input) TF_r9 :: addr where "TF_r9 \<equiv> 64"
abbreviation (input) TF_r10 :: addr where "TF_r10 \<equiv> 72"
abbreviation (input) TF_r11 :: addr where "TF_r11 \<equiv> 80"
abbreviation (input) TF_rip :: addr where "TF_rip \<equiv> 136"
abbreviation (input) TF_rsp :: addr where "TF_rsp \<equiv> 160"
abbreviation (input) TF_size :: nat where "TF_size \<equiv> 176"

definition safestrcpy_list :: "nat \<Rightarrow> byte list \<Rightarrow> byte list \<Rightarrow> byte list" where
  "safestrcpy_list n t s = put_at 0 (takeWhile (\<lambda>c. c \<noteq> 0) (take (n - 1) t) @ [0]) s"

definition get_proc :: "nat \<Rightarrow> ('z pt_st_scheme, proc) kop" where
  "get_proc p = gets (\<lambda>s. procs s ! p)"

definition allocproc :: "('z proc_st_scheme, nat option) kop" where
  "allocproc = thn (acquire LkPtable) (bnd (gets procs) (\<lambda>ps.
     case find_index (\<lambda>p. p_state p = UNUSED) ps of
       None \<Rightarrow> thn (release LkPtable) (ret None)
     | Some p \<Rightarrow> thn (steps
         [bnd (gets nextpid) (\<lambda>n. upd_proc p (\<lambda>q. q\<lparr>p_state := EMBRYO, p_pid := n\<rparr>)),
          modify (\<lambda>s. s\<lparr>nextpid := nextpid s + 1\<rparr>), release LkPtable])
         (bnd kalloc (\<lambda>k. thn (upd_proc p (\<lambda>q. q\<lparr>p_kstack := k\<rparr>))
           (if k = 0 then thn (upd_proc p (\<lambda>q. q\<lparr>p_state := UNUSED\<rparr>)) (ret None)
            else let tf = k + of_nat KSTACKSIZE - of_nat TF_size; cx = tf - 8 - 56 in
              thn (upd_proc p (\<lambda>q. q\<lparr>p_tf := tf\<rparr>)) (bnd (gets id) (\<lambda>s. thn (steps
                [set64 (tf - 8) (sym_trapret s),
                 upd_proc p (\<lambda>q. q\<lparr>p_context := cx\<rparr>),
                 modify (\<lambda>s. s\<lparr>mem := memset cx 0 56 (mem s)\<rparr>),
                 set64 (cx + 48) (sym_forkret s)]) (ret (Some p)))))))))"

text \<open>The first process, from the program of \<open>sz\<close> bytes at \<open>initcode\<close> in the kernel's image.\<close>

definition userinit :: "addr \<Rightarrow> uint32 \<Rightarrow> ('z proc_st_scheme, unit) kop" where
  "userinit initcode sz = bnd allocproc (\<lambda>p. case p of None \<Rightarrow> panic ''trap'' | Some p \<Rightarrow>
     thn (modify (\<lambda>s. s\<lparr>initproc := p\<rparr>)) (bnd setupkvm (\<lambda>d. thn (upd_proc p (\<lambda>q. q\<lparr>p_pgdir := d\<rparr>))
     (thn (panic_if (d = 0) ''userinit: out of memory?'')
     (thn (inituvm d initcode sz)
     (thn (upd_proc p (\<lambda>q. q\<lparr>p_sz := PGSIZE * 2\<rparr>))
     (bnd (get_proc p) (\<lambda>q. thn (steps
       [modify (\<lambda>s. s\<lparr>mem := memset (p_tf q) 0 (of_nat TF_size) (mem s)\<rparr>),
        set64 (p_tf q + TF_r11) 0x200,
        set64 (p_tf q + TF_rsp) (PGSIZE * 2),
        set64 (p_tf q + TF_rcx) PGSIZE,
        upd_proc p (\<lambda>q. q\<lparr>p_name := safestrcpy_list 16 (map of_char ''initcode'') (p_name q)\<rparr>)])
       (bnd (namei [slash]) (\<lambda>d. thn (upd_proc p (\<lambda>q. q\<lparr>p_cwd := d\<rparr>))
         (upd_proc p (\<lambda>q. q\<lparr>p_state := RUNNABLE\<rparr>))))))))))))"

text \<open>The argument is an \<open>int64\<close>; a result of 0 from \<open>deallocuvm\<close> counts as a failure too.\<close>

definition growproc :: "uint64 \<Rightarrow> ('z proc_st_scheme, int) kop" where
  "growproc n = bnd myproc (\<lambda>p. bnd (get_proc p) (\<lambda>q.
     bnd (if sint n > 0 then allocuvm (p_pgdir q) (p_sz q) (p_sz q + n)
          else if sint n < 0 then deallocuvm (p_pgdir q) (p_sz q) (p_sz q + n)
          else ret (p_sz q)) (\<lambda>sz.
     if sint n \<noteq> 0 \<and> sz = 0 then ret (- 1)
     else thn (upd_proc p (\<lambda>q. q\<lparr>p_sz := sz\<rparr>)) (thn (switchuvm p) (ret 0)))))"

definition fork :: "('z proc_st_scheme, int) kop" where
  "fork = bnd allocproc (\<lambda>np. case np of None \<Rightarrow> ret (- 1) | Some np \<Rightarrow> bnd myproc (\<lambda>c. bnd (get_proc c) (\<lambda>cp.
     bnd (copyuvm (p_pgdir cp) (ucast (p_sz cp))) (\<lambda>d. thn (upd_proc np (\<lambda>q. q\<lparr>p_pgdir := d\<rparr>))
     (bnd (get_proc np) (\<lambda>q.
       if d = 0 then thn (steps [kfree (p_kstack q), upd_proc np (\<lambda>q. q\<lparr>p_kstack := 0\<rparr>),
           upd_proc np (\<lambda>q. q\<lparr>p_state := UNUSED\<rparr>)]) (ret (- 1))
       else thn (steps
         [upd_proc np (\<lambda>q. q\<lparr>p_sz := p_sz cp, p_parent := Some c\<rparr>),
          modify (\<lambda>s. s\<lparr>mem := mwrite (p_tf q) (mread (mem s) (p_tf cp) TF_size) (mem s)\<rparr>),
          set64 (p_tf q + TF_rax) 0,
          for_each [0..<NOFILE] (\<lambda>i. case p_ofile cp ! i of None \<Rightarrow> ret ()
            | Some f \<Rightarrow> bnd (filedup f) (\<lambda>f. upd_proc np (\<lambda>q. q\<lparr>p_ofile := (p_ofile q)[i := Some f]\<rparr>))),
          (case p_cwd cp of None \<Rightarrow> panic ''trap'' | Some d \<Rightarrow> bnd (idup d) (\<lambda>d. upd_proc np (\<lambda>q. q\<lparr>p_cwd := Some d\<rparr>))),
          upd_proc np (\<lambda>q. q\<lparr>p_name := safestrcpy_list 16 (p_name cp) (p_name q)\<rparr>)])
         (thn (upd_proc np (\<lambda>q. q\<lparr>p_state := RUNNABLE\<rparr>)) (ret (p_pid q)))))))))"

text \<open>Waking the processes that sleep on another one; a null pointer is \<open>None\<close>.\<close>

definition wakeup1_proc :: "nat option \<Rightarrow> ('z pt_st_scheme, unit) kop" where
  "wakeup1_proc p = (case p of Some p \<Rightarrow> wakeup1 (ChProc p)
     | None \<Rightarrow> modify (procs_update (map (\<lambda>q. if p_state q = SLEEPING \<and> p_chan q = None then q\<lparr>p_state := RUNNABLE\<rparr> else q))))"

definition exit_close :: "nat \<Rightarrow> nat \<Rightarrow> ('z proc_st_scheme, unit) kop" where
  "exit_close c fd = bnd (get_proc c) (\<lambda>q. case p_ofile q ! fd of None \<Rightarrow> ret ()
     | Some f \<Rightarrow> thn (fileclose f) (upd_proc c (\<lambda>q. q\<lparr>p_ofile := (p_ofile q)[fd := None]\<rparr>)))"

definition exit_reparent :: "nat \<Rightarrow> nat \<Rightarrow> ('z proc_st_scheme, unit) kop" where
  "exit_reparent c p = bnd (get_proc p) (\<lambda>q. only_if (p_parent q = Some c) (bnd (gets initproc) (\<lambda>ip. steps
     [upd_proc p (\<lambda>q. q\<lparr>p_parent := Some ip\<rparr>), only_if (p_state q = ZOMBIE) (wakeup1 (ChProc ip))])))"

definition exit :: "('z proc_st_scheme, unit) kop" where
  "exit = bnd (gets curp) (\<lambda>cp. bnd (gets initproc) (\<lambda>ip. thn (panic_if (cp = Some ip) ''init exiting'')
     (bnd myproc (\<lambda>c. steps
       [for_each [0..<NOFILE] (exit_close c),
        begin_op,
        bnd (get_proc c) (\<lambda>q. case p_cwd q of None \<Rightarrow> panic ''trap'' | Some d \<Rightarrow> iput d),
        end_op,
        upd_proc c (\<lambda>q. q\<lparr>p_cwd := None\<rparr>),
        acquire LkPtable,
        bnd (get_proc c) (\<lambda>q. wakeup1_proc (p_parent q)),
        bnd (gets procs) (\<lambda>ps. for_each [0..<length ps] (exit_reparent c)),
        upd_proc c (\<lambda>q. q\<lparr>p_state := ZOMBIE\<rparr>),
        sched,
        panic ''zombie exit'']))))"

text \<open>One scan of \<open>wait\<close>; after the sleep the process goes on with \<open>wait_resume\<close>.\<close>

definition reap :: "nat \<Rightarrow> ('z proc_st_scheme, int) kop" where
  "reap p = bnd (get_proc p) (\<lambda>q. thn (steps
     [kfree (p_kstack q), upd_proc p (\<lambda>q. q\<lparr>p_kstack := 0\<rparr>), freevm (p_pgdir q),
      upd_proc p (\<lambda>q. q\<lparr>p_pid := 0, p_parent := None, p_name := (p_name q)[0 := 0], p_killed := False, p_state := UNUSED\<rparr>),
      release LkPtable]) (ret (p_pid q)))"

definition wait_scan :: "('z proc_st_scheme, int) kop" where
  "wait_scan = bnd (gets curp) (\<lambda>cp. bnd (gets procs) (\<lambda>ps.
     case find_index (\<lambda>q. p_parent q = cp \<and> p_state q = ZOMBIE) ps of
       Some p \<Rightarrow> reap p
     | None \<Rightarrow> bnd myproc (\<lambda>c.
         if find_index (\<lambda>q. p_parent q = cp) ps = None \<or> p_killed (ps ! c)
         then thn (release LkPtable) (ret (- 1))
         else thn (sleep (ChProc c) LkPtable) (ret (- 1)))))"

definition wait :: "('z proc_st_scheme, int) kop" where
  "wait = thn (acquire LkPtable) wait_scan"

definition wait_resume :: "('z proc_st_scheme, int) kop" where
  "wait_resume = thn (sleep_exit LkPtable) wait_scan"

text \<open>
  The scheduler's walk over the process table from slot \<open>i\<close> on, with \<open>ptable.lock\<close> held: up to its
  \<open>swtch\<close> to the process it returns, or to the end of the table. \<open>scheduler_back\<close> is what it does
  when that process has switched back, \<open>scheduler_start\<close> the start of a pass.
\<close>

definition scheduler_start :: "('z proc_st_scheme, unit) kop" where
  "scheduler_start = acquire LkPtable"

definition scheduler_scan :: "nat \<Rightarrow> ('z proc_st_scheme, nat option) kop" where
  "scheduler_scan i = bnd (gets procs) (\<lambda>ps.
     case find (\<lambda>p. p_state (ps ! p) = RUNNABLE) [i..<NPROC] of
       Some p \<Rightarrow> thn (steps
         [modify (\<lambda>s. s\<lparr>skipped := 0\<rparr>), modify (\<lambda>s. s\<lparr>curp := Some p\<rparr>), switchuvm p,
          upd_proc p (\<lambda>q. q\<lparr>p_state := RUNNING\<rparr>)]) (ret (Some p))
     | None \<Rightarrow> thn (steps
         [modify (\<lambda>s. s\<lparr>skipped := skipped s + (NPROC - i)\<rparr>), release LkPtable,
          modify (\<lambda>s. if skipped s > 2 * NPROC then s\<lparr>halted := True, skipped := 0\<rparr> else s)]) (ret None))"

definition scheduler_back :: "('z proc_st_scheme, unit) kop" where
  "scheduler_back = thn switchkvm (modify (\<lambda>s. s\<lparr>curp := None\<rparr>))"

definition forkret :: "('z proc_st_scheme, unit) kop" where
  "forkret = thn (release LkPtable) (bnd (gets first) (\<lambda>f. only_if f (steps
     [modify (\<lambda>s. s\<lparr>first := False\<rparr>), iinit ROOTDEV, initlog ROOTDEV])))"

end
