(* ===== verification/Exec.thy ===== *)
theory Exec
  imports Proc
begin

text \<open>
  src/exec.c, and \<open>loaduvm\<close> of src/vm.c, with the file formats of src/elf.h. The strings of \<open>argv\<close> are
  lists of the bytes before their terminating zero.
\<close>

section \<open>Model\<close>

abbreviation (input) MAXARG :: nat where "MAXARG \<equiv> 32"

fun loaduvm_loop :: "addr \<Rightarrow> addr \<Rightarrow> nat \<Rightarrow> nat \<Rightarrow> nat \<Rightarrow> nat list \<Rightarrow> ('z cons_st_scheme, int) kop" where
  "loaduvm_loop pgdir a ip offset sz [] = ret 0"
| "loaduvm_loop pgdir a ip offset sz (i # is) = bnd (walkpgdir pgdir (a + of_nat i) False) (\<lambda>pte.
     thn (panic_if (pte = 0) ''loaduvm: address should exist'') (bnd (get64 pte) (\<lambda>e.
     let n = (if sz - i < 4096 then sz - i else 4096) in bnd (readi ip ((offset + i) mod 2 ^ 32) n) (\<lambda>(r, bs).
     thn (modify (\<lambda>s. s\<lparr>mem := mwrite (P2V (PTE_ADDR e)) bs (mem s)\<rparr>))
     (if r \<noteq> int n then ret (- 1) else loaduvm_loop pgdir a ip offset sz is)))))"

definition loaduvm :: "addr \<Rightarrow> addr \<Rightarrow> nat \<Rightarrow> nat \<Rightarrow> nat \<Rightarrow> ('z cons_st_scheme, int) kop" where
  "loaduvm pgdir a ip offset sz = thn (panic_if (a mod PGSIZE \<noteq> 0) ''loaduvm: addr must be page aligned'')
     (loaduvm_loop pgdir a ip offset sz (map ((*) 4096) [0..<(sz + 4095) div 4096]))"

record elfhdr =
  eh_magic :: nat
  eh_entry :: addr
  eh_phoff :: nat
  eh_phnum :: nat

record proghdr =
  ph_type :: nat
  ph_off :: nat
  ph_vaddr :: addr
  ph_filesz :: uint64
  ph_memsz :: uint64

definition elfhdr_of :: "byte list \<Rightarrow> elfhdr" where
  "elfhdr_of d = \<lparr>eh_magic = le_val (slice 0 4 d), eh_entry = of_nat (le_val (slice 24 8 d)),
     eh_phoff = le_val (slice 32 8 d), eh_phnum = le_val (slice 56 2 d)\<rparr>"

definition proghdr_of :: "byte list \<Rightarrow> proghdr" where
  "proghdr_of d = \<lparr>ph_type = le_val (slice 0 4 d), ph_off = le_val (slice 8 8 d), ph_vaddr = of_nat (le_val (slice 16 8 d)),
     ph_filesz = of_nat (le_val (slice 32 8 d)), ph_memsz = of_nat (le_val (slice 40 8 d))\<rparr>"

text \<open>The loop over the \<open>k\<close> program headers still to load; \<open>None\<close> is the jump to \<open>bad\<close>.\<close>

fun load_segs :: "nat \<Rightarrow> nat \<Rightarrow> addr \<Rightarrow> nat \<Rightarrow> uint64 \<Rightarrow> ('z cons_st_scheme, uint64 option) kop" where
  "load_segs 0 off pgdir ip sz = ret (Some sz)"
| "load_segs (Suc k) off pgdir ip sz = bnd (readi ip off 56) (\<lambda>(r, bs). let ph = proghdr_of bs in
     if r \<noteq> 56 then ret None
     else if ph_type ph \<noteq> 1 then load_segs k ((off + 56) mod 2 ^ 32) pgdir ip sz
     else if ph_memsz ph < ph_filesz ph then ret None
     else if ph_vaddr ph + ph_memsz ph < ph_vaddr ph then ret None
     else bnd (allocuvm pgdir sz (ph_vaddr ph + ph_memsz ph)) (\<lambda>sz.
       if sz = 0 then ret None
       else if ph_vaddr ph mod PGSIZE \<noteq> 0 then ret None
       else bnd (loaduvm pgdir (ph_vaddr ph) ip (ph_off ph mod 2 ^ 32) (unat (ph_filesz ph) mod 2 ^ 32)) (\<lambda>r.
         if r < 0 then ret None else load_segs k ((off + 56) mod 2 ^ 32) pgdir ip sz)))"

text \<open>Pushing the argument strings: the stack pointer and the pointers to the strings.\<close>

fun push_args :: "addr \<Rightarrow> nat \<Rightarrow> byte list list \<Rightarrow> addr \<Rightarrow> addr list \<Rightarrow> ('z cons_st_scheme, (addr \<times> addr list) option) kop" where
  "push_args pgdir argc [] sp us = ret (Some (sp, us))"
| "push_args pgdir argc (a # as) sp us =
     (if argc \<ge> MAXARG then ret None
      else let sp = (sp - of_nat (length a + 1)) AND NOT 7 in
        bnd (copyout pgdir sp (a @ [0])) (\<lambda>r. if r < 0 then ret None
          else push_args pgdir (Suc argc) as sp (us @ [sp])))"

definition words_bytes :: "addr list \<Rightarrow> byte list" where
  "words_bytes ws = concat (map (\<lambda>w. le_bytes 8 (unat w)) ws)"

definition exec_bad :: "addr \<Rightarrow> nat option \<Rightarrow> ('z cons_st_scheme, int) kop" where
  "exec_bad pgdir ip = thn (only_if (pgdir \<noteq> 0) (freevm pgdir))
     (thn (case ip of None \<Rightarrow> ret () | Some i \<Rightarrow> thn (iunlockput i) end_op) (ret (- 1)))"

text \<open>From the new page table with the segments loaded to the return to the new program.\<close>

definition exec_stack :: "addr \<Rightarrow> addr \<Rightarrow> addr \<Rightarrow> uint64 \<Rightarrow> byte list \<Rightarrow> byte list list \<Rightarrow> ('z proc_st_scheme, int) kop" where
  "exec_stack oldpgdir entry pgdir sz path argv = (let sz0 = PGROUNDUP sz in
     bnd (allocuvm pgdir sz0 (sz0 + 2 * PGSIZE)) (\<lambda>sz. if sz = 0 then exec_bad pgdir None
     else thn (clearpteu pgdir (sz - 2 * PGSIZE)) (bnd (push_args pgdir 0 argv sz []) (\<lambda>r. case r of
       None \<Rightarrow> exec_bad pgdir None
     | Some (sp, us) \<Rightarrow> bnd myproc (\<lambda>c. bnd (get_proc c) (\<lambda>q.
         let argc = of_nat (length argv); av = sp - (argc + 1) * 8; sp = sp - (3 + argc + 1) * 8 in
         thn (set64 (p_tf q + TF_rdi) argc) (thn (set64 (p_tf q + TF_rsi) av)
         (bnd (copyout pgdir sp (words_bytes ([0xFFFFFFFF, argc, av] @ us @ [0]))) (\<lambda>r.
         if r < 0 then exec_bad pgdir None
         else thn (steps
           [upd_proc c (\<lambda>q. q\<lparr>p_name := safestrcpy_list 16 (rev (takeWhile (\<lambda>b. b \<noteq> slash) (rev path))) (p_name q)\<rparr>),
            upd_proc c (\<lambda>q. q\<lparr>p_pgdir := pgdir, p_sz := sz\<rparr>),
            set64 (p_tf q + TF_rip) entry, set64 (p_tf q + TF_rcx) entry, set64 (p_tf q + TF_rsp) sp,
            switchuvm c, freevm oldpgdir]) (ret 0))))))))))"

definition exec :: "byte list \<Rightarrow> byte list list \<Rightarrow> ('z proc_st_scheme, int) kop" where
  "exec path argv = bnd myproc (\<lambda>c. bnd (get_proc c) (\<lambda>q. thn begin_op (bnd (namei path) (\<lambda>ip. case ip of
     None \<Rightarrow> thn end_op (ret (- 1))
   | Some i \<Rightarrow> thn (ilock (Some i)) (bnd (readi i 0 64) (\<lambda>(r, bs). let elf = elfhdr_of bs in
       if r \<noteq> 64 then exec_bad 0 (Some i)
       else if eh_magic elf \<noteq> 0x464C457F then exec_bad 0 (Some i)
       else bnd setupkvm (\<lambda>pgdir. if pgdir = 0 then exec_bad 0 (Some i)
       else bnd (load_segs (eh_phnum elf) (eh_phoff elf mod 2 ^ 32) pgdir i PGSIZE) (\<lambda>r. case r of
         None \<Rightarrow> exec_bad pgdir (Some i)
       | Some sz \<Rightarrow> thn (iunlockput i) (thn end_op
           (exec_stack (p_pgdir q) (eh_entry elf) pgdir sz path argv))))))))))"

end
