(* ===== verification/Syscall.thy ===== *)
theory Syscall
  imports Exec
begin

text \<open>
  System calls: src/syscall.c, src/sysproc.c and src/sysfile.c. The arguments are in the trap frame
  of the current process, at the address \<open>p_tf\<close>; user memory is reached through the page table
  (\<open>uread\<close> and \<open>uwrite\<close> of theory \<open>Vm\<close>). A call that must wait ends in \<open>Switched\<close>. The functions of
  sysproc.c and sysfile.c that return an \<open>int\<close> are called through pointers to functions that
  return \<open>addr_t\<close>; the upper half of the result is that of a zero-extending move.
\<close>

section \<open>Arguments\<close>

definition my :: "(proc \<Rightarrow> 'a) \<Rightarrow> ('z proc_st_scheme, 'a) kop" where
  "my f = bnd myproc (\<lambda>p. bnd (get_proc p) (\<lambda>q. ret (f q)))"

text \<open>\<open>None\<close> is the value -1.\<close>

definition fetchint :: "addr \<Rightarrow> ('z proc_st_scheme, int option) kop" where
  "fetchint a = bnd (my p_sz) (\<lambda>sz. if a \<ge> sz \<or> a + 4 > sz then ret None
     else bnd (uread a 4) (\<lambda>bs. ret (Some (signed32 (le_val bs)))))"

definition fetchaddr :: "addr \<Rightarrow> ('z proc_st_scheme, addr option) kop" where
  "fetchaddr a = bnd (my p_sz) (\<lambda>sz. if a \<ge> sz \<or> a + 8 > sz then ret None
     else bnd (uread a 8) (\<lambda>bs. ret (Some (of_nat (le_val bs)))))"

fun fetchstr_loop :: "nat \<Rightarrow> addr \<Rightarrow> byte list \<Rightarrow> ('z proc_st_scheme, byte list option) kop" where
  "fetchstr_loop 0 s bs = ret None"
| "fetchstr_loop (Suc n) s bs = bnd (uread s 1) (\<lambda>c.
     if hd c = 0 then ret (Some bs) else fetchstr_loop n (s + 1) (bs @ c))"

definition fetchstr :: "addr \<Rightarrow> ('z proc_st_scheme, byte list option) kop" where
  "fetchstr a = bnd (my p_sz) (\<lambda>sz. if a \<ge> sz then ret None else fetchstr_loop (unat (sz - a)) a [])"

definition fetcharg :: "nat \<Rightarrow> ('z proc_st_scheme, addr) kop" where
  "fetcharg n = bnd (my p_tf) (\<lambda>tf.
     if n = 0 then get64 (tf + TF_rdi) else if n = 1 then get64 (tf + TF_rsi) else if n = 2 then get64 (tf + TF_rdx)
     else if n = 3 then get64 (tf + TF_r10) else if n = 4 then get64 (tf + TF_r8) else if n = 5 then get64 (tf + TF_r9)
     else panic ''failed fetch'')"

definition argint :: "nat \<Rightarrow> ('z proc_st_scheme, int) kop" where
  "argint n = bnd (fetcharg n) (\<lambda>v. ret (sint (ucast v :: uint32)))"

definition argaddr :: "nat \<Rightarrow> ('z proc_st_scheme, addr) kop" where
  "argaddr n = fetcharg n"

text \<open>The check is on the low 32 bits of the pointer and on a 32-bit sum; the pointer returned is the whole.\<close>

definition argptr :: "nat \<Rightarrow> int \<Rightarrow> ('z proc_st_scheme, addr option) kop" where
  "argptr n sz = bnd (argaddr n) (\<lambda>i. bnd (my p_sz) (\<lambda>psz.
     if sz < 0 \<or> ucast (ucast i :: uint32) \<ge> psz \<or> ucast ((ucast i :: uint32) + of_int sz) > psz then ret None
     else ret (Some i)))"

definition argstr :: "nat \<Rightarrow> ('z proc_st_scheme, byte list option) kop" where
  "argstr n = bnd (argint n) (\<lambda>a. fetchstr (of_int a))"

section \<open>System calls on processes\<close>

definition sys_fork :: "('z proc_st_scheme, int) kop" where
  "sys_fork = fork"

definition sys_exit :: "('z proc_st_scheme, int) kop" where
  "sys_exit = thn exit (ret 0)"

definition sys_wait :: "('z proc_st_scheme, int) kop" where
  "sys_wait = wait"

definition sys_kill :: "('z proc_st_scheme, int) kop" where
  "sys_kill = bnd (argint 0) kill"

definition sys_getpid :: "('z proc_st_scheme, int) kop" where
  "sys_getpid = my p_pid"

definition sys_sbrk :: "('z proc_st_scheme, uint64) kop" where
  "sys_sbrk = bnd (argaddr 0) (\<lambda>n. bnd (my p_sz) (\<lambda>a. bnd (growproc n) (\<lambda>r. ret (if r < 0 then - 1 else a))))"

text \<open>The comparison of \<open>sys_sleep\<close> is between unsigned numbers.\<close>

definition sys_sleep_loop :: "int \<Rightarrow> uint32 \<Rightarrow> ('z proc_st_scheme, int) kop" where
  "sys_sleep_loop n ticks0 = bnd (gets ticks) (\<lambda>t.
     if t - ticks0 < of_int n
     then bnd killed (\<lambda>k. if k then thn (release LkTicks) (ret (- 1)) else thn (sleep ChTicks LkTicks) (ret (- 1)))
     else thn (release LkTicks) (ret 0))"

definition sys_sleep :: "('z proc_st_scheme, int) kop" where
  "sys_sleep = bnd (argint 0) (\<lambda>n. thn (acquire LkTicks) (bnd (gets ticks) (\<lambda>t. sys_sleep_loop n t)))"

definition sys_sleep_resume :: "int \<Rightarrow> uint32 \<Rightarrow> ('z proc_st_scheme, int) kop" where
  "sys_sleep_resume n ticks0 = thn (sleep_exit LkTicks) (sys_sleep_loop n ticks0)"

definition sys_uptime :: "('z proc_st_scheme, int) kop" where
  "sys_uptime = thn (acquire LkTicks) (bnd (gets ticks) (\<lambda>t. thn (release LkTicks) (ret (sint t))))"

section \<open>System calls on files\<close>

definition argfd :: "nat \<Rightarrow> ('z proc_st_scheme, (nat \<times> nat) option) kop" where
  "argfd n = bnd (argint n) (\<lambda>fd. bnd (my p_ofile) (\<lambda>ofs. ret
     (if fd < 0 \<or> fd \<ge> int NOFILE then None else map_option (\<lambda>f. (nat fd, f)) (ofs ! nat fd))))"

definition fdalloc :: "nat \<Rightarrow> ('z proc_st_scheme, nat option) kop" where
  "fdalloc f = bnd myproc (\<lambda>c. bnd (get_proc c) (\<lambda>q.
     case find (\<lambda>fd. p_ofile q ! fd = None) [0..<NOFILE] of
       Some fd \<Rightarrow> thn (upd_proc c (\<lambda>q. q\<lparr>p_ofile := (p_ofile q)[fd := Some f]\<rparr>)) (ret (Some fd))
     | None \<Rightarrow> ret None))"

definition clear_fd :: "nat \<Rightarrow> ('z proc_st_scheme, unit) kop" where
  "clear_fd fd = bnd myproc (\<lambda>c. upd_proc c (\<lambda>q. q\<lparr>p_ofile := (p_ofile q)[fd := None]\<rparr>))"

definition sys_dup :: "('z proc_st_scheme, int) kop" where
  "sys_dup = bnd (argfd 0) (\<lambda>r. case r of None \<Rightarrow> ret (- 1) | Some (_, f) \<Rightarrow>
     bnd (fdalloc f) (\<lambda>r. case r of None \<Rightarrow> ret (- 1) | Some fd \<Rightarrow> thn (bnd (filedup f) (\<lambda>_. ret ())) (ret (int fd))))"

definition sys_read :: "('z proc_st_scheme, int) kop" where
  "sys_read = bnd (argfd 0) (\<lambda>r. case r of None \<Rightarrow> ret (- 1) | Some (_, f) \<Rightarrow>
     bnd (argint 2) (\<lambda>n. bnd (argptr 1 n) (\<lambda>p. case p of None \<Rightarrow> ret (- 1) | Some p \<Rightarrow>
     bnd (fileread f n) (\<lambda>(r, bs). thn (uwrite p bs) (ret r)))))"

definition sys_write :: "('z proc_st_scheme, int) kop" where
  "sys_write = bnd (argfd 0) (\<lambda>r. case r of None \<Rightarrow> ret (- 1) | Some (_, f) \<Rightarrow>
     bnd (argint 2) (\<lambda>n. bnd (argptr 1 n) (\<lambda>p. case p of None \<Rightarrow> ret (- 1) | Some p \<Rightarrow>
     bnd (uread p (nat n)) (filewrite f))))"

definition sys_close :: "('z proc_st_scheme, int) kop" where
  "sys_close = bnd (argfd 0) (\<lambda>r. case r of None \<Rightarrow> ret (- 1) | Some (fd, f) \<Rightarrow>
     thn (clear_fd fd) (thn (fileclose f) (ret 0)))"

text \<open>The fields of \<open>struct stat\<close> in user memory; the padding is not written.\<close>

definition put_stat :: "addr \<Rightarrow> stat \<Rightarrow> ('z proc_st_scheme, unit) kop" where
  "put_stat p st = steps [uwrite (p + 4) (le_bytes 4 (st_dev st)), uwrite (p + 8) (le_bytes 4 (st_ino st)),
     uwrite p (le_short (st_type st)), uwrite (p + 12) (le_short (st_nlink st)), uwrite (p + 16) (le_bytes 4 (st_size st))]"

definition sys_fstat :: "('z proc_st_scheme, int) kop" where
  "sys_fstat = bnd (argfd 0) (\<lambda>r. case r of None \<Rightarrow> ret (- 1) | Some (_, f) \<Rightarrow>
     bnd (argptr 1 20) (\<lambda>p. case p of None \<Rightarrow> ret (- 1) | Some p \<Rightarrow>
     bnd (filestat f) (\<lambda>st. case st of None \<Rightarrow> ret (- 1) | Some st \<Rightarrow> thn (put_stat p st) (ret 0))))"

fun isdirempty_loop :: "nat \<Rightarrow> nat list \<Rightarrow> ('z cons_st_scheme, bool) kop" where
  "isdirempty_loop dp [] = ret True"
| "isdirempty_loop dp (off # offs) = bnd (read_dirent ''isdirempty: readi'' dp off) (\<lambda>de.
     if de_inum de \<noteq> 0 then ret False else isdirempty_loop dp offs)"

definition isdirempty :: "nat \<Rightarrow> ('z cons_st_scheme, bool) kop" where
  "isdirempty dp = bnd (get_inode dp) (\<lambda>d. isdirempty_loop dp (drop 2 (dirent_offs (i_size d))))"

definition end_with :: "int \<Rightarrow> ('z proc_st_scheme, int) kop" where
  "end_with r = thn end_op (ret r)"

text \<open>A \<open>short\<close> after \<open>++\<close> or \<open>--\<close>.\<close>

definition short :: "int \<Rightarrow> int" where
  "short v = (v + 2 ^ 15) mod 2 ^ 16 - 2 ^ 15"

definition add_nlink :: "int \<Rightarrow> nat \<Rightarrow> ('z proc_st_scheme, unit) kop" where
  "add_nlink k i = thn (upd_inode i (\<lambda>x. x\<lparr>i_nlink := short (i_nlink x + k)\<rparr>)) (iupdate i)"

definition sys_link_bad :: "nat \<Rightarrow> ('z proc_st_scheme, int) kop" where
  "sys_link_bad ip = thn (steps [ilock (Some ip), add_nlink (- 1) ip, iunlockput ip]) (end_with (- 1))"

definition sys_link_to :: "nat \<Rightarrow> byte list \<Rightarrow> ('z proc_st_scheme, int) kop" where
  "sys_link_to ip new = thn (ilock (Some ip)) (bnd (get_inode ip) (\<lambda>x.
     if i_type x = T_DIR then thn (iunlockput ip) (end_with (- 1))
     else thn (add_nlink 1 ip) (thn (iunlock (Some ip)) (bnd (nameiparent new) (\<lambda>(dp, name). case dp of
       None \<Rightarrow> sys_link_bad ip
     | Some dp \<Rightarrow> thn (ilock (Some dp)) (bnd (get_inode dp) (\<lambda>d. bnd (get_inode ip) (\<lambda>x.
         bnd (if i_dev d \<noteq> i_dev x then ret (- 1) else dirlink dp name (i_inum x)) (\<lambda>r.
         if r < 0 then thn (iunlockput dp) (sys_link_bad ip)
         else thn (iunlockput dp) (thn (iput ip) (end_with 0))))))))))) "

definition sys_link :: "('z proc_st_scheme, int) kop" where
  "sys_link = bnd (argstr 0) (\<lambda>old. case old of None \<Rightarrow> ret (- 1) | Some old \<Rightarrow>
     bnd (argstr 1) (\<lambda>new. case new of None \<Rightarrow> ret (- 1) | Some new \<Rightarrow>
     thn begin_op (bnd (namei old) (\<lambda>ip. case ip of None \<Rightarrow> end_with (- 1) | Some ip \<Rightarrow> sys_link_to ip new))))"

definition sys_unlink_at :: "nat \<Rightarrow> nat \<Rightarrow> nat \<Rightarrow> ('z proc_st_scheme, int) kop" where
  "sys_unlink_at dp ip off = thn (ilock (Some ip)) (bnd (get_inode ip) (\<lambda>x.
     thn (panic_if (i_nlink x < 1) ''unlink: nlink < 1'')
     (bnd (if i_type x = T_DIR then isdirempty ip else ret True) (\<lambda>empty.
     if \<not> empty then thn (iunlockput ip) (thn (iunlockput dp) (end_with (- 1)))
     else bnd (writei dp (replicate 16 0) off) (\<lambda>r. thn (steps
       [panic_if (r \<noteq> 16) ''unlink: writei'',
        only_if (i_type x = T_DIR) (add_nlink (- 1) dp),
        iunlockput dp,
        add_nlink (- 1) ip,
        iunlockput ip]) (end_with 0))))))"

definition sys_unlink :: "('z proc_st_scheme, int) kop" where
  "sys_unlink = bnd (argstr 0) (\<lambda>path. case path of None \<Rightarrow> ret (- 1) | Some path \<Rightarrow>
     thn begin_op (bnd (nameiparent path) (\<lambda>(dp, name). case dp of None \<Rightarrow> end_with (- 1) | Some dp \<Rightarrow>
     thn (ilock (Some dp))
     (if namecmp name (map of_char ''.'') = 0 \<or> namecmp name (map of_char ''..'') = 0
      then thn (iunlockput dp) (end_with (- 1))
      else bnd (dirlookup dp name) (\<lambda>r. case r of
        None \<Rightarrow> thn (iunlockput dp) (end_with (- 1))
      | Some (ip, off) \<Rightarrow> sys_unlink_at dp ip off)))))"

text \<open>\<open>create\<close> returns the inode locked.\<close>

definition create_new :: "nat \<Rightarrow> byte list \<Rightarrow> int \<Rightarrow> int \<Rightarrow> int \<Rightarrow> ('z proc_st_scheme, nat option) kop" where
  "create_new dp name ty major minor = bnd (get_inode dp) (\<lambda>d. bnd (ialloc (i_dev d) ty) (\<lambda>ip.
     thn (steps
       [ilock (Some ip),
        upd_inode ip (\<lambda>x. x\<lparr>i_major := major, i_minor := minor, i_nlink := 1\<rparr>),
        iupdate ip,
        only_if (ty = T_DIR) (thn (add_nlink 1 dp) (bnd (get_inode ip) (\<lambda>x. bnd (dirlink ip (map of_char ''.'') (i_inum x)) (\<lambda>r.
          thn (panic_if (r < 0) ''create dots'') (bnd (get_inode dp) (\<lambda>d. bnd (dirlink ip (map of_char ''..'') (i_inum d)) (\<lambda>r.
          panic_if (r < 0) ''create dots''))))))),
        bnd (get_inode ip) (\<lambda>x. bnd (dirlink dp name (i_inum x)) (\<lambda>r. panic_if (r < 0) ''create: dirlink'')),
        iunlockput dp]) (ret (Some ip))))"

definition create :: "byte list \<Rightarrow> int \<Rightarrow> int \<Rightarrow> int \<Rightarrow> ('z proc_st_scheme, nat option) kop" where
  "create path ty major minor = bnd (nameiparent path) (\<lambda>(dp, name). case dp of None \<Rightarrow> ret None | Some dp \<Rightarrow>
     thn (ilock (Some dp)) (bnd (dirlookup dp name) (\<lambda>r. case r of
       Some (ip, _) \<Rightarrow> thn (iunlockput dp) (thn (ilock (Some ip)) (bnd (get_inode ip) (\<lambda>x.
         if ty = T_FILE \<and> i_type x = T_FILE then ret (Some ip) else thn (iunlockput ip) (ret None))))
     | None \<Rightarrow> create_new dp name ty major minor)))"

definition sys_open_fd :: "nat \<Rightarrow> uint32 \<Rightarrow> ('z proc_st_scheme, int) kop" where
  "sys_open_fd ip omode = bnd filealloc (\<lambda>f. case f of
     None \<Rightarrow> thn (iunlockput ip) (end_with (- 1))
   | Some f \<Rightarrow> bnd (fdalloc f) (\<lambda>fd. case fd of
       None \<Rightarrow> thn (fileclose f) (thn (iunlockput ip) (end_with (- 1)))
     | Some fd \<Rightarrow> thn (steps [iunlock (Some ip), end_op,
         upd_file f (\<lambda>x. x\<lparr>f_type := FD_INODE, f_ip := ip, f_off := 0, f_readable := (omode AND 1 = 0),
           f_writable := (omode AND 1 \<noteq> 0 \<or> omode AND 2 \<noteq> 0)\<rparr>)]) (ret (int fd))))"

definition sys_open :: "('z proc_st_scheme, int) kop" where
  "sys_open = bnd (argstr 0) (\<lambda>path. case path of None \<Rightarrow> ret (- 1) | Some path \<Rightarrow>
     bnd (argint 1) (\<lambda>om. let omode = (of_int om :: uint32) in thn begin_op
     (if omode AND 0x200 \<noteq> 0
      then bnd (create path T_FILE 0 0) (\<lambda>ip. case ip of None \<Rightarrow> end_with (- 1) | Some ip \<Rightarrow> sys_open_fd ip omode)
      else bnd (namei path) (\<lambda>ip. case ip of None \<Rightarrow> end_with (- 1) | Some ip \<Rightarrow>
        thn (ilock (Some ip)) (bnd (get_inode ip) (\<lambda>x.
          if i_type x = T_DIR \<and> omode \<noteq> 0 then thn (iunlockput ip) (end_with (- 1)) else sys_open_fd ip omode))))))"

definition made :: "nat option \<Rightarrow> ('z proc_st_scheme, int) kop" where
  "made ip = (case ip of None \<Rightarrow> end_with (- 1) | Some ip \<Rightarrow> thn (iunlockput ip) (end_with 0))"

definition sys_mkdir :: "('z proc_st_scheme, int) kop" where
  "sys_mkdir = thn begin_op (bnd (argstr 0) (\<lambda>path. case path of None \<Rightarrow> end_with (- 1) | Some path \<Rightarrow>
     bnd (create path T_DIR 0 0) made))"

definition sys_mknod :: "('z proc_st_scheme, int) kop" where
  "sys_mknod = thn begin_op (bnd (argstr 0) (\<lambda>path. case path of None \<Rightarrow> end_with (- 1) | Some path \<Rightarrow>
     bnd (argint 1) (\<lambda>major. bnd (argint 2) (\<lambda>minor. bnd (create path T_DEV (short major) (short minor)) made))))"

definition sys_chdir :: "('z proc_st_scheme, int) kop" where
  "sys_chdir = thn begin_op (bnd (argstr 0) (\<lambda>path. case path of None \<Rightarrow> end_with (- 1) | Some path \<Rightarrow>
     bnd (namei path) (\<lambda>ip. case ip of None \<Rightarrow> end_with (- 1) | Some ip \<Rightarrow>
     thn (ilock (Some ip)) (bnd (get_inode ip) (\<lambda>x.
       if i_type x \<noteq> T_DIR then thn (iunlockput ip) (end_with (- 1))
       else thn (iunlock (Some ip)) (bnd myproc (\<lambda>c. bnd (get_proc c) (\<lambda>q. thn (steps
         [case p_cwd q of None \<Rightarrow> panic ''trap'' | Some d \<Rightarrow> iput d, end_op,
          upd_proc c (\<lambda>q. q\<lparr>p_cwd := Some ip\<rparr>)]) (ret 0))))))))) "

text \<open>The argument vector: \<open>k\<close> is the number of entries still allowed, \<open>a\<close> the address of the next.\<close>

fun fetch_argv :: "nat \<Rightarrow> addr \<Rightarrow> byte list list \<Rightarrow> ('z proc_st_scheme, byte list list option) kop" where
  "fetch_argv 0 a argv = ret None"
| "fetch_argv (Suc k) a argv = bnd (fetchaddr a) (\<lambda>u. case u of None \<Rightarrow> ret None | Some u \<Rightarrow>
     if u = 0 then ret (Some argv)
     else bnd (fetchstr u) (\<lambda>w. case w of None \<Rightarrow> ret None | Some w \<Rightarrow> fetch_argv k (a + 8) (argv @ [w])))"

definition sys_exec :: "('z proc_st_scheme, int) kop" where
  "sys_exec = bnd (argstr 0) (\<lambda>path. case path of None \<Rightarrow> ret (- 1) | Some path \<Rightarrow>
     bnd (argaddr 1) (\<lambda>uargv. bnd (fetch_argv MAXARG uargv []) (\<lambda>argv. case argv of None \<Rightarrow> ret (- 1) | Some argv \<Rightarrow>
     exec path argv)))"

definition sys_pipe :: "('z proc_st_scheme, int) kop" where
  "sys_pipe = bnd (argptr 0 8) (\<lambda>p. case p of None \<Rightarrow> ret (- 1) | Some p \<Rightarrow>
     bnd pipealloc (\<lambda>r. case r of None \<Rightarrow> ret (- 1) | Some (rfile, wfile) \<Rightarrow>
     bnd (fdalloc rfile) (\<lambda>fd0. case fd0 of None \<Rightarrow> thn (fileclose rfile) (thn (fileclose wfile) (ret (- 1))) | Some fd0 \<Rightarrow>
     bnd (fdalloc wfile) (\<lambda>fd1. case fd1 of
       None \<Rightarrow> thn (clear_fd fd0) (thn (fileclose rfile) (thn (fileclose wfile) (ret (- 1))))
     | Some fd1 \<Rightarrow> thn (uwrite p (le_bytes 4 fd0)) (thn (uwrite (p + 4) (le_bytes 4 fd1)) (ret 0))))))"

section \<open>The dispatcher\<close>

definition int_call :: "('z proc_st_scheme, int) kop \<Rightarrow> ('z proc_st_scheme, uint64) kop" where
  "int_call m = bnd m (\<lambda>r. ret (ucast (of_int r :: uint32)))"

definition syscalls :: "(('z proc_st_scheme, uint64) kop) list" where
  "syscalls = [int_call sys_fork, int_call sys_exit, int_call sys_wait, int_call sys_pipe, int_call sys_read,
     int_call sys_kill, int_call sys_exec, int_call sys_fstat, int_call sys_chdir, int_call sys_dup, int_call sys_getpid,
     sys_sbrk, int_call sys_sleep, int_call sys_uptime, int_call sys_open, int_call sys_write, int_call sys_mknod,
     int_call sys_unlink, int_call sys_link, int_call sys_mkdir, int_call sys_close]"

text \<open>\<open>syscalls[num]\<close>, whose entry 0 is empty, is \<open>syscalls ! (num - 1)\<close> of the list.\<close>

definition syscall :: "addr \<Rightarrow> ('z proc_st_scheme, unit) kop" where
  "syscall tf = steps
     [bnd killed (\<lambda>k. only_if k exit),
      bnd myproc (\<lambda>c. upd_proc c (\<lambda>q. q\<lparr>p_tf := tf\<rparr>)),
      bnd (get64 (tf + TF_rax)) (\<lambda>num.
        if num > 0 \<and> unat num \<le> length (syscalls :: (('z proc_st_scheme, uint64) kop) list)
        then bnd (syscalls ! (unat num - 1)) (\<lambda>r. set64 (tf + TF_rax) r)
        else thn (bnd (my p_pid) (\<lambda>pid. bnd (my p_name) (\<lambda>name.
          cprintf (Some (''%d %s: unknown sys call %d'' @ [newline])) [Aint (of_int pid), Astr (Some (cstr name)), Aint (ucast num)])))
          (set64 (tf + TF_rax) (- 1))),
      bnd killed (\<lambda>k. only_if k exit)]"

end
