(* ===== verification/Trap.thy ===== *)
theory Trap
  imports Syscall
begin

text \<open>
  Interrupts and exceptions, src/trap.c. The addresses of the 256 entry points in vectors.S, which
  the build generates, are a field of the state. The acknowledgement of an interrupt to the
  local APIC changes nothing that is modelled; \<open>cpu_id\<close> is the value of \<open>cpunum()\<close>, and the value of
  the register \<open>cr2\<close> is an argument.
\<close>

section \<open>Model\<close>

record trap_st = proc_st +
  idt :: addr
  vectors :: "nat \<Rightarrow> addr"

abbreviation (input) TF_trapno :: addr where "TF_trapno \<equiv> 120"
abbreviation (input) TF_err :: addr where "TF_err \<equiv> 128"
abbreviation (input) TF_cs :: addr where "TF_cs \<equiv> 144"

definition mkgate :: "addr \<Rightarrow> nat \<Rightarrow> addr \<Rightarrow> uint32 \<Rightarrow> ('z kmem_st_scheme, unit) kop" where
  "mkgate t n kva pl = (let e = t + of_nat (16 * n) in modify (\<lambda>s. s\<lparr>mem :=
     store32 (e + 12) 0
       (store32 (e + 8) (ucast (drop_bit 32 kva))
         (store32 (e + 4) (ucast (kva AND 0xFFFF0000) OR 0x8E00 OR push_bit 13 (pl AND 3))
           (store32 e (ucast (kva AND 0xFFFF) OR push_bit 16 8) (mem s))))\<rparr>))"

definition idtinit :: "('z trap_st_scheme, unit) kop" where
  "idtinit = modify (\<lambda>s. s\<lparr>idt_loaded := True\<rparr>)"

definition tvinit :: "('z trap_st_scheme, unit) kop" where
  "tvinit = bnd kalloc (\<lambda>t. thn (modify (\<lambda>s. s\<lparr>idt := t\<rparr>)) (deref t (thn (zero_page t)
     (bnd (gets vectors) (\<lambda>v. for_each [0..<256] (\<lambda>n. mkgate t n (v n) 0))))))"

definition timer_tick :: "('z trap_st_scheme, unit) kop" where
  "timer_tick = bnd (gets cpu_id) (\<lambda>c. only_if (c = 0) (steps
     [acquire LkTicks, modify (\<lambda>s. s\<lparr>ticks := ticks s + 1\<rparr>), wakeup ChTicks, release LkTicks]))"

definition bad_trap :: "addr \<Rightarrow> addr \<Rightarrow> addr \<Rightarrow> ('z trap_st_scheme, unit) kop" where
  "bad_trap tf cr2 trapno = bnd (gets id) (\<lambda>s. let m = mem s in
     case curp s of
       None \<Rightarrow> thn (cprintf (Some (''unexpected trap %d from cpu %d rip %p (cr2=0x%p)'' @ [newline]))
           [Aint (ucast trapno), Aint (of_nat (cpu_id s)), Aaddr (load64 m (tf + TF_rip)), Aaddr cr2]) (panic ''trap'')
     | Some c \<Rightarrow>
         if load64 m (tf + TF_cs) AND 3 = 0
         then thn (steps
           [cprintf (Some (''unexpected trap %d from cpu %d rip %p (cr2=0x%p)'' @ [newline]))
             [Aint (ucast trapno), Aint (of_nat (cpu_id s)), Aaddr (load64 m (tf + TF_rip)), Aaddr cr2],
            cprintf (Some (''proc id: %d'' @ [newline])) [Aint (of_int (p_pid (procs s ! c)))]]) (panic ''trap'')
         else steps
           [cprintf (Some (''pid %d %s: trap %d err %d on cpu %d rip 0x%p addr 0x%p--kill proc'' @ [newline]))
             [Aint (of_int (p_pid (procs s ! c))), Astr (Some (cstr (p_name (procs s ! c)))), Aint (ucast trapno),
              Aint (ucast (load64 m (tf + TF_err))), Aint (of_nat (cpu_id s)), Aaddr (load64 m (tf + TF_rip)), Aaddr cr2],
            upd_proc c (\<lambda>q. q\<lparr>p_killed := True\<rparr>)])"

text \<open>\<open>exit_if_killed\<close>: a killed process that was in user space does not go back there.\<close>

definition exit_if_killed :: "addr \<Rightarrow> ('z trap_st_scheme, unit) kop" where
  "exit_if_killed tf = bnd (gets id) (\<lambda>s. case curp s of None \<Rightarrow> ret ()
     | Some c \<Rightarrow> only_if (p_killed (procs s ! c) \<and> load64 (mem s) (tf + TF_cs) AND 3 = 3) exit)"

definition trap :: "addr \<Rightarrow> addr \<Rightarrow> ('z trap_st_scheme, unit) kop" where
  "trap tf cr2 = bnd (get64 (tf + TF_trapno)) (\<lambda>n. steps
     [if n = 32 then timer_tick
      else if n = 32 + 14 then ideintr
      else if n = 32 + 15 then ret ()
      else if n = 32 + 1 then kbdintr
      else if n = 32 + 4 then uartintr
      else if n = 32 + 7 \<or> n = 32 + 31 then bnd (gets id) (\<lambda>s.
        cprintf (Some (''cpu%d: spurious interrupt at %p:%p'' @ [newline]))
          [Aint (of_nat (cpu_id s)), Aaddr (load64 (mem s) (tf + TF_cs)), Aaddr (load64 (mem s) (tf + TF_rip))])
      else bad_trap tf cr2 n,
      exit_if_killed tf,
      bnd (gets id) (\<lambda>s. case curp s of None \<Rightarrow> ret ()
        | Some c \<Rightarrow> only_if (p_state (procs s ! c) = RUNNING \<and> n = 32) yield),
      exit_if_killed tf])"

end
