(* ===== verification/Shell.thy ===== *)
theory Shell
  imports Userland
begin

text \<open>
  The shell, src/sh.c: its tokenizer, its recursive-descent parser, and \<open>nulterminate\<close>.
  The command line is a list of characters without the final NUL; pointers into it are
  offsets, and a command holds its words as pairs of offsets (\<open>argv\<close> and \<open>eargv\<close>, \<open>file\<close>
  and \<open>efile\<close>). A call of the shell's \<open>panic\<close> is the result \<open>Perr\<close>. The mutually recursive
  parsing functions take fuel; \<open>parsecmd\<close> gives them enough for any line, which is proved.
\<close>

section \<open>Tokens\<close>

abbreviation (input) NUL :: char where "NUL \<equiv> CHR 0x00"

definition char_at :: "string \<Rightarrow> nat \<Rightarrow> char" where
  "char_at b i = (if i < length b then b ! i else NUL)"

definition whitespace :: string where
  "whitespace = [CHR '' '', CHR 0x09, CHR 0x0D, CHR 0x0A, CHR 0x0B]"

definition symbols :: string where
  "symbols = ''<|>&;()''"

function skip_ws :: "string \<Rightarrow> nat \<Rightarrow> nat" where
  "skip_ws b s = (if s < length b \<and> b ! s \<in> set whitespace then skip_ws b (Suc s) else s)"
  by auto
termination by (relation "measure (\<lambda>(b, s). length b - s)") auto

function skip_word :: "string \<Rightarrow> nat \<Rightarrow> nat" where
  "skip_word b s = (if s < length b \<and> b ! s \<notin> set whitespace \<and> b ! s \<notin> set symbols
     then skip_word b (Suc s) else s)"
  by auto
termination by (relation "measure (\<lambda>(b, s). length b - s)") auto

declare skip_ws.simps [simp del] skip_word.simps [simp del]

text \<open>\<open>gettoken\<close> returns the token's kind, its bounds \<open>q\<close> and \<open>eq\<close>, and the new \<open>*ps\<close>.\<close>

definition gettoken :: "string \<Rightarrow> nat \<Rightarrow> char \<times> nat \<times> nat \<times> nat" where
  "gettoken b s =
     (let q = skip_ws b s; c = char_at b q;
          (ret, eq) =
            (if c = NUL then (NUL, q)
             else if c \<in> set ''|();&<'' then (c, q + 1)
             else if c = CHR ''>'' then
               (if char_at b (q + 1) = CHR ''>'' then (CHR ''+'', q + 2) else (CHR ''>'', q + 1))
             else (CHR ''a'', skip_word b q))
      in (ret, q, eq, skip_ws b eq))"

definition peek :: "string \<Rightarrow> nat \<Rightarrow> string \<Rightarrow> nat \<times> bool" where
  "peek b s toks = (let s = skip_ws b s in (s, char_at b s \<noteq> NUL \<and> char_at b s \<in> set toks))"

section \<open>Commands and the parser\<close>

type_synonym word_span = "nat \<times> nat"

datatype cmd =
    Exec "word_span list"
  | Redir cmd word_span int int
  | Pipe cmd cmd
  | Seq cmd cmd
  | Back cmd

datatype 'a presult = Pok 'a nat | Perr string | Pfuel

abbreviation (input) MAXARGS :: nat where "MAXARGS \<equiv> 10"
abbreviation (input) O_RDONLY :: int where "O_RDONLY \<equiv> 0"
abbreviation (input) O_WRONLY_CREATE :: int where "O_WRONLY_CREATE \<equiv> 0x201"

lemma skip_ws_ge: "s \<le> skip_ws b s"
  by (induction b s rule: skip_ws.induct) (subst skip_ws.simps, auto)

lemma skip_word_ge: "s \<le> skip_word b s"
  by (induction b s rule: skip_word.induct) (subst skip_word.simps, auto)

lemma skip_word_step:
  "s < length b \<Longrightarrow> b ! s \<notin> set whitespace \<Longrightarrow> b ! s \<notin> set symbols \<Longrightarrow> s < skip_word b s"
  by (subst skip_word.simps) (use skip_word_ge [of "Suc s" b] in auto)

lemma char_at_notNUL: "char_at b i \<noteq> NUL \<Longrightarrow> i < length b"
  by (simp add: char_at_def split: if_splits)

lemma skip_ws_not_ws: "skip_ws b s < length b \<Longrightarrow> b ! skip_ws b s \<notin> set whitespace"
proof (induction b s rule: skip_ws.induct)
  case (1 b s)
  then show ?case by (subst skip_ws.simps, subst (asm) (2) skip_ws.simps) (auto split: if_splits)
qed

lemma gettoken_le: "gettoken b s = (r, q, e, s') \<Longrightarrow> s \<le> q \<and> q \<le> e \<and> e \<le> s'"
  using skip_ws_ge [of s b] skip_word_ge [of q b] skip_ws_ge [of e b]
  by (auto simp: gettoken_def Let_def split: if_splits)

lemma gettoken_less:
  assumes "gettoken b s = (r, q, e, s')" and "r \<noteq> NUL"
  shows "s < s' \<and> s < length b"
proof -
  have q: "q = skip_ws b s" and c: "char_at b q \<noteq> NUL"
    using assms by (auto simp: gettoken_def Let_def split: if_splits)
  have ql: "q < length b" using char_at_notNUL [OF c] .
  have "q < e"
  proof (cases "char_at b q \<in> set symbols")
    case True
    then show ?thesis using assms q by (auto simp: gettoken_def Let_def symbols_def split: if_splits)
  next
    case False
    then have "q < skip_word b q"
      using ql q skip_ws_not_ws [of b s] by (intro skip_word_step) (auto simp: char_at_def)
    then show ?thesis using assms q by (auto simp: gettoken_def Let_def split: if_splits)
  qed
  with gettoken_le [OF assms(1)] ql show ?thesis by linarith
qed

lemma two_tokens:
  assumes "(s0, m) = peek b s ts" "(t, x, y, s1) = gettoken b s0" "(CHR ''a'', q, e, s2) = gettoken b s1"
  shows "s < s2 \<and> s < length b"
  using assms gettoken_less [of b s1 "CHR ''a''" q e s2] gettoken_le [of b s0 t x y s1] skip_ws_ge [of s b]
  by (simp add: peek_def Let_def)

text \<open>After \<open>peek\<close> found a character, \<open>gettoken\<close> reads the token that starts with it.\<close>

lemma peek_token:
  assumes "peek b s ts = (s0, True)" "gettoken b s0 = (t, q, e, s1)"
  shows "q = s0 \<and> t \<noteq> NUL \<and> char_at b s0 \<in> set ts \<and> s < s1 \<and> s < length b"
proof -
  have c: "char_at b s0 \<noteq> NUL" "char_at b s0 \<in> set ts" "s \<le> s0" and s0: "s0 = skip_ws b s"
    using assms(1) skip_ws_ge [of s b] by (auto simp: peek_def Let_def)
  have q: "skip_ws b s0 = s0"
    using skip_ws_not_ws [of b s] s0 by (subst skip_ws.simps) auto
  then have "t \<noteq> NUL" using assms(2) c by (auto simp: gettoken_def Let_def split: if_splits)
  then show ?thesis using gettoken_less [OF assms(2)] c q assms(2)
    by (auto simp: gettoken_def Let_def split: if_splits)
qed

text \<open>A word of the line: a maximal run of characters that are neither blanks nor symbols.\<close>

definition word_char :: "char \<Rightarrow> bool" where
  "word_char c \<longleftrightarrow> c \<notin> set whitespace \<and> c \<notin> set symbols"

fun is_word :: "string \<Rightarrow> word_span \<Rightarrow> bool" where
  "is_word b (q, e) \<longleftrightarrow> q < e \<and> e \<le> length b \<and> (\<forall>i \<in> {q..<e}. word_char (b ! i)) \<and>
     (e < length b \<longrightarrow> \<not> word_char (b ! e))"

lemma skip_word_word:
  "s \<le> length b \<Longrightarrow> skip_word b s \<le> length b \<and> (\<forall>i \<in> {s..<skip_word b s}. word_char (b ! i)) \<and>
     (skip_word b s < length b \<longrightarrow> \<not> word_char (b ! skip_word b s))"
proof (induction b s rule: skip_word.induct)
  case (1 b s)
  show ?case
  proof (cases "s < length b \<and> word_char (b ! s)")
    case True
    then have w: "skip_word b s = skip_word b (Suc s)" by (subst skip_word.simps) (simp add: word_char_def)
    have IH: "skip_word b (Suc s) \<le> length b \<and> (\<forall>i \<in> {Suc s..<skip_word b (Suc s)}. word_char (b ! i)) \<and>
     (skip_word b (Suc s) < length b \<longrightarrow> \<not> word_char (b ! skip_word b (Suc s)))" 
      by (rule 1(1)) (use True in \<open>simp_all add: word_char_def\<close>)
    have "word_char (b ! i)" if "i \<in> {s..<skip_word b (Suc s)}" for i
      using that IH True by (cases "i = s") simp_all
    then show ?thesis using IH w by simp
  next
    case False
    then have "skip_word b s = s" by (subst skip_word.simps) (auto simp: word_char_def)
    then show ?thesis using False 1(2) by auto
  qed
qed

lemma gettoken_word:
  assumes "gettoken b s = (CHR ''a'', q, e, s')"
  shows "is_word b (q, e)"
proof -
  have q: "q = skip_ws b s" and c: "char_at b q \<noteq> NUL" "char_at b q \<notin> set symbols" and e: "e = skip_word b q"
    using assms by (auto simp: gettoken_def Let_def symbols_def split: if_splits)
  have ql: "q < length b" using char_at_notNUL [OF c(1)] .
  have "q < e"
    unfolding e using ql c q skip_ws_not_ws [of b s] by (intro skip_word_step) (auto simp: char_at_def)
  then show ?thesis using skip_word_word [of q b] ql e by simp
qed

text \<open>\<open>parseredirs\<close>: each \<open><\<close>, \<open>>\<close> or \<open>>>\<close> wraps the command; \<open>>>\<close> opens the file as \<open>>\<close> does.\<close>

function parseredirs :: "cmd \<Rightarrow> string \<Rightarrow> nat \<Rightarrow> cmd presult" where
  "parseredirs c b s =
     (let (s, more) = peek b s ''<>'' in
      if \<not> more then Pok c s
      else let (tok, _, _, s1) = gettoken b s; (tok2, q, eq, s2) = gettoken b s1 in
        if tok2 \<noteq> CHR ''a'' then Perr ''missing file for redirection''
        else if tok = CHR ''<'' then parseredirs (Redir c (q, eq) O_RDONLY 0) b s2
        else if tok = CHR ''>'' then parseredirs (Redir c (q, eq) O_WRONLY_CREATE 1) b s2
        else if tok = CHR ''+'' then parseredirs (Redir c (q, eq) O_WRONLY_CREATE 1) b s2
        else parseredirs c b s2)"
  by pat_completeness auto

termination parseredirs
proof (relation "measure (\<lambda>(c, b, s). length b - s)", simp_all only: in_measure prod.case wf_measure, goal_cases)
  case (1 c b s _ s0 m _ t _ x _ y s1 _ t2 _ q _ e s2)
  then show ?case using two_tokens [of s0 m b s "''<>''" t x y s1 q e s2] by auto
next
  case (2 c b s _ s0 m _ t _ x _ y s1 _ t2 _ q _ e s2)
  then show ?case using two_tokens [of s0 m b s "''<>''" t x y s1 q e s2] by auto
next
  case (3 c b s _ s0 m _ t _ x _ y s1 _ t2 _ q _ e s2)
  then show ?case using two_tokens [of s0 m b s "''<>''" t x y s1 q e s2] by auto
next
  case (4 c b s _ s0 m _ t _ x _ y s1 _ t2 _ q _ e s2)
  then show ?case using two_tokens [of s0 m b s "''<>''" t x y s1 q e s2] by auto
qed

declare parseredirs.simps [simp del]

text \<open>One round of the loop: it ends, panics, or wraps the command and goes on further right.\<close>

lemma parseredirs_round:
  obtains "parseredirs c b s = Pok c (skip_ws b s)"
  | m where "parseredirs c b s = Perr m"
  | q e s2 m fd where "is_word b (q, e)" "s < s2" "s < length b"
      "parseredirs c b s = parseredirs (Redir c (q, e) m fd) b s2"
proof -
  obtain s0 p where p: "peek b s ''<>'' = (s0, p)" by fastforce
  obtain t x y s1 where g1: "gettoken b s0 = (t, x, y, s1)" using prod_cases4 by blast
  obtain t2 q e s2 where g2: "gettoken b s1 = (t2, q, e, s2)" using prod_cases4 by blast
  note eqn = parseredirs.simps [of c b s, unfolded p g1 g2 Let_def prod.case]
  consider "\<not> p" | "p" "t2 \<noteq> CHR ''a''" | "p" "t2 = CHR ''a''" by blast
  then show thesis
  proof cases
    case 1
    with that(1) eqn p show thesis by (simp add: peek_def Let_def)
  next
    case 2
    with that(2) eqn show thesis by simp
  next
    case 3
    have "peek b s ''<>'' = (s0, True)" using p 3 by simp
    note tok = peek_token [OF this g1]
    have "t \<in> set ''<>+''" using tok g1 by (auto simp: gettoken_def Let_def split: if_splits)
    moreover have "is_word b (q, e)" "s < s2" "s < length b"
      using gettoken_word g2 3 two_tokens [OF p [symmetric] g1 [symmetric]] by auto
    ultimately show thesis using that(3) [of q e s2] eqn 3 by (fastforce split: if_splits)
  qed
qed

text \<open>In \<open>parseexec\<close> the words go into the \<open>execcmd\<close> that the redirections already wrap.\<close>

fun add_arg :: "cmd \<Rightarrow> word_span \<Rightarrow> cmd" where
  "add_arg (Exec as) w = Exec (as @ [w])"
| "add_arg (Redir c f m fd) w = Redir (add_arg c w) f m fd"
| "add_arg c w = c"

lemma parseredirs_ge: "parseredirs c b s = Pok c' s' \<Longrightarrow> s \<le> s'"
proof (induction "length b - s" arbitrary: c s rule: less_induct)
  case less
  show ?case
  proof (rule parseredirs_round [of c b s])
    fix q e s2 m fd
    assume "s < s2" "s < length b" "parseredirs c b s = parseredirs (Redir c (q, e) m fd) b s2"
    moreover from this have "length b - s2 < length b - s" by linarith
    ultimately show ?thesis using less(1) [of s2 "Redir c (q, e) m fd"] less(2) by simp
  qed (use less(2) skip_ws_ge [of s b] in auto)
qed

function exec_args :: "cmd \<Rightarrow> nat \<Rightarrow> string \<Rightarrow> nat \<Rightarrow> cmd presult" where
  "exec_args cm argc b s =
     (let (s, stop) = peek b s ''|)&;'' in
      if stop then Pok cm s
      else let (tok, q, eq, s1) = gettoken b s in
        if tok = NUL then Pok cm s1
        else if tok \<noteq> CHR ''a'' then Perr ''syntax''
        else if argc + 1 \<ge> MAXARGS then Perr ''too many args''
        else (case parseredirs (add_arg cm (q, eq)) b s1 of
            Pok cm' s2 \<Rightarrow> exec_args cm' (argc + 1) b s2
          | Perr m \<Rightarrow> Perr m | Pfuel \<Rightarrow> Pfuel))"
  by pat_completeness auto
termination
proof (relation "measure (\<lambda>(c, n, b, s). length b - s)", simp, goal_cases)
  case (1 cm argc b s p s0 stop t tok u q v eq s1 cm' s2)
  then have "s \<le> s0" "s0 < s1" "s0 < length b" "s1 \<le> s2"
    using gettoken_less [of b s0 tok q eq s1] parseredirs_ge [of _ b s1 cm' s2] skip_ws_ge [of s b]
    by (auto simp: peek_def Let_def)
  then show ?case by simp
qed

declare exec_args.simps [simp del]

text \<open>The loop \<open>while(peek(ps, es, "&"))\<close> of \<open>parseline\<close>.\<close>

function parse_backs :: "cmd \<Rightarrow> string \<Rightarrow> nat \<Rightarrow> cmd \<times> nat" where
  "parse_backs c b s =
     (let (s, more) = peek b s ''&'' in
      if \<not> more then (c, s)
      else let (_, _, _, s1) = gettoken b s in parse_backs (Back c) b s1)"
  by pat_completeness auto

termination parse_backs
proof (relation "measure (\<lambda>(c, b, s). length b - s)", simp, goal_cases)
  case (1 c b s p s0 more t tok u q v eq s1)
  then show ?case using peek_token [of b s "''&''" s0 tok q eq s1] by auto
qed

declare parse_backs.simps [simp del]

fun parseline :: "nat \<Rightarrow> string \<Rightarrow> nat \<Rightarrow> cmd presult"
and parsepipe :: "nat \<Rightarrow> string \<Rightarrow> nat \<Rightarrow> cmd presult"
and parseblock :: "nat \<Rightarrow> string \<Rightarrow> nat \<Rightarrow> cmd presult"
and parseexec :: "nat \<Rightarrow> string \<Rightarrow> nat \<Rightarrow> cmd presult" where
  "parseline 0 b s = Pfuel"
| "parseline (Suc n) b s =
     (case parsepipe n b s of
        Pok c s1 \<Rightarrow>
          (let (c, s2) = parse_backs c b s1; (s3, more) = peek b s2 '';'' in
           if more then
             (let (_, _, _, s4) = gettoken b s3 in
              case parseline n b s4 of Pok c2 s5 \<Rightarrow> Pok (Seq c c2) s5 | Perr m \<Rightarrow> Perr m | Pfuel \<Rightarrow> Pfuel)
           else Pok c s3)
      | Perr m \<Rightarrow> Perr m | Pfuel \<Rightarrow> Pfuel)"
| "parsepipe 0 b s = Pfuel"
| "parsepipe (Suc n) b s =
     (case parseexec n b s of
        Pok c s1 \<Rightarrow>
          (let (s2, more) = peek b s1 ''|'' in
           if more then
             (let (_, _, _, s3) = gettoken b s2 in
              case parsepipe n b s3 of Pok c2 s4 \<Rightarrow> Pok (Pipe c c2) s4 | Perr m \<Rightarrow> Perr m | Pfuel \<Rightarrow> Pfuel)
           else Pok c s2)
      | Perr m \<Rightarrow> Perr m | Pfuel \<Rightarrow> Pfuel)"
| "parseblock 0 b s = Pfuel"
| "parseblock (Suc n) b s =
     (let (s1, ok) = peek b s ''('' in
      if \<not> ok then Perr ''parseblock''
      else let (_, _, _, s2) = gettoken b s1 in
        (case parseline n b s2 of
           Pok c s3 \<Rightarrow>
             (let (s4, closed) = peek b s3 '')'' in
              if \<not> closed then Perr ''syntax - missing )''
              else let (_, _, _, s5) = gettoken b s4 in parseredirs c b s5)
         | Perr m \<Rightarrow> Perr m | Pfuel \<Rightarrow> Pfuel))"
| "parseexec 0 b s = Pfuel"
| "parseexec (Suc n) b s =
     (let (s1, block) = peek b s ''('' in
      if block then parseblock n b s1
      else (case parseredirs (Exec []) b s1 of
          Pok cm s2 \<Rightarrow> exec_args cm 0 b s2 | Perr m \<Rightarrow> Perr m | Pfuel \<Rightarrow> Pfuel))"

text \<open>\<open>nulterminate\<close> writes a NUL at the end of each word of the command.\<close>

fun nulterminate :: "cmd \<Rightarrow> string \<Rightarrow> string" where
  "nulterminate (Exec as) b = fold (\<lambda>(q, eq) b. b[eq := NUL]) as b"
| "nulterminate (Redir c (q, eq) m fd) b = (nulterminate c b)[eq := NUL]"
| "nulterminate (Pipe l r) b = nulterminate r (nulterminate l b)"
| "nulterminate (Seq l r) b = nulterminate r (nulterminate l b)"
| "nulterminate (Back c) b = nulterminate c b"

text \<open>The characters of the line, with the final NUL, after \<open>parsecmd\<close>, and its command.\<close>

definition parsecmd :: "string \<Rightarrow> (cmd \<times> string) presult" where
  "parsecmd b =
     (case parseline (4 * length b + 4) b 0 of
        Pok c s1 \<Rightarrow>
          (let (s2, _) = peek b s1 '''' in
           if s2 \<noteq> length b then Perr ''syntax'' else Pok (c, nulterminate c (b @ [NUL])) s2)
      | Perr m \<Rightarrow> Perr m | Pfuel \<Rightarrow> Pfuel)"

section \<open>What the parser builds\<close>

text \<open>Every word of a parsed command is a word of the line, and \<open>argv\<close> has room for its final 0.\<close>

fun cmd_ok :: "string \<Rightarrow> cmd \<Rightarrow> bool" where
  "cmd_ok b (Exec as) \<longleftrightarrow> length as < MAXARGS \<and> (\<forall>w \<in> set as. is_word b w)"
| "cmd_ok b (Redir c w m fd) \<longleftrightarrow> is_word b w \<and> cmd_ok b c"
| "cmd_ok b (Pipe l r) \<longleftrightarrow> cmd_ok b l \<and> cmd_ok b r"
| "cmd_ok b (Seq l r) \<longleftrightarrow> cmd_ok b l \<and> cmd_ok b r"
| "cmd_ok b (Back c) \<longleftrightarrow> cmd_ok b c"

fun words :: "cmd \<Rightarrow> word_span list" where
  "words (Exec as) = as"
| "words (Redir c w m fd) = words c @ [w]"
| "words (Pipe l r) = words l @ words r"
| "words (Seq l r) = words l @ words r"
| "words (Back c) = words c"

fun nargs :: "cmd \<Rightarrow> nat" where
  "nargs (Exec as) = length as"
| "nargs (Redir c w m fd) = nargs c"
| "nargs c = 0"

lemma add_arg_ok: "cmd_ok b c \<Longrightarrow> is_word b w \<Longrightarrow> Suc (nargs c) < MAXARGS \<Longrightarrow> cmd_ok b (add_arg c w)"
  by (induction c w rule: add_arg.induct) auto

lemma nargs_add: "nargs (add_arg c w) \<le> Suc (nargs c)"
  by (induction c w rule: add_arg.induct) auto

lemma parseredirs_ok:
  "parseredirs c b s = Pok c' s' \<Longrightarrow> cmd_ok b c \<Longrightarrow> cmd_ok b c' \<and> nargs c' = nargs c"
proof (induction "length b - s" arbitrary: c s rule: less_induct)
  case less
  show ?case
  proof (rule parseredirs_round [of c b s])
    fix q e s2 m fd
    assume "s < s2" "s < length b" "is_word b (q, e)"
      "parseredirs c b s = parseredirs (Redir c (q, e) m fd) b s2"
    moreover from this have "length b - s2 < length b - s" by linarith
    ultimately show ?thesis using less(1) [of s2 "Redir c (q, e) m fd"] less(2,3) by simp
  qed (use less(2,3) in auto)
qed

lemma parseredirs_no_fuel: "parseredirs c b s \<noteq> Pfuel"
proof (induction "length b - s" arbitrary: c s rule: less_induct)
  case less
  show ?case
  proof (rule parseredirs_round [of c b s])
    fix q e s2 m fd
    assume "s < s2" "s < length b" "parseredirs c b s = parseredirs (Redir c (q, e) m fd) b s2"
    moreover from this have "length b - s2 < length b - s" by linarith
    ultimately show ?thesis using less(1) [of s2 "Redir c (q, e) m fd"] by simp
  qed auto
qed

lemma exec_args_round:
  obtains s' where "exec_args cm n b s = Pok cm s'" "s \<le> s'"
  | m where "exec_args cm n b s = Perr m"
  | q e s1 cm' s2 where "is_word b (q, e)" "Suc n < MAXARGS" "s < s2" "s < length b"
      "parseredirs (add_arg cm (q, e)) b s1 = Pok cm' s2"
      "exec_args cm n b s = exec_args cm' (n + 1) b s2"
proof -
  obtain s0 p where p: "peek b s ''|)&;'' = (s0, p)" by fastforce
  obtain t q e s1 where g: "gettoken b s0 = (t, q, e, s1)" using prod_cases4 by blast
  note eqn = exec_args.simps [of cm n b s, unfolded p g Let_def prod.case]
  have le: "s \<le> s0" "s0 \<le> s1"
    using skip_ws_ge [of s b] p gettoken_le [OF g] by (auto simp: peek_def Let_def)
  consider "p \<or> t = NUL" | "\<not> p" "t \<noteq> NUL" "t \<noteq> CHR ''a'' \<or> n + 1 \<ge> MAXARGS"
    | "\<not> p" "t = CHR ''a''" "n + 1 < MAXARGS" by fastforce
  then show thesis
  proof cases
    case 1
    with that(1) eqn le show thesis by (auto split: if_splits)
  next
    case 2
    with that(2) eqn show thesis by (auto split: if_splits)
  next
    case 3
    show thesis
    proof (cases "parseredirs (add_arg cm (q, e)) b s1")
      case (Pok cm' s2)
      then have "s < s2" "s < length b" "is_word b (q, e)"
        using gettoken_less [OF g] gettoken_word [of b s0 q e s1] g 3 le parseredirs_ge [OF Pok] by auto
      then show thesis using that(3) [OF _ _ _ _ Pok] Pok eqn 3 by auto
    next
      case (Perr m)
      then show thesis using that(2) eqn 3 by auto
    next
      case Pfuel
      then show thesis using parseredirs_no_fuel by blast
    qed
  qed
qed

lemma exec_args_ok:
  "exec_args cm n b s = Pok c' s' \<Longrightarrow> cmd_ok b cm \<Longrightarrow> nargs cm \<le> n \<Longrightarrow> s \<le> s' \<and> cmd_ok b c'"
proof (induction "length b - s" arbitrary: cm n s rule: less_induct)
  case less
  show ?case
  proof (rule exec_args_round [of cm n b s])
    fix q e s1 cm' s2
    assume a: "is_word b (q, e)" "Suc n < MAXARGS" "s < s2" "s < length b"
      "parseredirs (add_arg cm (q, e)) b s1 = Pok cm' s2" "exec_args cm n b s = exec_args cm' (n + 1) b s2"
    then have "length b - s2 < length b - s" by linarith
    moreover have "cmd_ok b (add_arg cm (q, e))" using add_arg_ok less a by simp
    then have "cmd_ok b cm' \<and> nargs cm' \<le> n + 1"
      using parseredirs_ok [OF a(5)] nargs_add [of cm "(q, e)"] less(4) by auto
    ultimately show ?thesis using less(1) [of s2 cm' "n + 1"] less(2) a by fastforce
  qed (use less in auto)
qed

lemma exec_args_no_fuel: "exec_args cm n b s \<noteq> Pfuel"
proof (induction "length b - s" arbitrary: cm n s rule: less_induct)
  case less
  show ?case
  proof (rule exec_args_round [of cm n b s])
    fix cm' s2
    assume "s < s2" "s < length b" "exec_args cm n b s = exec_args cm' (n + 1) b s2"
    moreover from this have "length b - s2 < length b - s" by linarith
    ultimately show ?thesis using less(1) [of s2 cm' "n + 1"] by simp
  qed auto
qed

lemma parse_backs_ok:
  "parse_backs c b s = (c', s') \<Longrightarrow> s \<le> s' \<and> (cmd_ok b c \<longrightarrow> cmd_ok b c')"
proof (induction c b s rule: parse_backs.induct)
  case (1 c b s)
  obtain s0 p where p: "peek b s ''&'' = (s0, p)" by fastforce
  obtain t q e s1 where g: "gettoken b s0 = (t, q, e, s1)" using prod_cases4 by blast
  note eqn = parse_backs.simps [of c b s, unfolded p g Let_def prod.case]
  have le: "s \<le> s0" "s0 \<le> s1"
    using skip_ws_ge [of s b] p gettoken_le [OF g] by (auto simp: peek_def Let_def)
  show ?case
  proof (cases p)
    case True
    then show ?thesis
      using 1(1) [OF p [symmetric] refl _ g [symmetric] refl refl refl] 1(2) eqn le by fastforce
  next
    case False
    then show ?thesis using eqn 1(2) le by simp
  qed
qed

lemma peek_ge: "peek b s ts = (s', p) \<Longrightarrow> s \<le> s'"
  using skip_ws_ge [of s b] by (auto simp: peek_def Let_def)

text \<open>
  A call of a parsing function with fuel \<open>n\<close>: its command is well formed, it never moves left,
  and it does not run out when \<open>n\<close> is four per character left and \<open>k\<close> for the call itself.
\<close>

definition parses :: "nat \<Rightarrow> nat \<Rightarrow> string \<Rightarrow> nat \<Rightarrow> cmd presult \<Rightarrow> bool" where
  "parses n k b s r \<longleftrightarrow> (\<forall>c s'. r = Pok c s' \<longrightarrow> s \<le> s' \<and> cmd_ok b c) \<and>
     (4 * (length b - s) + k \<le> n \<longrightarrow> r \<noteq> Pfuel)"

lemma parsesI:
  "\<lbrakk>\<And>c s'. r = Pok c s' \<Longrightarrow> s \<le> s' \<and> cmd_ok b c; r = Pfuel \<Longrightarrow> n < 4 * (length b - s) + k\<rbrakk>
     \<Longrightarrow> parses n k b s r"
  by (auto simp: parses_def)

lemma parses_Perr [simp]: "parses n k b s (Perr m)"
  by (simp add: parses_def)

text \<open>A call further right on less fuel, whose command is combined with one already parsed.\<close>

lemma parses_then:
  assumes "parses n k b s1 r" "s < s1" "s < length b" "k \<le> 3 + k'" "\<And>c. cmd_ok b c \<Longrightarrow> cmd_ok b (f c)"
  shows "parses (Suc n) k' b s
     (case r of Pok c s2 \<Rightarrow> Pok (f c) s2 | Perr m \<Rightarrow> Perr m | Pfuel \<Rightarrow> Pfuel)"
  using assms by (cases r) (auto simp: parses_def)

lemma parseline_step:
  assumes "\<And>s. parses n 4 b s (parseline n b s)" "\<And>s. parses n 3 b s (parsepipe n b s)"
  shows "parses (Suc n) 4 b s (parseline (Suc n) b s)"
proof (cases "parsepipe n b s")
  case (Pok c s1)
  obtain c' s2 where bk: "parse_backs c b s1 = (c', s2)" by fastforce
  obtain s3 p where p: "peek b s2 '';'' = (s3, p)" by fastforce
  obtain t q e s4 where g: "gettoken b s3 = (t, q, e, s4)" using prod_cases4 by blast
  have le: "s \<le> s1" "s1 \<le> s2" "s2 \<le> s3" "cmd_ok b c'"
    using assms(2) [of s] Pok parse_backs_ok [OF bk] peek_ge [OF p] by (auto simp: parses_def)
  show ?thesis
  proof (cases p)
    case True
    then have "s < s4" "s < length b" using peek_token [of b s2 "'';''" s3 t q e s4] p g le by auto
    then have "parses (Suc n) 4 b s (case parseline n b s4 of Pok c2 s5 \<Rightarrow> Pok (Seq c' c2) s5
        | Perr m \<Rightarrow> Perr m | Pfuel \<Rightarrow> Pfuel)"
      using le by (intro parses_then [OF assms(1)]) auto
    then show ?thesis using Pok bk p g True by simp
  qed (use Pok bk p g le in \<open>simp add: parses_def\<close>)
qed (use assms(2) [of s] in \<open>auto simp: parses_def\<close>)

lemma parsepipe_step:
  assumes "\<And>s. parses n 3 b s (parsepipe n b s)" "\<And>s. parses n 2 b s (parseexec n b s)"
  shows "parses (Suc n) 3 b s (parsepipe (Suc n) b s)"
proof (cases "parseexec n b s")
  case (Pok c s1)
  obtain s2 p where p: "peek b s1 ''|'' = (s2, p)" by fastforce
  obtain t q e s3 where g: "gettoken b s2 = (t, q, e, s3)" using prod_cases4 by blast
  have le: "s \<le> s1" "s1 \<le> s2" "cmd_ok b c"
    using assms(2) [of s] Pok peek_ge [OF p] by (auto simp: parses_def)
  show ?thesis
  proof (cases p)
    case True
    then have "s < s3" "s < length b" using peek_token [of b s1 "''|''" s2 t q e s3] p g le by auto
    then have "parses (Suc n) 3 b s (case parsepipe n b s3 of Pok c2 s5 \<Rightarrow> Pok (Pipe c c2) s5
        | Perr m \<Rightarrow> Perr m | Pfuel \<Rightarrow> Pfuel)"
      using le by (intro parses_then [OF assms(1)]) auto
    then show ?thesis using Pok p g True by simp
  qed (use Pok p g le in \<open>simp add: parses_def\<close>)
qed (use assms(2) [of s] in \<open>auto simp: parses_def\<close>)

lemma parseblock_step:
  assumes "\<And>s. parses n 4 b s (parseline n b s)"
  shows "parses (Suc n) 1 b s (parseblock (Suc n) b s)"
proof (cases "snd (peek b s ''('')")
  case True
  then obtain s1 where p: "peek b s ''('' = (s1, True)" by (cases "peek b s ''(''") auto
  obtain t q e s2 where g: "gettoken b s1 = (t, q, e, s2)" using prod_cases4 by blast
  have le: "s < s2" "s < length b" using peek_token [OF p g] by auto
  show ?thesis
  proof (cases "parseline n b s2")
    case (Pok c s3)
    obtain s4 p4 where p4: "peek b s3 '')'' = (s4, p4)" by fastforce
    obtain t' q' e' s5 where g': "gettoken b s4 = (t', q', e', s5)" using prod_cases4 by blast
    have le': "s2 \<le> s3" "s3 \<le> s4" "s4 \<le> s5" "cmd_ok b c"
      using assms [of s2] Pok peek_ge [OF p4] gettoken_le [OF g'] by (auto simp: parses_def)
    have "parses (Suc n) 1 b s (parseredirs c b s5)"
      using parseredirs_ge [of c b s5] parseredirs_ok [of c b s5] parseredirs_no_fuel [of c b s5] le le'
      by (fastforce intro!: parsesI)
    then show ?thesis using p g Pok p4 g' by simp
  next
    case (Perr m)
    then show ?thesis using p g by simp
  next
    case Pfuel
    then show ?thesis using p g assms [of s2] le by (simp add: parses_def)
  qed
qed (auto split: prod.splits)

lemma parseexec_step:
  assumes "\<And>s. parses n 1 b s (parseblock n b s)"
  shows "parses (Suc n) 2 b s (parseexec (Suc n) b s)"
proof (cases "peek b s ''(''")
  case (Pair s1 p)
  show ?thesis
  proof (cases p)
    case True
    then show ?thesis using Pair assms [of s1] peek_ge [OF Pair] by (auto simp: parses_def)
  next
    case False
    show ?thesis
    proof (cases "parseredirs (Exec []) b s1")
      case (Pok cm s2)
      then have "cmd_ok b cm" "nargs cm = 0" "s \<le> s2"
        using parseredirs_ok [OF Pok] parseredirs_ge [OF Pok] peek_ge [OF Pair] by auto
      then have "parses (Suc n) 2 b s (exec_args cm 0 b s2)"
        using exec_args_ok [of cm 0 b s2] exec_args_no_fuel [of cm 0 b s2] by (fastforce intro!: parsesI)
      then show ?thesis using Pair False Pok by simp
    qed (use Pair False parseredirs_no_fuel in \<open>auto\<close>)
  qed
qed

lemma parseline_parses: "parses n 4 b s (parseline n b s)"
proof -
  have "(\<forall>s. parses n 4 b s (parseline n b s)) \<and> (\<forall>s. parses n 3 b s (parsepipe n b s)) \<and>
     (\<forall>s. parses n 1 b s (parseblock n b s)) \<and> (\<forall>s. parses n 2 b s (parseexec n b s))"
  proof (induction n)
    case 0
    then show ?case by (simp add: parses_def)
  next
    case (Suc n)
    then show ?case by (intro conjI allI parseline_step parsepipe_step parseblock_step parseexec_step) blast+
  qed
  then show ?thesis by blast
qed

section \<open>Running a command\<close>

definition upanic :: "string \<Rightarrow> uproc" where
  "upanic s = printf 2 (''%s'' @ [newline]) [Astr (Some s)] Exited"

definition fork1 :: "(int \<Rightarrow> uproc) \<Rightarrow> uproc" where
  "fork1 k = Sys SysFork (\<lambda>pid. if pid = -1 then upanic ''fork'' else k pid)"

text \<open>The C string at offset \<open>q\<close> of the line, after \<open>nulterminate\<close>.\<close>

definition text_at :: "string \<Rightarrow> nat \<Rightarrow> string" where
  "text_at m q = takeWhile (\<lambda>c. c \<noteq> NUL) (drop q m)"

primrec runcmd :: "string \<Rightarrow> cmd \<Rightarrow> uproc" where
  "runcmd m (Exec as) =
     (case as of
        [] \<Rightarrow> Exited
      | (q, e) # _ \<Rightarrow>
          Sys (SysExec (text_at m q) (map (\<lambda>(q, e). text_at m q) as)) (\<lambda>_.
            printf 2 (''exec %s failed'' @ [newline]) [Astr (Some (text_at m q))] Exited))"
| "runcmd m (Redir c f mode fd) =
     Sys (SysClose fd) (\<lambda>_. Sys (SysOpen (text_at m (fst f)) mode) (\<lambda>r.
       if r < 0 then printf 2 (''open %s failed'' @ [newline]) [Astr (Some (text_at m (fst f)))] Exited
       else runcmd m c))"
| "runcmd m (Seq l r) =
     fork1 (\<lambda>pid. if pid = 0 then runcmd m l else Sys SysWait (\<lambda>_. runcmd m r))"
| "runcmd m (Pipe l r) =
     SysPipe (\<lambda>res p0 p1.
       if res < 0 then upanic ''pipe''
       else fork1 (\<lambda>pid.
         if pid = 0 then
           Sys (SysClose 1) (\<lambda>_. Sys (SysDup p1) (\<lambda>_. Sys (SysClose p0) (\<lambda>_. Sys (SysClose p1) (\<lambda>_.
             runcmd m l))))
         else fork1 (\<lambda>pid.
           if pid = 0 then
             Sys (SysClose 0) (\<lambda>_. Sys (SysDup p0) (\<lambda>_. Sys (SysClose p0) (\<lambda>_. Sys (SysClose p1) (\<lambda>_.
               runcmd m r))))
           else Sys (SysClose p0) (\<lambda>_. Sys (SysClose p1) (\<lambda>_.
             Sys SysWait (\<lambda>_. Sys SysWait (\<lambda>_. Exited)))))))"
| "runcmd m (Back c) = fork1 (\<lambda>pid. if pid = 0 then runcmd m c else Exited)"

text \<open>\<open>getcmd\<close> hands on the line, or \<open>None\<close> at end of file (a first byte of 0).\<close>

definition getcmd :: "(string option \<Rightarrow> uproc) \<Rightarrow> uproc" where
  "getcmd k = printf 2 ''$ '' [] (ulib_gets 100 (\<lambda>buf. k (if char_at buf 0 = NUL then None else Some buf)))"

text \<open>
  The loop of \<open>main\<close>. A line is the C string in \<open>buf\<close>; a \<open>panic\<close> of the parser ends the child.
\<close>

fun sh_loop :: "nat \<Rightarrow> uproc" where
  "sh_loop 0 = Stuck"
| "sh_loop (Suc n) = getcmd (\<lambda>l.
     case l of
       None \<Rightarrow> Exited
     | Some buf \<Rightarrow>
         let line = text_at buf 0 in
         if take 3 line = ''cd '' then
           let dir = drop 3 (butlast line) in
           Sys (SysChdir dir) (\<lambda>r.
             if r < 0 then printf 2 (''cannot cd %s'' @ [newline]) [Astr (Some dir)] (sh_loop n) else sh_loop n)
         else fork1 (\<lambda>pid.
           if pid = 0 then
             (case parsecmd line of Pok (c, m) _ \<Rightarrow> runcmd m c | Perr e \<Rightarrow> upanic e | Pfuel \<Rightarrow> Stuck)
           else Sys SysWait (\<lambda>_. sh_loop n)))"

fun sh_open_fds :: "nat \<Rightarrow> uproc \<Rightarrow> uproc" where
  "sh_open_fds 0 k = Stuck"
| "sh_open_fds (Suc n) k =
     Sys (SysOpen ''console'' 2) (\<lambda>fd.
       if fd \<ge> 0 then (if fd \<ge> 3 then Sys (SysClose fd) (\<lambda>_. k) else sh_open_fds n k) else k)"

definition sh_main :: "nat \<Rightarrow> uproc" where
  "sh_main n = sh_open_fds 4 (sh_loop n)"

section \<open>The words of a parsed line\<close>

lemma nulterminate_words: "nulterminate c b = fold (\<lambda>(q, e) b. b[e := NUL]) (words c) b"
  by (induction c b rule: nulterminate.induct) auto

lemma fold_nul_length: "length (fold (\<lambda>(q, e) b. b[e := NUL]) ws b) = length b"
  by (induction ws arbitrary: b) auto

lemma fold_nul_nth:
  "i < length b \<Longrightarrow> fold (\<lambda>(q, e) b. b[e := NUL]) ws b ! i = (if i \<in> snd ` set ws then NUL else b ! i)"
  by (induction ws arbitrary: b) (force simp: nth_list_update)+

lemma cmd_ok_words: "cmd_ok b c \<Longrightarrow> w \<in> set (words c) \<Longrightarrow> is_word b w"
  by (induction c) auto

lemma parsecmd_ok:
  assumes "parsecmd b = Pok (c, m) s"
  shows "cmd_ok b c \<and> m = nulterminate c (b @ [NUL]) \<and> s = length b"
  using assms parseline_parses [of "4 * length b + 4" b 0]
  by (auto simp: parsecmd_def parses_def Let_def split: presult.splits if_splits prod.splits)

lemma takeWhile_upto:
  "n < length xs \<Longrightarrow> (\<forall>i < n. P (xs ! i)) \<Longrightarrow> \<not> P (xs ! n) \<Longrightarrow> takeWhile P xs = take n xs"
  by (metis takeWhile_eq_take_P_nth)

lemma nulterminated_word:
  assumes "NUL \<notin> set b" "cmd_ok b c" "(q, e) \<in> set (words c)"
  shows "text_at (nulterminate c (b @ [NUL])) q = take (e - q) (drop q b)"
proof -
  define m where "m = nulterminate c (b @ [NUL])"
  have w: "is_word b (q, e)" using cmd_ok_words assms by blast
  have nth: "i \<le> length b \<Longrightarrow> m ! i = (if i \<in> snd ` set (words c) then NUL else (b @ [NUL]) ! i)"
    and len: "length m = Suc (length b)" for i
    by (simp_all add: m_def nulterminate_words fold_nul_nth fold_nul_length)
  have inner: "m ! i = b ! i" if "q \<le> i" "i < e" for i
  proof -
    have "i < length b" "word_char (b ! i)" using that w by auto
    moreover have "i \<notin> snd ` set (words c)"
    proof
      assume "i \<in> snd ` set (words c)"
      then obtain q' where "(q', i) \<in> set (words c)" by fastforce
      then have "is_word b (q', i)" by (rule cmd_ok_words [OF assms(2)])
      then show False using \<open>i < length b\<close> \<open>word_char (b ! i)\<close> by simp
    qed
    ultimately show ?thesis using nth [of i] by (simp add: nth_append)
  qed
  have "m ! e = NUL" using nth [of e] w assms(3) by (simp add: image_iff) (metis snd_conv)
  moreover have "m ! i \<noteq> NUL" if "q \<le> i" "i < e" for i
  proof -
    have "i < length b" using w that by simp
    then have "b ! i \<noteq> NUL" using assms(1) nth_mem by metis
    then show ?thesis using inner [OF that] by simp
  qed
  ultimately have "text_at m q = take (e - q) (drop q m)"
    unfolding text_at_def using w len by (intro takeWhile_upto) auto
  also have "\<dots> = take (e - q) (drop q b)"
    using w len inner by (intro nth_equalityI) auto
  finally show ?thesis by (simp add: m_def)
qed

text \<open>
  C24. The parser always returns: on every line it ends with a command or with one of its error
  messages, and the fuel that stands for its recursion never runs out.
\<close>

theorem parsecmd_returns: "\<exists>c m e. parsecmd b = Pok (c, m) (length b) \<or> parsecmd b = Perr e"
proof -
  have "parseline (4 * length b + 4) b 0 \<noteq> Pfuel"
    using parseline_parses [of "4 * length b + 4" b 0] by (simp add: parses_def)
  then show ?thesis
    by (cases "parseline (4 * length b + 4) b 0") (auto simp: parsecmd_def Let_def split: prod.splits if_splits)
qed



section \<open>The plumbing of a pipeline\<close>

text \<open>
  What the programs that a command starts find in their descriptors. \<open>runs t k p\<close> is the list
  of the programs that process \<open>p\<close>, with descriptor table \<open>t\<close>, and its children \<open>exec\<close>: for
  each its table and its arguments. Pipes are numbered from \<open>k\<close>. As in the kernel, \<open>fork\<close>
  copies the table, and \<open>open\<close>, \<open>dup\<close> and \<open>pipe\<close> take the lowest free descriptors.
\<close>

datatype fobj = PipeR nat | PipeW nat | OpenFile string int | Inherited nat

type_synonym fdtab = "int \<Rightarrow> fobj option"

fun lowest :: "fdtab \<Rightarrow> nat \<Rightarrow> int \<Rightarrow> int" where
  "lowest t 0 i = -1"
| "lowest t (Suc n) i = (if t i = None then i else lowest t n (i + 1))"

definition free_fd :: "fdtab \<Rightarrow> int" where
  "free_fd t = lowest t 16 0"

primrec runs :: "uproc \<Rightarrow> fdtab \<Rightarrow> nat \<Rightarrow> (fdtab \<times> string list) list \<times> nat" where
  "runs Exited t k = ([], k)"
| "runs Stuck t k = ([], k)"
| "runs (Sys c f) t k =
     (case c of
        SysFork \<Rightarrow> (let (as, k1) = runs (f 0) t k; (bs, k2) = runs (f 1) t k1 in (as @ bs, k2))
      | SysClose fd \<Rightarrow> runs (f 0) (t(fd := None)) k
      | SysDup fd \<Rightarrow>
          (case t fd of None \<Rightarrow> runs (f (-1)) t k | Some x \<Rightarrow> runs (f (free_fd t)) (t(free_fd t \<mapsto> x)) k)
      | SysOpen p m \<Rightarrow> runs (f (free_fd t)) (t(free_fd t \<mapsto> OpenFile p m)) k
      | SysExec p argv \<Rightarrow> ([(t, argv)], k)
      | _ \<Rightarrow> runs (f 0) t k)"
| "runs (SysPipe f) t k =
     (let r = free_fd t; t1 = t(r \<mapsto> PipeR k); w = free_fd t1
      in runs (f 0 r w) (t1(w \<mapsto> PipeW k)) (k + 1))"
| "runs (SysRead fd n f) t k = runs (f 0 []) t k"

text \<open>A table in which exactly the three standard descriptors are open.\<close>

definition std_fds :: "fdtab \<Rightarrow> bool" where
  "std_fds t \<longleftrightarrow> t 0 \<noteq> None \<and> t 1 \<noteq> None \<and> t 2 \<noteq> None \<and> (\<forall>i. i \<notin> {0, 1, 2} \<longrightarrow> t i = None)"

lemma free_fd_at:
  "t 0 = None \<Longrightarrow> free_fd t = 0"
  "t 0 \<noteq> None \<Longrightarrow> t 1 = None \<Longrightarrow> free_fd t = 1"
  "t 0 \<noteq> None \<Longrightarrow> t 1 \<noteq> None \<Longrightarrow> t 2 \<noteq> None \<Longrightarrow> t 3 = None \<Longrightarrow> free_fd t = 3"
  "t 0 \<noteq> None \<Longrightarrow> t 1 \<noteq> None \<Longrightarrow> t 2 \<noteq> None \<Longrightarrow> t 3 \<noteq> None \<Longrightarrow> t 4 = None \<Longrightarrow> free_fd t = 4"
  by (simp_all add: free_fd_def numeral_eq_Suc)

text \<open>
  C26. How the shell connects the two sides of a pipe: the programs on the left find the pipe's
  write end in descriptor 1, those on the right its read end in descriptor 0, and otherwise
  both have the shell's three descriptors and no other, so neither side holds an end of the
  pipe that would keep the other from seeing end of file.
\<close>

theorem pipe_wiring:
  assumes "std_fds t"
  shows "runs (runcmd m (Pipe l r)) t k =
    (let (as, k1) = runs (runcmd m l) (t(1 \<mapsto> PipeW k)) (k + 1);
         (bs, k2) = runs (runcmd m r) (t(0 \<mapsto> PipeR k)) k1
     in (as @ bs, k2)) \<and> std_fds (t(1 \<mapsto> PipeW k)) \<and> std_fds (t(0 \<mapsto> PipeR k))"
proof -
  have fds: "t 0 \<noteq> None" "t 1 \<noteq> None" "t 2 \<noteq> None" "t 3 = None" "t 4 = None"
    using assms by (auto simp: std_fds_def)
  define T where "T = t(3 \<mapsto> PipeR k, 4 \<mapsto> PipeW k)"
  have p: "free_fd t = 3" "free_fd (t(3 \<mapsto> PipeR k)) = 4"
    using fds by (auto intro!: free_fd_at)
  have w: "free_fd (T(1 := None)) = 1" and r: "free_fd (T(0 := None)) = 0"
    using fds by (auto intro!: free_fd_at simp: T_def)
  have left: "(T(1 := None))(1 \<mapsto> PipeW k, 3 := None, 4 := None) = t(1 \<mapsto> PipeW k)"
    and right: "(T(0 := None))(0 \<mapsto> PipeR k, 3 := None, 4 := None) = t(0 \<mapsto> PipeR k)"
    using fds by (auto simp: T_def fun_eq_iff)
  have "T 3 = Some (PipeR k)" "T 4 = Some (PipeW k)" by (simp_all add: T_def)
  then have "runs (runcmd m (Pipe l r)) t k =
    (let (as, k1) = runs (runcmd m l) (t(1 \<mapsto> PipeW k)) (k + 1);
         (bs, k2) = runs (runcmd m r) (t(0 \<mapsto> PipeR k)) k1
     in (as @ bs, k2))"
    using left right w r
    by (simp add: fork1_def p T_def [symmetric] Let_def case_prod_unfold)
  then show ?thesis using assms by (auto simp: std_fds_def)
qed

definition std3 :: fdtab where
  "std3 = (\<lambda>_. None)(0 \<mapsto> Inherited 0, 1 \<mapsto> Inherited 1, 2 \<mapsto> Inherited 2)"

theorem pipe_wiring_witness:
  "std_fds std3 \<and>
   runs (runcmd [CHR ''l'', CHR ''s'', NUL, CHR ''w'', CHR ''c'', NUL] (Pipe (Exec [(0, 2)]) (Exec [(3, 5)]))) std3 0 =
     ([(std3(1 \<mapsto> PipeW 0), [''ls'']), (std3(0 \<mapsto> PipeR 0), [''wc''])], 1)"
proof -
  have s: "std_fds std3" by (simp add: std_fds_def std3_def)
  show ?thesis
    using s pipe_wiring [OF s, of "[CHR ''l'', CHR ''s'', NUL, CHR ''w'', CHR ''c'', NUL]" "Exec [(0, 2)]" "Exec [(3, 5)]" 0]
    by (simp add: text_at_def)
qed

end
