(* ===== verification/Grep.thy ===== *)
theory Grep
  imports Userland
begin

text \<open>
  src/grep.c: the regular-expression matcher, proved equivalent to the language its patterns
  denote, and the loop that cuts the input into lines. Patterns and texts are C strings,
  that is lists of characters other than NUL.
\<close>

section \<open>The matcher\<close>

function matchhere :: "string \<Rightarrow> string \<Rightarrow> bool"
  and matchstar :: "char \<Rightarrow> string \<Rightarrow> string \<Rightarrow> bool" where
  "matchhere re tx =
     (case re of
        [] \<Rightarrow> True
      | c # re' \<Rightarrow>
          (case re' of
             d # re'' \<Rightarrow>
               if d = CHR ''*'' then matchstar c re'' tx
               else (case tx of [] \<Rightarrow> False | x # tx' \<Rightarrow> (c = CHR ''.'' \<or> c = x) \<and> matchhere re' tx')
           | [] \<Rightarrow>
               if c = CHR ''$'' then tx = []
               else (case tx of [] \<Rightarrow> False | x # tx' \<Rightarrow> (c = CHR ''.'' \<or> c = x) \<and> matchhere re' tx')))"
| "matchstar c re tx =
     (if matchhere re tx then True
      else case tx of [] \<Rightarrow> False | x # tx' \<Rightarrow> if x = c \<or> c = CHR ''.'' then matchstar c re tx' else False)"
  by pat_completeness auto
termination
  by (relation "inv_image (less_than <*lex*> less_than)
        (\<lambda>a. case a of Inl (re, tx) \<Rightarrow> (2 * length re, length tx)
                     | Inr (c, re, tx) \<Rightarrow> (2 * length re + 1, length tx))") auto

declare matchhere.simps [simp del] matchstar.simps [simp del]

text \<open>The loop of \<open>match\<close>, which also looks at the empty string at the end of the text.\<close>

fun match_loop :: "string \<Rightarrow> string \<Rightarrow> bool" where
  "match_loop re tx =
     (if matchhere re tx then True else case tx of [] \<Rightarrow> False | x # tx' \<Rightarrow> match_loop re tx')"

declare match_loop.simps [simp del]

definition match :: "string \<Rightarrow> string \<Rightarrow> bool" where
  "match re tx =
     (case re of
        c # re' \<Rightarrow> if c = CHR ''^'' then matchhere re' tx else match_loop re tx
      | [] \<Rightarrow> match_loop re tx)"

section \<open>The language of a pattern\<close>

datatype item = One char | Star char | AtEnd

fun items :: "string \<Rightarrow> item list" where
  "items [] = []"
| "items [c] = (if c = CHR ''$'' then [AtEnd] else [One c])"
| "items (c # d # re) = (if d = CHR ''*'' then Star c # items re else One c # items (d # re))"

definition accepts :: "char \<Rightarrow> char \<Rightarrow> bool" where
  "accepts c x \<longleftrightarrow> c = CHR ''.'' \<or> c = x"

text \<open>\<open>denotes is p s\<close>: the items match the string \<open>p\<close> when \<open>s\<close> follows it.\<close>

fun denotes :: "item list \<Rightarrow> string \<Rightarrow> string \<Rightarrow> bool" where
  "denotes [] p s \<longleftrightarrow> p = []"
| "denotes (One c # is) p s \<longleftrightarrow> (\<exists>x p'. p = x # p' \<and> accepts c x \<and> denotes is p' s)"
| "denotes (Star c # is) p s \<longleftrightarrow> (\<exists>u p'. p = u @ p' \<and> (\<forall>x \<in> set u. accepts c x) \<and> denotes is p' s)"
| "denotes (AtEnd # is) p s \<longleftrightarrow> s = [] \<and> denotes is p s"

lemma matchstar_split:
  assumes "\<And>t. matchhere re t \<longleftrightarrow> P t"
  shows "matchstar c re tx \<longleftrightarrow> (\<exists>u t. tx = u @ t \<and> (\<forall>x \<in> set u. accepts c x) \<and> P t)"
proof (induction tx)
  case Nil
  then show ?case by (subst matchstar.simps) (simp add: assms)
next
  case (Cons x tx)
  have "matchstar c re (x # tx) \<longleftrightarrow> P (x # tx) \<or> accepts c x \<and> matchstar c re tx"
    by (subst matchstar.simps) (auto simp: assms accepts_def)
  moreover have "(\<exists>u t. x # tx = u @ t \<and> (\<forall>y \<in> set u. accepts c y) \<and> P t) \<longleftrightarrow>
      P (x # tx) \<or> accepts c x \<and> (\<exists>u t. tx = u @ t \<and> (\<forall>y \<in> set u. accepts c y) \<and> P t)" (is "?l \<longleftrightarrow> ?r")
  proof
    assume ?l then show ?r by (auto simp: Cons_eq_append_conv) blast
  next
    assume ?r then show ?l
    proof
      assume "P (x # tx)" then show ?l by (intro exI [of _ "[]"] exI [of _ "x # tx"]) simp
    next
      assume "accepts c x \<and> (\<exists>u t. tx = u @ t \<and> (\<forall>y \<in> set u. accepts c y) \<and> P t)"
      then obtain u t where "tx = u @ t" "\<forall>y \<in> set (x # u). accepts c y" "P t" by auto
      then show ?l by (intro exI [of _ "x # u"] exI [of _ t]) auto
    qed
  qed
  ultimately show ?case using Cons.IH by simp
qed

lemma matchhere_denotes: "matchhere re tx \<longleftrightarrow> (\<exists>p s. tx = p @ s \<and> denotes (items re) p s)"
proof (induction re arbitrary: tx rule: items.induct)
  case 1
  then show ?case by (subst matchhere.simps) simp
next
  case (2 c)
  have "matchhere [] t" for t by (subst matchhere.simps) simp
  then have "matchhere [c] tx \<longleftrightarrow> (if c = CHR ''$'' then tx = [] else \<exists>x t. tx = x # t \<and> accepts c x)"
    by (subst matchhere.simps) (auto simp: accepts_def split: list.split)
  then show ?case by auto (metis append_Cons append_Nil)
next
  case (3 c d re)
  show ?case
  proof (cases "d = CHR ''*''")
    case True
    have "matchhere (c # d # re) tx \<longleftrightarrow> matchstar c re tx"
      using True by (subst matchhere.simps) simp
    also have "\<dots> \<longleftrightarrow> (\<exists>p s. tx = p @ s \<and> denotes (items (c # d # re)) p s)"
      unfolding matchstar_split [of re, OF 3(1) [OF True]] using True by auto (metis append.assoc)+
    finally show ?thesis .
  next
    case False
    have "matchhere (c # d # re) tx \<longleftrightarrow> (\<exists>x t. tx = x # t \<and> accepts c x \<and> matchhere (d # re) t)"
      using False by (subst matchhere.simps) (auto simp: accepts_def split: list.split)
    also have "\<dots> \<longleftrightarrow> (\<exists>p s. tx = p @ s \<and> denotes (items (c # d # re)) p s)"
      using 3(2) [OF False] False by auto (metis append_Cons, blast)
    finally show ?thesis .
  qed
qed

lemma match_loop_iff: "match_loop re tx \<longleftrightarrow> (\<exists>a t. tx = a @ t \<and> matchhere re t)"
proof (induction tx)
  case Nil
  then show ?case by (subst match_loop.simps) simp
next
  case (Cons x tx)
  then show ?case by (subst match_loop.simps) (auto simp: Cons_eq_append_conv)
qed

text \<open>
  C27. The matcher decides the language of its patterns: \<open>match\<close> finds a pattern in a text exactly
  when some part of the text is in the pattern's language, at the beginning of the text if the
  pattern starts with \<open>^\<close> and at its end if it ends with \<open>$\<close>.
\<close>

theorem match_decides:
  "match re tx \<longleftrightarrow>
     (\<exists>a p s. tx = a @ p @ s \<and>
        (if re \<noteq> [] \<and> hd re = CHR ''^'' then a = [] \<and> denotes (items (tl re)) p s
         else denotes (items re) p s))"
proof (cases "re \<noteq> [] \<and> hd re = CHR ''^''")
  case True
  then show ?thesis by (cases re) (auto simp: match_def matchhere_denotes)
next
  case False
  then have "match re tx = match_loop re tx" by (cases re) (auto simp: match_def)
  then show ?thesis using False by (auto simp: match_loop_iff matchhere_denotes)
qed

section \<open>The lines of the input\<close>

text \<open>
  The inner loop of \<open>grep\<close> over the bytes from \<open>p\<close> on: the lines it writes, and what is left
  after the last newline that \<open>strchr\<close> finds (it stops at a NUL byte).
\<close>

function grep_lines :: "string \<Rightarrow> string \<Rightarrow> string list \<times> string" where
  "grep_lines pat p =
     (let line = takeWhile (\<lambda>c. c \<noteq> newline \<and> c \<noteq> CHR 0x00) p; rest = drop (length line) p in
      case rest of
        [] \<Rightarrow> ([], p)
      | c # q \<Rightarrow>
          if c \<noteq> newline then ([], p)
          else let (out, left) = grep_lines pat q in
            (if match pat line then (line @ [newline]) # out else out, left))"
  by pat_completeness auto
termination
proof (relation "measure (\<lambda>(pat, p). length p)", simp, goal_cases)
  case (1 pat p line rest c q)
  then have "length (c # q) \<le> length p" by (metis length_drop diff_le_self)
  then show ?case by simp
qed

declare grep_lines.simps [simp del]

text \<open>
  The outer loop; \<open>buf\<close> holds the first \<open>m\<close> bytes of the buffer. When no newline was found,
  \<open>p == buf\<close> and the bytes are dropped.
\<close>

fun write_lines :: "string list \<Rightarrow> uproc \<Rightarrow> uproc" where
  "write_lines [] k = k"
| "write_lines (l # ls) k = Sys (SysWrite 1 l) (\<lambda>_. write_lines ls k)"

fun grep_loop :: "nat \<Rightarrow> string \<Rightarrow> int \<Rightarrow> string \<Rightarrow> uproc \<Rightarrow> uproc" where
  "grep_loop 0 pat fd buf k = Stuck"
| "grep_loop (Suc f) pat fd buf k =
     SysRead fd (1024 - length buf - 1) (\<lambda>n s.
       if n > 0 then
         let (out, left) = grep_lines pat (buf @ s) in
         write_lines out
           (grep_loop f pat fd (if length left = length (buf @ s) then [] else left) k)
       else k)"

definition grep :: "nat \<Rightarrow> string \<Rightarrow> int \<Rightarrow> uproc \<Rightarrow> uproc" where
  "grep f pat fd k = grep_loop f pat fd [] k"

fun grep_files :: "nat \<Rightarrow> string \<Rightarrow> string list \<Rightarrow> uproc" where
  "grep_files f pat [] = Exited"
| "grep_files f pat (a # as) =
     Sys (SysOpen a 0) (\<lambda>fd.
       if fd < 0 then printf 1 (''grep: cannot open %s'' @ [newline]) [Astr (Some a)] Exited
       else grep f pat fd (Sys (SysClose fd) (\<lambda>_. grep_files f pat as)))"

definition grep_main :: "nat \<Rightarrow> string list \<Rightarrow> uproc" where
  "grep_main f argv =
     (if length argv \<le> 1 then printf 2 (''usage: grep pattern [file ...]'' @ [newline]) [] Exited
      else if length argv \<le> 2 then grep f (argv ! 1) 0 Exited
      else grep_files f (argv ! 1) (drop 2 argv))"

text \<open>The reference: the complete lines of the input, and those that match.\<close>

fun lines :: "string \<Rightarrow> string \<Rightarrow> string list" where
  "lines cur [] = []"
| "lines cur (x # xs) = (if x = newline then cur # lines [] xs else lines (cur @ [x]) xs)"

definition selected :: "string \<Rightarrow> string \<Rightarrow> string" where
  "selected pat s = concat (map (\<lambda>l. l @ [newline]) (filter (match pat) (lines [] s)))"

lemma lines_line: "newline \<notin> set l \<Longrightarrow> lines cur (l @ newline # s) = (cur @ l) # lines [] s"
  by (induction l arbitrary: cur) auto

lemma lines_rest: "newline \<notin> set l \<Longrightarrow> lines cur l = []"
  by (induction l arbitrary: cur) auto

text \<open>Cutting a buffer: what is left has no newline, and the rest of the input continues it.\<close>

lemma grep_lines_selected:
  assumes "CHR 0x00 \<notin> set p" "grep_lines pat p = (out, left)"
  shows "newline \<notin> set left \<and> CHR 0x00 \<notin> set left \<and> selected pat (p @ s) = concat out @ selected pat (left @ s) \<and>
    length left \<le> length p \<and> (newline \<in> set p \<longrightarrow> length left < length p)"
  using assms
proof (induction pat p arbitrary: out left rule: grep_lines.induct)
  case (1 pat p)
  define line where "line = takeWhile (\<lambda>c. c \<noteq> newline \<and> c \<noteq> CHR 0x00) p"
  have tw: "line = takeWhile (\<lambda>c. c \<noteq> newline) p"
    unfolding line_def using 1(2) by (intro takeWhile_cong) auto
  have nl: "newline \<notin> set line" using set_takeWhileD by (fastforce simp: tw)
  show ?case
  proof (cases "newline \<in> set p")
    case False
    then have "line = p" using tw by (auto simp: takeWhile_eq_all_conv)
    then have "grep_lines pat p = ([], p)" by (subst grep_lines.simps) (simp flip: line_def)
    then show ?thesis using 1(2,3) False by simp
  next
    case True
    then obtain ys q where ys: "p = ys @ newline # q" "newline \<notin> set ys" using split_list_first by fastforce
    then have "line = ys" unfolding tw by (subst ys(1), subst takeWhile_append2) auto
    with ys have p: "p = line @ newline # q" by simp
    have d: "drop (length line) p = newline # q" by (subst p) simp
    obtain out' left' where g: "grep_lines pat q = (out', left')" by fastforce
    have q: "CHR 0x00 \<notin> set q" using 1(2) by (subst (asm) p) simp
    note IH = 1(1) [OF line_def d [symmetric] refl _ q g]
    have "grep_lines pat p = (if match pat line then (line @ [newline]) # out' else out', left')"
      by (subst grep_lines.simps) (simp flip: line_def add: d g)
    then have eq: "out = (if match pat line then (line @ [newline]) # out' else out')" "left = left'"
      using 1(3) by simp_all
    have "selected pat (p @ s) = (if match pat line then line @ [newline] else []) @ selected pat (q @ s)"
      by (subst p) (simp add: selected_def lines_line nl)
    moreover have "length q < length p" by (subst p) simp
    ultimately show ?thesis using IH eq by simp
  qed
qed

lemma run_write_lines:
  "run_io (write_lines ls k) ins = (map (Pair 1) ls @ fst (run_io k ins), snd (run_io k ins))"
  by (induction ls) (auto simp: case_prod_unfold)

lemma written_lines [simp]: "written 1 (map (Pair 1) ls @ out) = concat ls @ written 1 out"
  by (induction ls) auto

lemma selected_rest: "newline \<notin> set l \<Longrightarrow> selected pat l = []"
  by (simp add: selected_def lines_rest)

lemma grep_loop_selects:
  assumes "\<forall>c \<in> set ins. newline \<in> set c \<and> CHR 0x00 \<notin> set c" "length ins < f"
    "newline \<notin> set buf" "CHR 0x00 \<notin> set buf"
  shows "written 1 (fst (run_io (grep_loop f pat fd buf Exited) ins)) = selected pat (buf @ concat ins) \<and>
    snd (run_io (grep_loop f pat fd buf Exited) ins)"
  using assms
proof (induction f arbitrary: ins buf)
  case (Suc f)
  show ?case
  proof (cases ins)
    case Nil
    then show ?thesis using Suc.prems by (simp add: selected_rest)
  next
    case (Cons c cs)
    obtain out left where g: "grep_lines pat (buf @ c) = (out, left)" by fastforce
    have c: "newline \<in> set c" "CHR 0x00 \<notin> set (buf @ c)" "c \<noteq> []" using Suc.prems Cons by auto
    note sel = grep_lines_selected [OF c(2) g, of "concat cs"]
    have "written 1 (fst (run_io (grep_loop f pat fd left Exited) cs)) = selected pat (left @ concat cs) \<and>
        snd (run_io (grep_loop f pat fd left Exited) cs)"
      using Suc.prems Cons sel by (intro Suc.IH) auto
    moreover have "length left \<noteq> length (buf @ c)" using sel c by auto
    ultimately show ?thesis using Cons c g sel by (simp add: run_write_lines)
  qed
qed simp

text \<open>
  C28. \<open>grep\<close> writes exactly the matching lines, in order, wherever the reads cut the input,
  provided that every read brings at least one newline (and no NUL byte).
\<close>

theorem grep_selects:
  assumes "\<forall>c \<in> set ins. newline \<in> set c \<and> CHR 0x00 \<notin> set c" "length ins < f"
  shows "written 1 (fst (run_io (grep f pat fd Exited) ins)) = selected pat (concat ins) \<and>
    snd (run_io (grep f pat fd Exited) ins)"
  using grep_loop_selects [OF assms, of "[]"] by (simp add: grep_def)

theorem grep_selects_witness:
  "written 1 (fst (run_io (grep 3 ''b$'' 0 Exited) [''ab'' @ [newline] @ ''a'', ''b'' @ [newline]])) =
     selected ''b$'' (''ab'' @ [newline] @ ''ab'' @ [newline])"
  using grep_selects [of "[''ab'' @ [newline] @ ''a'', ''b'' @ [newline]]" 3 "''b$''" 0] by simp

text \<open>
  The proviso is needed: a line that arrives in two reads, the first without a newline, is
  lost, although it is a matching line of the input and much shorter than the buffer.
\<close>

theorem grep_drops_split_line:
  "written 1 (fst (run_io (grep 3 ''abc'' 0 Exited) [''ab'', ''c'' @ [newline]])) = [] \<and>
   selected ''abc'' (concat [''ab'', ''c'' @ [newline]]) = ''abc'' @ [newline]"
proof -
  have m: "match ''abc'' ''abc''" "\<not> match ''abc'' ''c''" by code_simp+
  have "grep_lines ''abc'' ''ab'' = ([], ''ab'')" "grep_lines ''abc'' (''c'' @ [newline]) = ([], [])"
    using m by (simp_all add: grep_lines.simps)
  then show ?thesis using m by (simp add: grep_def selected_def numeral_3_eq_3)
qed

end
