(* ===== verification/Coroutine.thy ===== *)
theory Coroutine
  imports Userland
begin

text \<open>
  src/coroutine.c: the coroutine library. The heap holds the \<open>struct coroutine\<close>s and the words
  written on their stacks; 0 is the null pointer. \<open>malloc\<close> is the argument of \<open>co_new\<close>: the two
  addresses it returns, and the word that happens to be in the \<open>next\<close> field of the new
  structure, which \<open>co_new\<close> does not set. A call of \<open>swtch\<close> ends a step with \<open>CoSwtch\<close>: where the
  current context is saved and which saved context goes on. \<open>CoFault\<close> is the use of a null
  pointer. Walks along the list are partial functions, since a list may be cyclic.
\<close>

section \<open>The library\<close>

record coroutine =
  co_ctx :: nat
  conext :: nat
  stack :: nat

datatype slot = Host | Co nat

record co_st =
  cor :: "nat \<Rightarrow> coroutine"
  words64 :: "nat \<Rightarrow> nat"
  host_context :: nat
  co_current :: nat
  co_list :: nat
  freed :: "nat list"

datatype 'a co_out = CoRet 'a co_st | CoSwtch slot nat co_st | CoFault

text \<open>\<open>last_of\<close> is the loop \<open>while(head->next != 0)\<close>.\<close>

partial_function (option) last_of :: "co_st \<Rightarrow> nat \<Rightarrow> nat option" where
  "last_of s h = (if conext (cor s h) \<noteq> 0 then last_of s (conext (cor s h)) else Some h)"

definition co_new :: "nat \<Rightarrow> nat \<Rightarrow> nat \<Rightarrow> nat \<Rightarrow> nat \<Rightarrow> co_st \<Rightarrow> nat co_out option" where
  "co_new co1 stk junk func co_exit_addr s =
     (if co1 = 0 then Some (CoRet 0 s)
      else let s = s\<lparr>cor := (cor s)(co1 := \<lparr>co_ctx = 0, conext = junk, stack = stk\<rparr>)\<rparr> in
      if stk = 0 then Some (CoRet 0 (s\<lparr>freed := co1 # freed s\<rparr>))
      else let ptr = stk + 1000;
               s = s\<lparr>words64 := (words64 s)(ptr + 8 * 6 := func, ptr + 8 * 7 := co_exit_addr)\<rparr>;
               s = s\<lparr>cor := (cor s)(co1 := (cor s co1)\<lparr>co_ctx := ptr\<rparr>)\<rparr>
        in if co_list s = 0 then Some (CoRet co1 (s\<lparr>co_list := co1\<rparr>))
           else case last_of s (co_list s) of
               None \<Rightarrow> None
             | Some head \<Rightarrow> let head = co1 in Some (CoRet co1 s))"

text \<open>\<open>co_run\<close> up to its \<open>swtch\<close>, after which it returns 1.\<close>

definition co_run :: "co_st \<Rightarrow> int co_out" where
  "co_run s =
     (if co_list s \<noteq> 0 then
        let s = s\<lparr>co_current := co_list s\<rparr> in CoSwtch Host (co_ctx (cor s (co_current s))) s
      else CoRet 0 s)"

text \<open>
  The loop of \<open>co_run_all\<close> from \<open>tmp\<close> on, up to the next \<open>swtch\<close>; when that comes back, the loop
  goes on from \<open>tmp->next\<close>.
\<close>

partial_function (option) co_run_all_from :: "nat \<Rightarrow> co_st \<Rightarrow> int co_out option" where
  "co_run_all_from tmp s =
     (if tmp = 0 then Some (CoRet 1 s)
      else case co_run s of
          CoRet _ s \<Rightarrow> co_run_all_from (conext (cor s tmp)) s
        | r \<Rightarrow> Some r)"

definition co_run_all :: "co_st \<Rightarrow> int co_out option" where
  "co_run_all s = (if co_list s = 0 then Some (CoRet 0 s) else co_run_all_from (co_list s) s)"

definition co_yield :: "co_st \<Rightarrow> unit co_out" where
  "co_yield s =
     (let tmp = co_current s in
      if tmp = 0 then CoFault
      else if conext (cor s tmp) \<noteq> 0 then
        let s = s\<lparr>co_current := conext (cor s (co_current s))\<rparr>
        in CoSwtch (Co tmp) (co_ctx (cor s (co_current s))) s
      else let s = s\<lparr>co_current := 0\<rparr> in CoSwtch (Co tmp) (host_context s) s)"

text \<open>
  \<open>co_exit\<close> up to its \<open>swtch\<close>; \<open>prev\<close> starts as whatever is on the stack.
\<close>

partial_function (option) co_exit_walk :: "nat \<Rightarrow> nat \<Rightarrow> co_st \<Rightarrow> unit co_out option" where
  "co_exit_walk prev tmp s =
     (if tmp = 0 then Some (CoRet () s)
      else if tmp = co_current s then
        (if conext (cor s tmp) \<noteq> 0 then
           let s = (if prev \<noteq> 0
                then s\<lparr>cor := (cor s)(prev := (cor s prev)\<lparr>conext := conext (cor s tmp)\<rparr>)\<rparr> else s);
               s = s\<lparr>co_list := conext (cor s tmp)\<rparr>
           in Some (CoSwtch (Co (co_current s)) (co_ctx (cor s tmp)) s)
         else let s = s\<lparr>co_list := 0\<rparr> in Some (CoSwtch (Co (co_current s)) (host_context s) s))
      else co_exit_walk tmp (conext (cor s tmp)) s)"

definition co_exit :: "nat \<Rightarrow> co_st \<Rightarrow> unit co_out option" where
  "co_exit prev s = (if co_current s = 0 then Some (CoRet () s) else co_exit_walk prev (co_list s) s)"

definition co_destroy :: "nat \<Rightarrow> co_st \<Rightarrow> co_st" where
  "co_destroy co s =
     (if co \<noteq> 0 then
        let s = (if stack (cor s co) \<noteq> 0 then s\<lparr>freed := stack (cor s co) # freed s\<rparr> else s)
        in s\<lparr>freed := co # freed s\<rparr>
      else s)"

text \<open>\<open>swtch\<close> saves the current context, at address \<open>at\<close>, in the slot its first argument names.\<close>

fun swtch_save :: "slot \<Rightarrow> nat \<Rightarrow> co_st \<Rightarrow> co_st" where
  "swtch_save Host at s = s\<lparr>host_context := at\<rparr>"
| "swtch_save (Co c) at s = s\<lparr>cor := (cor s)(c := (cor s c)\<lparr>co_ctx := at\<rparr>)\<rparr>"

section \<open>One round of the coroutines\<close>

text \<open>A list of live coroutines, as \<open>co_list\<close> and the \<open>next\<close> fields should hold it.\<close>

fun co_chain :: "(nat \<Rightarrow> coroutine) \<Rightarrow> nat \<Rightarrow> nat list \<Rightarrow> bool" where
  "co_chain h p [] \<longleftrightarrow> p = 0"
| "co_chain h p (c # cs) \<longleftrightarrow> p = c \<and> c \<noteq> 0 \<and> co_chain h (conext (h c)) cs"

text \<open>
  A round: the running coroutine calls \<open>co_yield\<close>, \<open>swtch\<close> saves it at an address of \<open>ats\<close>, and
  whoever goes on calls \<open>co_yield\<close> in turn, until the host goes on. The result lists the
  contexts that went on.
\<close>

fun yields :: "nat list \<Rightarrow> co_st \<Rightarrow> nat list \<times> co_st" where
  "yields [] s = ([], s)"
| "yields (a # as) s =
     (case co_yield s of
        CoSwtch w c s \<Rightarrow> (let (cs, s) = yields as (swtch_save w a s) in (c # cs, s))
      | _ \<Rightarrow> ([], s))"

lemma co_chain_cong: "co_chain h p cs \<Longrightarrow> (\<And>c. conext (h' c) = conext (h c)) \<Longrightarrow> co_chain h' p cs"
  by (induction cs arbitrary: p) auto

lemma co_chain_nz: "co_chain h p cs \<Longrightarrow> p = 0 \<longleftrightarrow> cs = []"
  by (cases cs) auto

lemma co_yield_step:
  assumes "co_chain (cor s) (co_current s) (c # cs)"
  shows "co_yield s = CoSwtch (Co c) (case cs of [] \<Rightarrow> host_context s | d # _ \<Rightarrow> co_ctx (cor s d))
     (s\<lparr>co_current := (case cs of [] \<Rightarrow> 0 | d # _ \<Rightarrow> d)\<rparr>)"
  using assms by (cases cs) (auto simp: co_yield_def)

lemma yields_round:
  assumes "co_chain (cor s) (co_current s) (c # cs)" "distinct (c # cs)" "length as = length (c # cs)"
  shows "fst (yields as s) = map (\<lambda>c. co_ctx (cor s c)) cs @ [host_context s] \<and>
    co_current (snd (yields as s)) = 0 \<and> co_list (snd (yields as s)) = co_list s"
  using assms
proof (induction cs arbitrary: c as s)
  case Nil
  then show ?case using co_yield_step [OF Nil(1)] by (cases as) auto
next
  case (Cons d cs)
  then obtain a as' where as: "as = a # as'" by (cases as) auto
  define s' where "s' = swtch_save (Co c) a (s\<lparr>co_current := d\<rparr>)"
  have "fst (yields as' s') = map (\<lambda>c. co_ctx (cor s' c)) cs @ [host_context s'] \<and>
      co_current (snd (yields as' s')) = 0 \<and> co_list (snd (yields as' s')) = co_list s'"
    using Cons.prems as by (intro Cons.IH) (auto simp: s'_def elim!: co_chain_cong)
  moreover have "map (\<lambda>x. co_ctx (cor s' x)) cs = map (\<lambda>x. co_ctx (cor s x)) cs"
    using Cons.prems by (auto simp: s'_def)
  ultimately show ?case
    using co_yield_step [OF Cons.prems(1)] as by (auto simp: s'_def case_prod_unfold)
qed


definition co_heap :: "nat \<Rightarrow> coroutine" where
  "co_heap = (\<lambda>_. \<lparr>co_ctx = 0, conext = 0, stack = 0\<rparr>)
     (16 := \<lparr>co_ctx = 100, conext = 32, stack = 64\<rparr>, 32 := \<lparr>co_ctx = 200, conext = 0, stack = 128\<rparr>)"

definition two_cos :: co_st where
  "two_cos = \<lparr>cor = co_heap, words64 = (\<lambda>_. 0), host_context = 0, co_current = 0, co_list = 16, freed = []\<rparr>"


section \<open>Where the code falls short of coroutine.h\<close>

lemma last_of_chain: "co_chain (cor s) p (cs @ [c]) \<Longrightarrow> last_of s p = Some c"
proof (induction cs arbitrary: p)
  case Nil
  then show ?case by (subst last_of.simps) simp
next
  case (Cons d cs)
  then have "last_of s p = last_of s (conext (cor s d))"
    using co_chain_nz [of "cor s" "conext (cor s d)" "cs @ [c]"] by (subst last_of.simps) auto
  then show ?case using Cons by simp
qed

text \<open>
  \<open>co_new\<close> does not append: when the list is not empty, the new coroutine is set up but no
  \<open>next\<close> field changes and the list is still the old one, so \<open>co_run\<close> will never reach it.
  (The assignment \<open>head = co1\<close> changes a local variable only.)
\<close>

theorem co_new_not_appended:
  assumes "co_chain (cor s) (co_list s) (cs @ [c])" "co1 \<notin> set (cs @ [c])" "co1 \<noteq> 0" "stk \<noteq> 0"
  shows "\<exists>s'. co_new co1 stk junk func ex s = Some (CoRet co1 s') \<and> co_chain (cor s') (co_list s') (cs @ [c])"
proof -
  define r where "r = \<lparr>co_ctx = stk + 1000, conext = junk, stack = stk\<rparr>"
  define s' where "s' = s\<lparr>words64 := (words64 s)(stk + 1000 + 8 * 6 := func, stk + 1000 + 8 * 7 := ex),
     cor := (cor s)(co1 := r)\<rparr>"
  have "co_chain ((cor s)(co1 := r)) p xs" if "co_chain (cor s) p xs" "co1 \<notin> set xs" for p xs
    using that by (induction xs arbitrary: p) auto
  then have ch: "co_chain (cor s') (co_list s') (cs @ [c])" using assms by (simp add: s'_def)
  have nz: "co_list s \<noteq> 0" using assms(1) co_chain_nz by blast
  have "co_new co1 stk junk func ex s = (case last_of s' (co_list s') of None \<Rightarrow> None | Some h \<Rightarrow> Some (CoRet co1 s'))"
    using assms(3,4) nz by (simp add: co_new_def Let_def s'_def r_def split: option.split)
  then show ?thesis using ch last_of_chain [OF ch] by simp
qed

theorem co_new_not_appended_witness:
  "\<exists>s'. co_new 48 4096 0 5 6 two_cos = Some (CoRet 48 s') \<and> co_chain (cor s') (co_list s') [16, 32]"
proof -
  have c: "co_chain (cor two_cos) (co_list two_cos) ([16] @ [32])" by (simp add: two_cos_def co_heap_def)
  show ?thesis using co_new_not_appended [OF c, of 48 4096 0 5 6] by simp
qed

text \<open>
  \<open>co_yield\<close> is not safe in the host: with no coroutine current it follows the null pointer,
  and this is the only case in which it fails.
\<close>

theorem co_yield_faults: "co_yield s = CoFault \<longleftrightarrow> co_current s = 0"
  by (auto simp: co_yield_def Let_def)

text \<open>
  \<open>co_exit\<close> of the first of several coroutines (with \<open>prev\<close> null) takes it off the list, but then
  switches to the context of the exiting coroutine itself instead of to another one.
\<close>

theorem co_exit_switches_to_itself:
  assumes "co_chain (cor s) (co_list s) (c # d # cs)" "co_current s = c"
  shows "\<exists>s'. co_exit 0 s = Some (CoSwtch (Co c) (co_ctx (cor s c)) s') \<and> co_chain (cor s') (co_list s') (d # cs)"
  using assms by (auto simp: co_exit_def co_exit_walk.simps Let_def)

theorem co_exit_switches_to_itself_witness:
  "\<exists>s'. co_exit 0 (two_cos\<lparr>co_current := 16\<rparr>) = Some (CoSwtch (Co 16) 100 s') \<and> co_chain (cor s') (co_list s') [32]"
  using co_exit_switches_to_itself [of "two_cos\<lparr>co_current := 16\<rparr>" 16 32 "[]"]
  by (simp add: two_cos_def co_heap_def)

end
