(* ===== verification/Spec2Isabelle.thy ===== *)
theory Spec2Isabelle
  imports Uvm Namei Umalloc Trap Shell Grep Coroutine
begin

text \<open>
  \<^bold>\<open>A verification of the 64-bit xv6 kernel, its user programs and its coroutine library.\<close>

  The repository is a small Unix: a kernel in C for several x86-64 CPUs, a file system with a write-ahead
  log, a shell and a few user programs, and a coroutine library for user programs. This development
  translates the C functions into Isabelle definitions, function by function and with the names of the
  source, and proves what makes them correct. All paths below are under \<open>src/\<close>.

  \<^bold>\<open>How the code is translated.\<close> A kernel function is a value of type \<open>('s, 'a) kop\<close> (\<open>Xv6_Prelude\<close>): from
  the state it gives \<open>Done r s'\<close> (it returned), \<open>Panicked msg\<close> (it called \<open>panic\<close>), or \<open>Switched s'\<close> (it
  gave up the CPU in \<open>sched\<close>). \<open>bnd\<close> and \<open>thn\<close> are sequencing, \<open>steps\<close> a block of statements, \<open>for_each\<close> a
  loop. The rest of a function after a \<open>sleep\<close> is an operation of its own, called \<open>..._resume\<close>, that runs
  when the process is scheduled again; so every interleaving at the points where the code can
  give up the CPU is a sequence of operations. The state is a record that each component
  extends by its own variables: locks and processes, then the page allocator and memory, pipes, disk,
  buffer cache, log, page tables, inodes, console, open files, the scheduler, and traps. An
  operation is polymorphic in the extension, so it cannot touch what later components add.
  Kernel memory is a map from 64-bit addresses to bytes (\<open>mem\<close>); addresses, page table entries and unsigned
  counters are words of their width and wrap; C strings and blocks are lists. Loops are structural
  recursion or carry a termination proof; the parser of the shell has fuel, with a proof that
  the length of the line is enough (\<open>parsecmd_returns\<close>). User programs are interaction trees of system
  calls (\<open>Userland\<close>), run against arbitrary answers of the kernel.

  \<^bold>\<open>The theories.\<close>
  \<^item> \<open>Xv6_Prelude\<close>: the kernel monad with its Hoare-style rules, byte and word encodings, memory.
  \<^item> \<open>Cstring\<close>: \<open>string.c\<close>, the string routines of \<open>ulib.c\<close> and of \<open>x86.h\<close>, on memory with aliasing.
  \<^item> \<open>Ring\<close>: the locale of a ring buffer with free-running 32-bit indices, used by pipe and console.
  \<^item> \<open>Ptable\<close>: \<open>sleep\<close>, \<open>wakeup\<close>, \<open>kill\<close>, \<open>sched\<close>, \<open>yield\<close> of \<open>proc.c\<close> and the held locks.
  \<^item> \<open>Kalloc\<close>: \<open>kalloc.c\<close>, the free list threaded through the free pages.
  \<^item> \<open>Spinlock\<close>: \<open>spinlock.c\<close> instruction by instruction for any number of CPUs, and the
    refinement to the set of held locks that the other theories use.
  \<^item> \<open>Pipe\<close>, \<open>Sleeplock\<close>, \<open>Ide\<close> (with \<open>memide.c\<close>), \<open>Bio\<close>, \<open>Log\<close>: the files of these names.
  \<^item> \<open>Vm\<close> and \<open>Pagetable\<close>: \<open>vm.c\<close> and the contract of the page tables.
  \<^item> \<open>Inode\<close> and \<open>Fs\<close>: \<open>fs.c\<close>, from blocks and inodes to directories and paths.
  \<^item> \<open>Kbd\<close>, \<open>Console\<close>: \<open>kbd.c\<close>, \<open>console.c\<close>, \<open>uart.c\<close>.
  \<^item> \<open>File\<close>, \<open>Proc\<close>, \<open>Exec\<close>, \<open>Syscall\<close>, \<open>Trap\<close>: \<open>file.c\<close>; the rest of \<open>proc.c\<close>; \<open>exec.c\<close>; \<open>syscall.c\<close>,
    \<open>sysproc.c\<close>, \<open>sysfile.c\<close>; \<open>trap.c\<close>.
  \<^item> \<open>Userland\<close>, \<open>Shell\<close>, \<open>Grep\<close>: \<open>printf.c\<close>, \<open>ulib.c\<close>, the small programs, \<open>sh.c\<close>, \<open>grep.c\<close>.
  \<^item> \<open>Coroutine\<close>: \<open>coroutine.c\<close> over a model of \<open>swtch.S\<close>.
\<close>

end
